(* ===== verification/Prelude.thy ===== *)
theory Prelude
  imports "HOL-Library.Word"
begin

section \<open>Shared types, result type, and generic lemmas\<close>

text \<open>
  What every component of the development uses: the result type of code that may not
  return normally, little-endian byte encodings, bounded loads and stores in a byte
  array, and the collections of rewrite rules the component proofs refer to.
\<close>

unbundle bit_operations_syntax

subsection \<open>Collections\<close>

named_theorems state_defs \<open>definitions of the state updates and accessors of the model\<close>
named_theorems fault_free \<open>conditional equations that a piece of code returns normally\<close>
named_theorems frame \<open>what an operation leaves unchanged\<close>

subsection \<open>Results\<close>

text \<open>
  A call returns a value, or is stuck for one of three reasons: it spins on a lock word
  that nobody else changes (\<open>Spin\<close>), it commits an invalid memory access (\<open>Fault\<close>: a NULL
  or poisoned pointer, an access outside an array, a node taken for the wrong kind of
  object), or the bound on a loop of the model has been used up (\<open>OutOfFuel\<close>).
\<close>

datatype stuck = Spin | Fault | OutOfFuel

type_synonym 'a res = "stuck + 'a"

definition bind_res :: "'a res \<Rightarrow> ('a \<Rightarrow> 'b res) \<Rightarrow> 'b res" where
  "bind_res m f = (case m of Inl e \<Rightarrow> Inl e | Inr x \<Rightarrow> f x)"

lemma bind_res_simps [simp]:
  "bind_res (Inl e) f = Inl e"
  "bind_res (Inr x) f = f x"
  by (simp_all add: bind_res_def)

lemma bind_res_Inr_iff:
  "bind_res m f = Inr y \<longleftrightarrow> (\<exists>x. m = Inr x \<and> f x = Inr y)"
  by (cases m) auto

lemma bind_res_InrE:
  assumes "bind_res m f = Inr y"
  obtains x where "m = Inr x" and "f x = Inr y"
  using assms by (cases m) auto

lemma bind_res_cong [fundef_cong]:
  "m = m' \<Longrightarrow> (\<And>x. m' = Inr x \<Longrightarrow> f x = f' x) \<Longrightarrow> bind_res m f = bind_res m' f'"
  by (cases m') auto

text \<open>For evaluation: the continuation waits for the value.\<close>

lemma bind_res_weak_cong: "m = m' \<Longrightarrow> bind_res m f = bind_res m' f"
  by simp

lemma bind_res_assoc:
  "bind_res (bind_res m f) g = bind_res m (\<lambda>x. bind_res (f x) g)"
  by (cases m) auto

subsection \<open>Loops\<close>

text \<open>
  \<open>loop_res n round s\<close> repeats \<open>round\<close> at most \<open>n\<close> times. A round returns \<open>None\<close> to go on
  and \<open>Some r\<close> to leave the loop with \<open>r\<close>.
\<close>

fun loop_res :: "nat \<Rightarrow> ('s \<Rightarrow> ('r option \<times> 's) res) \<Rightarrow> 's \<Rightarrow> ('r \<times> 's) res" where
  "loop_res 0 round s = Inl OutOfFuel"
| "loop_res (Suc n) round s =
     bind_res (round s) (\<lambda>(out, s). case out of None \<Rightarrow> loop_res n round s | Some r \<Rightarrow> Inr (r, s))"

text \<open>For evaluation with a numeral as fuel.\<close>

lemma loop_res_numeral:
  "loop_res (numeral k) round s = bind_res (round s)
     (\<lambda>(out, s). case out of None \<Rightarrow> loop_res (pred_numeral k) round s | Some r \<Rightarrow> Inr (r, s))"
  by (simp add: numeral_eq_Suc)

text \<open>More fuel does not change a result.\<close>

lemma loop_res_mono: "loop_res n round s = Inr x \<Longrightarrow> n \<le> m \<Longrightarrow> loop_res m round s = Inr x"
proof (induction n arbitrary: s m)
  case 0
  then show ?case by simp
next
  case (Suc n)
  then obtain k where m: "m = Suc k" "n \<le> k" by (cases m) auto
  from Suc.prems(1) obtain out s1 where r: "round s = Inr (out, s1)"
    and c: "(case out of None \<Rightarrow> loop_res n round s1 | Some r \<Rightarrow> Inr (r, s1)) = Inr x"
    by (auto simp: bind_res_Inr_iff)
  then show ?case using Suc.IH [OF _ m(2)] m(1) by (cases out) auto
qed

text \<open>Partial correctness: an invariant of the rounds holds when the loop is left.\<close>

lemma loop_res_invariant:
  assumes "loop_res n round s = Inr (r, s')" and "I s"
    and "\<And>s s1. I s \<Longrightarrow> round s = Inr (None, s1) \<Longrightarrow> I s1"
    and "\<And>s r s1. I s \<Longrightarrow> round s = Inr (Some r, s1) \<Longrightarrow> P r s1"
  shows "P r s'"
  using assms(1,2)
proof (induction n arbitrary: s)
  case 0
  then show ?case by simp
next
  case (Suc n)
  from Suc.prems(1) obtain out s1 where rd: "round s = Inr (out, s1)"
    and c: "(case out of None \<Rightarrow> loop_res n round s1 | Some r \<Rightarrow> Inr (r, s1)) = Inr (r, s')"
    by (auto simp: bind_res_Inr_iff)
  show ?case
  proof (cases out)
    case None
    with c rd Suc.prems(2) show ?thesis using Suc.IH [of s1] assms(3) by auto
  next
    case (Some r1)
    with c rd Suc.prems(2) show ?thesis using assms(4) by auto
  qed
qed

text \<open>Total correctness: rounds that return and lower a measure leave the loop in time.\<close>

lemma loop_res_total:
  assumes "I s" and "\<mu> s < n"
    and "\<And>s. I s \<Longrightarrow> \<exists>out s1. round s = Inr (out, s1) \<and>
      (case out of None \<Rightarrow> I s1 \<and> \<mu> s1 < (\<mu> s :: nat) | Some r \<Rightarrow> P r s1)"
  shows "\<exists>r s'. loop_res n round s = Inr (r, s') \<and> P r s'"
  using assms(1,2)
proof (induction n arbitrary: s)
  case 0
  then show ?case by simp
next
  case (Suc n)
  from assms(3) [OF Suc.prems(1)] obtain out s1 where rd: "round s = Inr (out, s1)"
    and c: "case out of None \<Rightarrow> I s1 \<and> \<mu> s1 < \<mu> s | Some r \<Rightarrow> P r s1" by blast
  show ?case
  proof (cases out)
    case None
    with c Suc.prems(2) have "I s1" "\<mu> s1 < n" by auto
    from Suc.IH [OF this] rd None show ?thesis by simp
  next
    case (Some r)
    with c rd show ?thesis by simp
  qed
qed

text \<open>A round that never leaves the loop leaves no amount of fuel enough.\<close>

lemma loop_res_diverges:
  assumes "I s" and "\<And>s. I s \<Longrightarrow> \<exists>s1. round s = Inr (None, s1) \<and> I s1"
  shows "loop_res n round s = Inl OutOfFuel"
  using assms(1)
proof (induction n arbitrary: s)
  case (Suc n)
  from assms(2) [OF Suc.prems] obtain s1 where "round s = Inr (None, s1)" "I s1" by blast
  with Suc.IH [of s1] show ?case by simp
qed simp

subsection \<open>Pointers that may be NULL\<close>

text \<open>Reading through a pointer: \<open>None\<close> stands for NULL.\<close>

definition deref :: "'a option \<Rightarrow> 'a res" where
  "deref p = (case p of None \<Rightarrow> Inl Fault | Some x \<Rightarrow> Inr x)"

lemma deref_simps [simp]: "deref None = Inl Fault" "deref (Some x) = Inr x"
  by (simp_all add: deref_def)

text \<open>Reading an array slot: an index past the end is an invalid access.\<close>

definition index_res :: "'a list \<Rightarrow> nat \<Rightarrow> 'a res" where
  "index_res xs i = (if i < length xs then Inr (xs ! i) else Inl Fault)"

lemma index_res_ok [fault_free]: "i < length xs \<Longrightarrow> index_res xs i = Inr (xs ! i)"
  by (simp add: index_res_def)

lemma index_res_fault: "length xs \<le> i \<Longrightarrow> index_res xs i = Inl Fault"
  by (simp add: index_res_def)

text \<open>Writing an array slot.\<close>

definition update_res :: "'a list \<Rightarrow> nat \<Rightarrow> 'a \<Rightarrow> 'a list res" where
  "update_res xs i x = (if i < length xs then Inr (xs[i := x]) else Inl Fault)"

lemma update_res_ok [fault_free]: "i < length xs \<Longrightarrow> update_res xs i x = Inr (xs[i := x])"
  by (simp add: update_res_def)

lemma update_res_fault: "length xs \<le> i \<Longrightarrow> update_res xs i x = Inl Fault"
  by (simp add: update_res_def)

subsection \<open>Bytes\<close>

type_synonym byte = "8 word"
type_synonym u32 = "32 word"
type_synonym u64 = "64 word"

text \<open>Little-endian encoding of the low \<open>k\<close> bytes of a number, and its inverse.\<close>

fun le_bytes :: "nat \<Rightarrow> nat \<Rightarrow> byte list" where
  "le_bytes 0 n = []"
| "le_bytes (Suc k) n = of_nat n # le_bytes k (n div 256)"

fun le_nat :: "byte list \<Rightarrow> nat" where
  "le_nat [] = 0"
| "le_nat (b # bs) = unat b + 256 * le_nat bs"

lemma length_le_bytes [simp]: "length (le_bytes k n) = k"
  by (induction k arbitrary: n) auto

lemma le_nat_le_bytes: "le_nat (le_bytes k n) = n mod 256 ^ k"
proof (induction k arbitrary: n)
  case 0
  then show ?case by simp
next
  case (Suc k)
  have "n mod 256 + 256 * (n div 256 mod 256 ^ k) = n mod (256 * 256 ^ k)"
    by (simp add: mod_mult2_eq)
  then show ?case by (simp add: Suc unat_of_nat)
qed

lemma le_nat_bound: "le_nat bs < 256 ^ length bs"
proof (induction bs)
  case Nil
  then show ?case by simp
next
  case (Cons b bs)
  have "unat b < 256" using unsigned_less [of b, where ?'a = nat] by simp
  with Cons show ?case by simp
qed

lemma le_bytes_le_nat: "length bs = k \<Longrightarrow> le_bytes k (le_nat bs) = bs"
proof (induction bs arbitrary: k)
  case Nil
  then show ?case by simp
next
  case (Cons b bs)
  have b: "unat b < 256" using unsigned_less [of b, where ?'a = nat] by simp
  then have "(unat b + 256 * le_nat bs) div 256 = le_nat bs" by simp
  moreover have "(of_nat (unat b + 256 * le_nat bs) :: byte) = b"
  proof (rule word_unat_eq_iff [THEN iffD2])
    show "unat (of_nat (unat b + 256 * le_nat bs) :: byte) = unat b"
      using b by (simp only: unat_of_nat) simp
  qed
  ultimately show ?case using Cons by auto
qed

text \<open>
  Loads and stores of a byte run in a byte array; a run that does not lie in the array
  is an invalid access.
\<close>

definition load_bytes :: "nat \<Rightarrow> nat \<Rightarrow> byte list \<Rightarrow> byte list res" where
  "load_bytes off n m = (if off + n \<le> length m then Inr (take n (drop off m)) else Inl Fault)"

definition store_bytes :: "nat \<Rightarrow> byte list \<Rightarrow> byte list \<Rightarrow> byte list res" where
  "store_bytes off bs m =
     (if off + length bs \<le> length m
      then Inr (take off m @ bs @ drop (off + length bs) m) else Inl Fault)"

lemma load_bytes_ok [fault_free]:
  "off + n \<le> length m \<Longrightarrow> load_bytes off n m = Inr (take n (drop off m))"
  by (simp add: load_bytes_def)

lemma store_bytes_ok [fault_free]:
  "off + length bs \<le> length m
    \<Longrightarrow> store_bytes off bs m = Inr (take off m @ bs @ drop (off + length bs) m)"
  by (simp add: store_bytes_def)

lemma store_bytes_length: "store_bytes off bs m = Inr m' \<Longrightarrow> length m' = length m"
  by (auto simp: store_bytes_def split: if_splits)

lemma load_store_same:
  "store_bytes off bs m = Inr m' \<Longrightarrow> load_bytes off (length bs) m' = Inr bs"
  by (auto simp: store_bytes_def load_bytes_def split: if_splits)

lemma load_store_disjoint:
  assumes "store_bytes off bs m = Inr m'" and "o2 + n \<le> off \<or> off + length bs \<le> o2"
  shows "load_bytes o2 n m' = load_bytes o2 n m"
proof -
  from assms(1) have le: "off + length bs \<le> length m"
    and m': "m' = take off m @ bs @ drop (off + length bs) m"
    by (auto simp: store_bytes_def split: if_splits)
  have len: "length m' = length m" using le m' by simp
  show ?thesis
  proof (cases "o2 + n \<le> off")
    case True
    then have "take n (drop o2 (take off m)) = take n (drop o2 m)"
      by (simp add: take_drop min_def)
    with True le show ?thesis by (simp add: load_bytes_def len m')
  next
    case False
    with assms(2) have "off + length bs \<le> o2" by simp
    then have "drop o2 m' = drop o2 m" using le by (simp add: m')
    then show ?thesis by (simp add: load_bytes_def len)
  qed
qed

lemma unat_ucast_u32: "unat (ucast (b :: u32) :: u64) = unat b"
  by (simp add: unsigned_ucast_eq take_bit_nat_eq_self_iff)
    (rule order_less_trans [OF unsigned_less], simp)

text \<open>Numbers of objects that 64-bit counters count exactly.\<close>

lemma unat_count:
  assumes "n < 2 ^ 33"
  shows "unat (of_nat n :: u64) = n"
proof -
  have "(2 :: nat) ^ 33 < 2 ^ LENGTH(64)" by (rule power_strict_increasing) simp_all
  with assms have "n < 2 ^ LENGTH(64)" by (rule order_less_trans)
  then have "n mod 2 ^ LENGTH(64) = n" by (rule mod_less)
  then show ?thesis by (simp only: unat_of_nat)
qed

lemma below_33: "n \<le> m \<Longrightarrow> m < 2 ^ 32 \<Longrightarrow> n < (2 :: nat) ^ 33"
proof -
  assume "n \<le> m" "m < 2 ^ 32"
  moreover have "(2 :: nat) ^ 32 < 2 ^ 33" by (rule power_strict_increasing) simp_all
  ultimately show ?thesis by linarith
qed

lemma count_zero:
  assumes "n < 2 ^ 33"
  shows "(of_nat n :: u64) = 0 \<longleftrightarrow> n = 0"
proof
  assume "(of_nat n :: u64) = 0"
  then have "unat (of_nat n :: u64) = 0" by (simp only: unat_0)
  then show "n = 0" by (simp only: unat_count [OF assms])
qed simp

subsection \<open>Options and lists\<close>

lemma option_eqI: "(\<And>x. p = Some x \<longleftrightarrow> q = Some x) \<Longrightarrow> p = q"
  by (cases p; cases q) auto

lemma filter_ne_distinct_tl:
  "distinct (x # xs) \<Longrightarrow> filter (\<lambda>y. y \<noteq> x) xs = xs"
  by (auto intro: filter_True)

lemma last_notin_butlast: "distinct xs \<Longrightarrow> xs \<noteq> [] \<Longrightarrow> last xs \<notin> set (butlast xs)"
  by (metis append_butlast_last_id distinct_butlast not_distinct_conv_prefix)

end
