(* ===== verification/Lock.thy ===== *)
theory Lock
  imports Prelude
begin

section \<open>The spin lock (include/lock.h)\<close>

text \<open>
  A lock is one 32-bit word. The functions below are the code's operations on the word
  as one thread runs them with no other thread in between; the second half of the theory
  is the same code as a step relation over any number of threads, where the test of the
  word and the compare-and-swap are separate steps.
\<close>

type_synonym lock_t = u32

definition MUTEX_INIT :: lock_t where
  "MUTEX_INIT = 0"

text \<open>The compiler's \<open>__sync_bool_compare_and_swap\<close>: success, and the word afterwards.\<close>

definition cas :: "lock_t \<Rightarrow> u32 \<Rightarrow> u32 \<Rightarrow> bool \<times> lock_t" where
  "cas w old new = (if w = old then (True, new) else (False, w))"

definition trylock :: "lock_t \<Rightarrow> int \<times> lock_t" where
  "trylock w =
     (if w = 0 then
        (case cas w 0 1 of (ok, w') \<Rightarrow> if ok then (1, w') else (0, w'))
      else (0, w))"

definition unlock :: "lock_t \<Rightarrow> lock_t" where
  "unlock w = 0"

definition lock_init :: "lock_t \<Rightarrow> lock_t" where
  "lock_init w = unlock w"

text \<open>
  \<open>lock\<close>: a \<open>for\<close> loop of 10000 attempts inside an endless loop. Run alone, the word only
  changes by the thread's own swap; the outer loop gets fuel, and running out of it is
  \<open>Spin\<close>. One round decides (\<open>lock_fuel_eq\<close>), so \<open>lock\<close> uses one.
\<close>

fun lock_round :: "nat \<Rightarrow> lock_t \<Rightarrow> lock_t option" where
  "lock_round 0 w = None"
| "lock_round (Suc i) w =
     (if w = 0 then
        (case cas w 0 1 of (ok, w') \<Rightarrow> if ok then Some w' else lock_round i w')
      else lock_round i w)"

fun lock_fuel :: "nat \<Rightarrow> lock_t \<Rightarrow> lock_t res" where
  "lock_fuel 0 w = Inl Spin"
| "lock_fuel (Suc n) w =
     (case lock_round 10000 w of Some w' \<Rightarrow> Inr w' | None \<Rightarrow> lock_fuel n w)"

definition lock :: "lock_t \<Rightarrow> lock_t res" where
  "lock w = lock_fuel 1 w"

lemma lock_round_eq: "lock_round n w = (if w = 0 \<and> 0 < n then Some 1 else None)"
  by (induction n) (auto simp: cas_def)

lemma lock_fuel_eq: "0 < n \<Longrightarrow> lock_fuel n w = (if w = 0 then Inr 1 else Inl Spin)"
proof (induction n)
  case (Suc n)
  then show ?case by (cases "w = 0"; cases n) (simp_all add: lock_round_eq)
qed simp

lemma lock_eq: "lock w = (if w = 0 then Inr 1 else Inl Spin)"
  by (simp only: lock_def lock_fuel_eq)

lemma lock_free [fault_free]: "w = 0 \<Longrightarrow> lock w = Inr 1"
  by (simp add: lock_eq)

lemma trylock_eq: "trylock w = (if w = 0 then (1, 1) else (0, w))"
  by (simp add: trylock_def cas_def)

lemma unlock_zero [simp]: "unlock w = 0"
  by (simp add: unlock_def)

lemma lock_init_zero [simp]: "lock_init w = 0"
  by (simp add: lock_init_def)

subsection \<open>Any number of threads\<close>

text \<open>
  Where a thread is in \<open>lock\<close>, \<open>trylock\<close> or \<open>unlock\<close>. \<open>Blocking i\<close> is round \<open>i\<close> of the
  \<open>for\<close> loop of \<open>lock\<close>, \<open>Trying\<close> the single attempt of \<open>trylock\<close>.
\<close>

datatype attempt = Blocking nat | Trying

datatype lock_pc = Outside | Testing attempt | Swapping attempt | Inside

text \<open>After a failed attempt: the next round, a new run of the \<open>for\<close> loop, or giving up.\<close>

fun retry :: "attempt \<Rightarrow> lock_pc" where
  "retry (Blocking i) = Testing (Blocking (if Suc i < 10000 then Suc i else 0))"
| "retry Trying = Outside"

record lock_sys =
  lock_word :: lock_t
  lock_pcs :: "nat \<Rightarrow> lock_pc"

abbreviation move :: "lock_sys \<Rightarrow> nat \<Rightarrow> lock_pc \<Rightarrow> lock_sys" where
  "move s t p \<equiv> s\<lparr>lock_pcs := (lock_pcs s)(t := p)\<rparr>"

inductive lock_step :: "lock_sys \<Rightarrow> lock_sys \<Rightarrow> bool" where
  call_lock: "lock_pcs s t = Outside \<Longrightarrow> lock_step s (move s t (Testing (Blocking 0)))"
| call_trylock: "lock_pcs s t = Outside \<Longrightarrow> lock_step s (move s t (Testing Trying))"
| test_free: "lock_pcs s t = Testing a \<Longrightarrow> lock_word s = 0 \<Longrightarrow>
     lock_step s (move s t (Swapping a))"
| test_busy: "lock_pcs s t = Testing a \<Longrightarrow> lock_word s \<noteq> 0 \<Longrightarrow>
     lock_step s (move s t (retry a))"
| swap_ok: "lock_pcs s t = Swapping a \<Longrightarrow> cas (lock_word s) 0 1 = (True, w) \<Longrightarrow>
     lock_step s (move (s\<lparr>lock_word := w\<rparr>) t Inside)"
| swap_fail: "lock_pcs s t = Swapping a \<Longrightarrow> cas (lock_word s) 0 1 = (False, w) \<Longrightarrow>
     lock_step s (move (s\<lparr>lock_word := w\<rparr>) t (retry a))"
| call_unlock: "lock_pcs s t = Inside \<Longrightarrow>
     lock_step s (move (s\<lparr>lock_word := unlock (lock_word s)\<rparr>) t Outside)"

definition lock_start :: lock_sys where
  "lock_start = \<lparr>lock_word = MUTEX_INIT, lock_pcs = (\<lambda>_. Outside)\<rparr>"

inductive lock_reach :: "lock_sys \<Rightarrow> bool" where
  start: "lock_reach lock_start"
| step: "lock_reach s \<Longrightarrow> lock_step s s' \<Longrightarrow> lock_reach s'"

text \<open>The word is 1 exactly while one thread is inside, and 0 while none is.\<close>

definition lock_inv :: "lock_sys \<Rightarrow> bool" where
  "lock_inv s \<longleftrightarrow>
     (if lock_word s = 0 then \<forall>t. lock_pcs s t \<noteq> Inside
      else lock_word s = 1 \<and> (\<exists>!t. lock_pcs s t = Inside))"

lemma retry_outside [simp]: "retry a \<noteq> Inside"
  by (cases a) auto

lemma lock_inv_start: "lock_inv lock_start"
  by (simp add: lock_inv_def lock_start_def MUTEX_INIT_def)

lemma lock_inv_move_outside:
  assumes "lock_inv s" and "lock_pcs s t \<noteq> Inside" and "p \<noteq> Inside"
  shows "lock_inv (move s t p)"
proof -
  have "\<And>u. (((lock_pcs s)(t := p)) u = Inside) = (lock_pcs s u = Inside)"
    using assms(2,3) by simp
  with assms(1) show ?thesis unfolding lock_inv_def by simp
qed

lemma lock_step_inv: "lock_step s s' \<Longrightarrow> lock_inv s \<Longrightarrow> lock_inv s'"
proof (induction rule: lock_step.induct)
  case (swap_ok s t a w)
  then show ?case by (auto simp: lock_inv_def cas_def split: if_splits)
next
  case (swap_fail s t a w)
  then have "w = lock_word s" by (simp add: cas_def split: if_splits)
  then show ?case using swap_fail lock_inv_move_outside [of s t "retry a"] by simp
next
  case (call_unlock s t)
  then show ?case by (auto simp: lock_inv_def split: if_splits)
qed (simp_all add: lock_inv_move_outside)

lemma lock_reach_inv: "lock_reach s \<Longrightarrow> lock_inv s"
  by (induction rule: lock_reach.induct) (auto intro: lock_inv_start lock_step_inv)

text \<open>C13 (safety): in every interleaving of \<open>lock\<close>, \<open>trylock\<close> and \<open>unlock\<close> by any number
  of threads, started on an initialised lock word, two threads are never both between a
  successful acquisition and the release; and the word is 0 exactly when no thread is.\<close>

theorem lock_mutual_exclusion:
  assumes "lock_reach s"
  shows "(lock_pcs s t = Inside \<longrightarrow> lock_pcs s u = Inside \<longrightarrow> t = u)
    \<and> (lock_word s = 0 \<longleftrightarrow> (\<forall>t. lock_pcs s t \<noteq> Inside))"
  using lock_reach_inv [OF assms] by (auto simp: lock_inv_def split: if_splits)

lemma lock_reach_example:
  "lock_reach (move (lock_start\<lparr>lock_word := 1\<rparr>) 7 Inside)"
proof -
  have 1: "lock_reach (move lock_start 7 (Testing (Blocking 0)))"
    by (rule lock_reach.step [OF lock_reach.start]) (rule call_lock, simp add: lock_start_def)
  have "lock_step (move lock_start 7 (Testing (Blocking 0)))
      (move (move lock_start 7 (Testing (Blocking 0))) 7 (Swapping (Blocking 0)))"
    by (rule test_free) (simp_all add: lock_start_def MUTEX_INIT_def)
  from lock_reach.step [OF 1 this]
  have 2: "lock_reach (move lock_start 7 (Swapping (Blocking 0)))" by simp
  have "lock_step (move lock_start 7 (Swapping (Blocking 0)))
      (move (move lock_start 7 (Swapping (Blocking 0))\<lparr>lock_word := 1\<rparr>) 7 Inside)"
    by (rule swap_ok) (simp_all add: lock_start_def MUTEX_INIT_def cas_def)
  from lock_reach.step [OF 2 this] show ?thesis by simp
qed

theorem lock_mutual_exclusion_witness:
  "let s = move (lock_start\<lparr>lock_word := 1\<rparr>) 7 Inside in
     lock_pcs s 7 = Inside \<and> lock_word s \<noteq> 0 \<and> lock_pcs s 3 \<noteq> Inside"
  using lock_mutual_exclusion [OF lock_reach_example, of 7 3]
  by (auto simp: Let_def)

end
