(* ===== verification/Queue.thy ===== *)
theory Queue
  imports Lock
begin

section \<open>The divider queue (include/queue.h)\<close>

text \<open>
  The queue is a singly linked list of \<open>queue_head\<close> nodes embedded in other objects, with
  a head pointer, a tail pointer, a lock for each, and one node of its own, the divider,
  that keeps the list from ever being empty. The model keeps the pointers: a heap maps
  every node to the contents of its \<open>next\<close> field and every queue root to its fields. A
  node's address says which object it is embedded in, so that \<open>container_of\<close> is a case
  distinction. The functions of this theory run with no other thread in between
  (theory \<open>Queue_Conc\<close> interleaves them).
\<close>

subsection \<open>Nodes, links, roots\<close>

text \<open>
  A root is allocated by \<open>alloc_queue_root\<close> (\<open>RHeap\<close>), or is the \<open>send_queue\<close> member of a
  connection (\<open>RSend\<close>). A node is the divider of a root, the \<open>q\<close> member of a buffer or the
  \<open>q\<close> member of a connection.
\<close>

datatype root_id = RHeap nat | RSend nat

datatype node = Divider root_id | BufQ nat | ConnQ nat

text \<open>A value of type \<open>struct queue_head *\<close>; \<open>Poison\<close> is \<open>QUEUE_POISON1\<close>.\<close>

datatype link = Null | Poison | Ptr node

record queue_root =
  head :: link
  head_lock :: lock_t
  tail :: link
  tail_lock :: lock_t

record qheap =
  next_of :: "node \<Rightarrow> link"
  root_of :: "root_id \<Rightarrow> queue_root option"

fun is_divider :: "node \<Rightarrow> bool" where
  "is_divider (Divider r) = True"
| "is_divider (BufQ b) = False"
| "is_divider (ConnQ c) = False"

subsection \<open>Memory accesses\<close>

definition the_root :: "root_id \<Rightarrow> qheap \<Rightarrow> queue_root res" where
  "the_root r h = deref (root_of h r)"

definition set_root :: "root_id \<Rightarrow> queue_root \<Rightarrow> qheap \<Rightarrow> qheap" where
  "set_root r q h = h\<lparr>root_of := (root_of h)(r \<mapsto> q)\<rparr>"

fun load_next :: "link \<Rightarrow> qheap \<Rightarrow> link res" where
  "load_next (Ptr n) h = Inr (next_of h n)"
| "load_next Null h = Inl Fault"
| "load_next Poison h = Inl Fault"

fun store_next :: "link \<Rightarrow> link \<Rightarrow> qheap \<Rightarrow> qheap res" where
  "store_next (Ptr n) l h = Inr (h\<lparr>next_of := (next_of h)(n := l)\<rparr>)"
| "store_next Null l h = Inl Fault"
| "store_next Poison l h = Inl Fault"

definition lock_head :: "root_id \<Rightarrow> qheap \<Rightarrow> qheap res" where
  "lock_head r h = bind_res (the_root r h) (\<lambda>q.
     bind_res (lock (head_lock q)) (\<lambda>w. Inr (set_root r (q\<lparr>head_lock := w\<rparr>) h)))"

definition unlock_head :: "root_id \<Rightarrow> qheap \<Rightarrow> qheap res" where
  "unlock_head r h = bind_res (the_root r h) (\<lambda>q.
     Inr (set_root r (q\<lparr>head_lock := unlock (head_lock q)\<rparr>) h))"

definition lock_tail :: "root_id \<Rightarrow> qheap \<Rightarrow> qheap res" where
  "lock_tail r h = bind_res (the_root r h) (\<lambda>q.
     bind_res (lock (tail_lock q)) (\<lambda>w. Inr (set_root r (q\<lparr>tail_lock := w\<rparr>) h)))"

definition unlock_tail :: "root_id \<Rightarrow> qheap \<Rightarrow> qheap res" where
  "unlock_tail r h = bind_res (the_root r h) (\<lambda>q.
     Inr (set_root r (q\<lparr>tail_lock := unlock (tail_lock q)\<rparr>) h))"

subsection \<open>The operations\<close>

text \<open>
  \<open>init_queue_root\<close> overwrites every field of the root, whatever it held before.
\<close>

definition init_queue_root :: "root_id \<Rightarrow> qheap \<Rightarrow> qheap" where
  "init_queue_root r h =
     h\<lparr>next_of := (next_of h)(Divider r := Null),
       root_of := (root_of h)(r \<mapsto>
         \<lparr>head = Ptr (Divider r), head_lock = lock_init 0,
          tail = Ptr (Divider r), tail_lock = lock_init 0\<rparr>)\<rparr>"

text \<open>
  The argument is what \<open>malloc\<close> returned; the code initialises it without a check.
\<close>

definition alloc_queue_root :: "root_id option \<Rightarrow> qheap \<Rightarrow> (root_id option \<times> qheap) res" where
  "alloc_queue_root mem h =
     bind_res (deref mem) (\<lambda>r. Inr (Some r, init_queue_root r h))"

definition queue_head_init :: "link \<Rightarrow> qheap \<Rightarrow> qheap res" where
  "queue_head_init l h = store_next l Poison h"

definition queue_put :: "link \<Rightarrow> root_id \<Rightarrow> qheap \<Rightarrow> qheap res" where
  "queue_put new' r h =
     bind_res (queue_head_init new' h) (\<lambda>h.
     bind_res (store_next new' Null h) (\<lambda>h.
     bind_res (lock_tail r h) (\<lambda>h.
     bind_res (the_root r h) (\<lambda>q.
     bind_res (store_next (tail q) new' h) (\<lambda>h.
     unlock_tail r (set_root r (q\<lparr>tail := new'\<rparr>) h))))))"

text \<open>
  \<open>queue_get\<close> is an endless loop that is left by both of its returns and repeated only
  after the divider was moved to the tail. One round returns the link the function returns,
  or \<open>None\<close> for \<open>continue\<close>. The loop gets fuel; on a well-formed queue two rounds decide
  (\<open>queue_get_loop_law\<close>), which is what \<open>queue_get\<close> allows for.
\<close>

definition queue_get_round :: "root_id \<Rightarrow> qheap \<Rightarrow> (link option \<times> qheap) res" where
  "queue_get_round r h =
     bind_res (lock_head r h) (\<lambda>h.
     bind_res (the_root r h) (\<lambda>q.
     bind_res (load_next (head q) h) (\<lambda>nxt.
       if nxt = Null then bind_res (unlock_head r h) (\<lambda>h. Inr (Some Null, h))
       else
         bind_res (unlock_head r (set_root r (q\<lparr>head := nxt\<rparr>) h)) (\<lambda>h.
           if head q = Ptr (Divider r)
           then bind_res (queue_put (head q) r h) (\<lambda>h. Inr (None, h))
           else bind_res (store_next (head q) Poison h) (\<lambda>h. Inr (Some (head q), h))))))"

fun queue_get_loop :: "nat \<Rightarrow> root_id \<Rightarrow> qheap \<Rightarrow> (link \<times> qheap) res" where
  "queue_get_loop 0 r h = Inl OutOfFuel"
| "queue_get_loop (Suc n) r h =
     bind_res (queue_get_round r h) (\<lambda>(out, h).
       case out of None \<Rightarrow> queue_get_loop n r h | Some l \<Rightarrow> Inr (l, h))"

definition queue_get :: "root_id \<Rightarrow> qheap \<Rightarrow> (link \<times> qheap) res" where
  "queue_get r h = queue_get_loop 2 r h"

text \<open>\<open>container_of\<close> for the two kinds of objects that are queued.\<close>

fun container_of_buffer :: "link \<Rightarrow> nat res" where
  "container_of_buffer (Ptr (BufQ b)) = Inr b"
| "container_of_buffer _ = Inl Fault"

fun container_of_connection :: "link \<Rightarrow> nat res" where
  "container_of_connection (Ptr (ConnQ c)) = Inr c"
| "container_of_connection _ = Inl Fault"

subsection \<open>What the operations do to the pointers\<close>

lemma root_lock_unlock [simp]:
  "head_lock q = 0 \<Longrightarrow> q\<lparr>head_lock := 0\<rparr> = q"
  "tail_lock q = 0 \<Longrightarrow> q\<lparr>tail_lock := 0\<rparr> = q"
  by (cases q; simp)+

lemmas heap_access_defs =
  queue_get_round_def the_root_def set_root_def lock_head_def unlock_head_def lock_tail_def unlock_tail_def
  queue_head_init_def

lemma queue_put_eq:
  assumes "root_of h r = Some q" and "tail q = Ptr t" and "tail_lock q = 0"
  shows "queue_put (Ptr n) r h =
    Inr (h\<lparr>next_of := (next_of h)(n := Null, t := Ptr n),
           root_of := (root_of h)(r \<mapsto> q\<lparr>tail := Ptr n\<rparr>)\<rparr>)"
  using assms by (cases q) (simp add: queue_put_def heap_access_defs lock_eq)

lemma queue_get_round_empty:
  assumes "root_of h r = Some q" and "head q = Ptr a" and "head_lock q = 0"
    and "next_of h a = Null"
  shows "queue_get_loop (Suc n) r h = Inr (Null, h)"
  using assms by (cases h; cases q) (simp add: heap_access_defs lock_eq fun_upd_idem)

lemma queue_get_round_node:
  assumes "root_of h r = Some q" and "head q = Ptr a" and "head_lock q = 0"
    and "next_of h a = l" and "l \<noteq> Null" and "a \<noteq> Divider r"
  shows "queue_get_loop (Suc n) r h =
    Inr (Ptr a, h\<lparr>next_of := (next_of h)(a := Poison),
                   root_of := (root_of h)(r \<mapsto> q\<lparr>head := l\<rparr>)\<rparr>)"
  using assms by (cases h; cases q) (simp add: heap_access_defs lock_eq)

lemma queue_get_round_divider:
  assumes "root_of h r = Some q" and "head q = Ptr (Divider r)" and "head_lock q = 0"
    and "tail q = Ptr t" and "tail_lock q = 0"
    and "next_of h (Divider r) = l" and "l \<noteq> Null"
  shows "queue_get_loop (Suc n) r h =
    queue_get_loop n r
      (h\<lparr>next_of := (next_of h)(Divider r := Null, t := Ptr (Divider r)),
         root_of := (root_of h)(r \<mapsto> q\<lparr>head := l, tail := Ptr (Divider r)\<rparr>)\<rparr>)"
  using assms
  by (cases h; cases q) (simp add: heap_access_defs lock_eq queue_put_def)

declare queue_get_loop.simps [simp del]

subsection \<open>Chains\<close>

text \<open>\<open>chain nx ys\<close>: the nodes \<open>ys\<close> are linked in this order and the last has no successor.\<close>

fun chain :: "(node \<Rightarrow> link) \<Rightarrow> node list \<Rightarrow> bool" where
  "chain nx [] = False"
| "chain nx [a] = (nx a = Null)"
| "chain nx (a # b # ys) = (nx a = Ptr b \<and> chain nx (b # ys))"

lemma chain_ne: "chain nx ys \<Longrightarrow> ys \<noteq> []"
  by auto

lemma chain_upd [simp]: "n \<notin> set ys \<Longrightarrow> chain (nx(n := l)) ys = chain nx ys"
  by (induction nx ys rule: chain.induct) auto

lemma chain_snoc:
  "chain nx ys \<Longrightarrow> distinct ys \<Longrightarrow> n \<notin> set ys
    \<Longrightarrow> chain (nx(n := Null, last ys := Ptr n)) (ys @ [n])"
proof (induction nx ys rule: chain.induct)
  case (3 nx a b ys)
  define nx' where "nx' = nx(n := Null, last (b # ys) := Ptr n)"
  have "chain nx' ((b # ys) @ [n])"
    unfolding nx'_def using "3.prems" by (intro "3.IH") auto
  moreover have "nx' a = Ptr b"
    using "3.prems" last_in_set [of "b # ys"] by (auto simp: nx'_def)
  ultimately have "chain nx' ((a # b # ys) @ [n])" by simp
  then show ?case by (simp only: nx'_def last.simps list.simps if_False)
qed auto

lemma chain_head_next:
  "chain nx (a # ys) \<Longrightarrow> nx a = (case ys of [] \<Rightarrow> Null | b # _ \<Rightarrow> Ptr b)"
  by (cases ys) auto

lemma chain_tl: "chain nx (a # b # ys) \<Longrightarrow> chain nx (b # ys)"
  by simp

subsection \<open>Well-formed queues and their contents\<close>

definition contents :: "node list \<Rightarrow> node list" where
  "contents ys = filter (\<lambda>n. \<not> is_divider n) ys"

text \<open>
  \<open>root_rep h r ys\<close>: root \<open>r\<close> is allocated and unlocked, its nodes in order are \<open>ys\<close>, and
  the only divider among them is its own.
\<close>

definition root_rep :: "qheap \<Rightarrow> root_id \<Rightarrow> node list \<Rightarrow> bool" where
  "root_rep h r ys \<longleftrightarrow>
     (\<exists>q. root_of h r = Some q \<and> head q = Ptr (hd ys) \<and> tail q = Ptr (last ys)
        \<and> head_lock q = 0 \<and> tail_lock q = 0)
     \<and> chain (next_of h) ys \<and> distinct ys \<and> (\<forall>r'. Divider r' \<in> set ys \<longleftrightarrow> r' = r)"

text \<open>
  \<open>qrep h Q\<close>: the heap holds a well-formed queue for every root in the domain of \<open>Q\<close>, with
  the contents \<open>Q\<close> gives, and no node is in two of them.
\<close>

definition queues_at ::
  "qheap \<Rightarrow> (root_id \<rightharpoonup> node list) \<Rightarrow> (root_id \<Rightarrow> node list) \<Rightarrow> bool" where
  "queues_at h Q Y \<longleftrightarrow>
     (\<forall>r ns. Q r = Some ns \<longrightarrow> root_rep h r (Y r) \<and> contents (Y r) = ns)
     \<and> (\<forall>r r' n. r \<in> dom Q \<longrightarrow> r' \<in> dom Q \<longrightarrow> n \<in> set (Y r) \<longrightarrow> n \<in> set (Y r') \<longrightarrow> r = r')"

definition qrep :: "qheap \<Rightarrow> (root_id \<rightharpoonup> node list) \<Rightarrow> bool" where
  "qrep h Q \<longleftrightarrow> (\<exists>Y. queues_at h Q Y)"

text \<open>A node that may be put: not a divider, and in no queue.\<close>

definition unqueued :: "node \<Rightarrow> (root_id \<rightharpoonup> node list) \<Rightarrow> bool" where
  "unqueued n Q \<longleftrightarrow> \<not> is_divider n \<and> (\<forall>r ns. Q r = Some ns \<longrightarrow> n \<notin> set ns)"

lemma is_divider_iff: "is_divider n \<longleftrightarrow> (\<exists>r. n = Divider r)"
  by (cases n) auto

lemma contents_simps [simp]:
  "contents [] = []"
  "contents (n # ns) = (if is_divider n then contents ns else n # contents ns)"
  "contents (ns @ ms) = contents ns @ contents ms"
  "set (contents ns) = {n \<in> set ns. \<not> is_divider n}"
  by (auto simp: contents_def)

lemma contents_Nil_root_rep:
  assumes "root_rep h r ys" and "contents ys = []"
  shows "ys = [Divider r]"
proof -
  from assms(2) have "\<forall>n \<in> set ys. is_divider n" by (simp add: contents_def filter_empty_conv)
  with assms(1) have "\<forall>n \<in> set ys. n = Divider r"
    by (auto simp: root_rep_def is_divider_iff)
  moreover have "distinct ys" "ys \<noteq> []" using assms(1) by (auto simp: root_rep_def)
  ultimately show ?thesis
    by (cases ys; cases "tl ys") auto
qed

lemma root_rep_frame:
  assumes "root_rep h r ys" and "root_of h' r = root_of h r"
    and "\<And>n. n \<in> set ys \<Longrightarrow> next_of h' n = next_of h n"
  shows "root_rep h' r ys"
proof -
  have "chain nx' ys = chain nx ys" if "\<And>n. n \<in> set ys \<Longrightarrow> nx' n = nx n" for nx nx'
    using that by (induction nx ys rule: chain.induct) auto
  from this [of "next_of h'" "next_of h"] assms show ?thesis
    by (simp add: root_rep_def)
qed

lemma queues_atD:
  assumes "queues_at h Q Y"
  shows "Q r = Some ns \<Longrightarrow> root_rep h r (Y r)"
    and "Q r = Some ns \<Longrightarrow> contents (Y r) = ns"
    and "r \<in> dom Q \<Longrightarrow> r' \<in> dom Q \<Longrightarrow> n \<in> set (Y r) \<Longrightarrow> n \<in> set (Y r') \<Longrightarrow> r = r'"
  using assms unfolding queues_at_def by blast+

text \<open>
  The one step behind every law: root \<open>r\<close> gets the node list \<open>ys'\<close>, and the heap changes
  only at \<open>r\<close> and at nodes that no other queue holds.
\<close>

lemma queues_at_update:
  assumes Y: "queues_at h Q Y"
    and new: "root_rep h' r ys'" "contents ys' = ns'"
    and frame: "\<And>r' n. r' \<in> dom Q \<Longrightarrow> r' \<noteq> r \<Longrightarrow> n \<in> set (Y r')
                  \<Longrightarrow> next_of h' n = next_of h n \<and> n \<notin> set ys'"
    and roots: "\<And>r'. r' \<noteq> r \<Longrightarrow> root_of h' r' = root_of h r'"
  shows "queues_at h' (Q(r \<mapsto> ns')) (Y(r := ys'))"
  unfolding queues_at_def
proof (intro conjI allI impI)
  fix r1 ns1 assume Q1: "(Q(r \<mapsto> ns')) r1 = Some ns1"
  show "root_rep h' r1 ((Y(r := ys')) r1)"
  proof (cases "r1 = r")
    case True
    with new show ?thesis by simp
  next
    case False
    with Q1 have "Q r1 = Some ns1" by simp
    then have "root_rep h' r1 (Y r1)"
      using False roots frame by (intro root_rep_frame [OF queues_atD(1) [OF Y]]) auto
    with False show ?thesis by simp
  qed
  show "contents ((Y(r := ys')) r1) = ns1"
    using Q1 new queues_atD(2) [OF Y] by (cases "r1 = r") auto
next
  fix r1 r2 n
  assume "r1 \<in> dom (Q(r \<mapsto> ns'))" "r2 \<in> dom (Q(r \<mapsto> ns'))"
    and "n \<in> set ((Y(r := ys')) r1)" "n \<in> set ((Y(r := ys')) r2)"
  then show "r1 = r2"
    using frame queues_atD(3) [OF Y] by (cases "r1 = r"; cases "r2 = r") auto
qed

subsection \<open>The laws\<close>

lemma queue_init_law:
  assumes "qrep h Q"
  shows "qrep (init_queue_root r h) (Q(r \<mapsto> []))"
proof -
  from assms obtain Y where Y: "queues_at h Q Y" by (auto simp: qrep_def)
  have other: "Divider r \<notin> set (Y r')" if "r' \<in> dom Q" "r' \<noteq> r" for r'
    using that queues_atD(1) [OF Y] by (auto simp: root_rep_def)
  have "queues_at (init_queue_root r h) (Q(r \<mapsto> [])) (Y(r := [Divider r]))"
  proof (rule queues_at_update [OF Y])
    show "root_rep (init_queue_root r h) r [Divider r]"
      by (auto simp: root_rep_def init_queue_root_def)
    show "\<And>r' n. r' \<in> dom Q \<Longrightarrow> r' \<noteq> r \<Longrightarrow> n \<in> set (Y r') \<Longrightarrow>
        next_of (init_queue_root r h) n = next_of h n \<and> n \<notin> set [Divider r]"
      using other by (auto simp: init_queue_root_def)
  qed (auto simp: init_queue_root_def)
  then show ?thesis by (auto simp: qrep_def)
qed

lemma root_rep_put:
  assumes "root_rep h r ys" and "n \<notin> set ys" and "\<forall>r'. n = Divider r' \<longrightarrow> False"
  shows "\<exists>h'. queue_put (Ptr n) r h = Inr h' \<and> root_rep h' r (ys @ [n])
    \<and> (\<forall>m. m \<notin> set (ys @ [n]) \<longrightarrow> next_of h' m = next_of h m)
    \<and> (\<forall>r'. r' \<noteq> r \<longrightarrow> root_of h' r' = root_of h r')"
proof -
  from assms(1) obtain q where q: "root_of h r = Some q" "head q = Ptr (hd ys)"
    "tail q = Ptr (last ys)" "head_lock q = 0" "tail_lock q = 0"
    and ys: "chain (next_of h) ys" "distinct ys" "\<forall>r'. Divider r' \<in> set ys \<longleftrightarrow> r' = r"
    by (auto simp: root_rep_def)
  have ne: "ys \<noteq> []" using ys(1) by auto
  let ?h = "h\<lparr>next_of := (next_of h)(n := Null, last ys := Ptr n),
              root_of := (root_of h)(r \<mapsto> q\<lparr>tail := Ptr n\<rparr>)\<rparr>"
  have "root_rep ?h r (ys @ [n])"
    using q ys assms(2,3) ne chain_snoc [OF ys(1,2) assms(2)]
    by (auto simp: root_rep_def)
  moreover have "\<forall>m. m \<notin> set (ys @ [n]) \<longrightarrow> next_of ?h m = next_of h m"
    using ne by auto
  ultimately show ?thesis using queue_put_eq [OF q(1,3,5), of n] by auto
qed

lemma queue_put_law:
  assumes "qrep h Q" and Qr: "Q r = Some ns" and n: "unqueued n Q"
  shows "\<exists>h'. queue_put (Ptr n) r h = Inr h' \<and> qrep h' (Q(r \<mapsto> ns @ [n]))"
proof -
  from assms(1) obtain Y where Y: "queues_at h Q Y" by (auto simp: qrep_def)
  have notin: "n \<notin> set (Y r')" if "r' \<in> dom Q" for r'
    using that queues_atD(2) [OF Y] n by (fastforce simp: unqueued_def)
  have nd: "\<forall>r'. n = Divider r' \<longrightarrow> False" using n by (auto simp: unqueued_def)
  have rd: "r \<in> dom Q" using Qr by auto
  from root_rep_put [OF queues_atD(1) [OF Y Qr] notin [OF rd] nd]
  obtain h' where h': "queue_put (Ptr n) r h = Inr h'" "root_rep h' r (Y r @ [n])"
    "\<And>m. m \<notin> set (Y r @ [n]) \<Longrightarrow> next_of h' m = next_of h m"
    "\<And>r'. r' \<noteq> r \<Longrightarrow> root_of h' r' = root_of h r'"
    by blast
  have "queues_at h' (Q(r \<mapsto> ns @ [n])) (Y(r := Y r @ [n]))"
  proof (rule queues_at_update [OF Y h'(2)])
    show "contents (Y r @ [n]) = ns @ [n]"
      using queues_atD(2) [OF Y Qr] n by (simp add: unqueued_def)
    show "next_of h' m = next_of h m \<and> m \<notin> set (Y r @ [n])"
      if "r' \<in> dom Q" "r' \<noteq> r" "m \<in> set (Y r')" for r' m
    proof -
      have "m \<notin> set (Y r @ [n])"
        using that notin [of r'] queues_atD(3) [OF Y, of r' r m] rd by auto
      then show ?thesis using h'(3) by simp
    qed
  qed (rule h'(4))
  with h'(1) show ?thesis by (auto simp: qrep_def)
qed

lemma root_rep_get_node:
  assumes "root_rep h r (a # b # ys)" and "\<not> is_divider a"
  shows "\<exists>h'. (\<forall>k. queue_get_loop (Suc k) r h = Inr (Ptr a, h')) \<and> root_rep h' r (b # ys)
    \<and> next_of h' a = Poison \<and> (\<forall>m. m \<noteq> a \<longrightarrow> next_of h' m = next_of h m)
    \<and> (\<forall>r'. r' \<noteq> r \<longrightarrow> root_of h' r' = root_of h r')"
proof -
  from assms(1) obtain q where q: "root_of h r = Some q" "head q = Ptr a"
    "tail q = Ptr (last (b # ys))" "head_lock q = 0" "tail_lock q = 0"
    and ys: "next_of h a = Ptr b" "chain (next_of h) (b # ys)" "a \<notin> set (b # ys)"
      "distinct (b # ys)" "\<forall>r'. Divider r' \<in> set (a # b # ys) \<longleftrightarrow> r' = r"
    by (auto simp: root_rep_def)
  have nd: "a \<noteq> Divider r" using assms(2) by auto
  let ?h = "h\<lparr>next_of := (next_of h)(a := Poison),
              root_of := (root_of h)(r \<mapsto> q\<lparr>head := Ptr b\<rparr>)\<rparr>"
  have "root_rep ?h r (b # ys)"
    using q ys assms(2) chain_upd [OF ys(3), of "next_of h" Poison]
    unfolding root_rep_def by auto
  then show ?thesis
    using queue_get_round_node [OF q(1,2,4) ys(1) _ nd] by (intro exI [of _ ?h]) auto
qed

lemma root_rep_get_divider:
  assumes "root_rep h r (Divider r # b # ys)"
  shows "\<exists>h'. (\<forall>k. queue_get_loop (Suc k) r h = queue_get_loop k r h')
    \<and> root_rep h' r (b # ys @ [Divider r])
    \<and> (\<forall>m. m \<notin> set (Divider r # b # ys) \<longrightarrow> next_of h' m = next_of h m)
    \<and> (\<forall>r'. r' \<noteq> r \<longrightarrow> root_of h' r' = root_of h r')"
proof -
  let ?t = "last (b # ys)"
  from assms obtain q where q: "root_of h r = Some q" "head q = Ptr (Divider r)"
    "head_lock q = 0" "tail q = Ptr ?t" "tail_lock q = 0"
    and ys: "next_of h (Divider r) = Ptr b" "chain (next_of h) (b # ys)"
      "distinct (b # ys)" "Divider r \<notin> set (b # ys)"
      "\<forall>r'. Divider r' \<in> set (Divider r # b # ys) \<longleftrightarrow> r' = r"
    by (auto simp: root_rep_def)
  define h' where "h' = h\<lparr>next_of := (next_of h)(Divider r := Null, ?t := Ptr (Divider r)),
     root_of := (root_of h)(r \<mapsto> q\<lparr>head := Ptr b, tail := Ptr (Divider r)\<rparr>)\<rparr>"
  have nx: "next_of h' = (next_of h)(Divider r := Null, ?t := Ptr (Divider r))"
    unfolding h'_def by simp
  have t: "?t \<in> set (b # ys)" by (rule last_in_set) simp
  have "chain (next_of h') ((b # ys) @ [Divider r])"
    unfolding nx by (rule chain_snoc [OF ys(2,3,4)])
  moreover have "\<forall>r'. Divider r' \<in> set (b # ys @ [Divider r]) \<longleftrightarrow> r' = r"
    using ys(5) by auto
  moreover have "\<exists>q'. root_of h' r = Some q' \<and> head q' = Ptr b \<and> tail q' = Ptr (Divider r)
      \<and> head_lock q' = 0 \<and> tail_lock q' = 0"
    using q by (simp add: h'_def)
  ultimately have "root_rep h' r (b # ys @ [Divider r])"
    using ys(3,4) by (auto simp: root_rep_def)
  moreover have "\<forall>m. m \<notin> set (Divider r # b # ys) \<longrightarrow> next_of h' m = next_of h m"
    using t by (auto simp: h'_def)
  moreover have "queue_get_loop (Suc k) r h = queue_get_loop k r h'" for k
    using queue_get_round_divider [OF q ys(1)] by (simp only: h'_def) simp
  ultimately show ?thesis by (intro exI [of _ h']) (simp add: h'_def)
qed

text \<open>
  \<open>queue_get_loop_law\<close>: two rounds are enough, and more rounds change nothing.
\<close>

lemma root_rep_get:
  assumes rep: "root_rep h r ys" and con: "contents ys = n # ns" and k: "2 \<le> k"
  shows "\<exists>h' ys'. queue_get_loop k r h = Inr (Ptr n, h') \<and> root_rep h' r ys'
    \<and> contents ys' = ns \<and> set ys' \<subseteq> set ys \<and> next_of h' n = Poison
    \<and> (\<forall>m. m \<notin> set ys \<longrightarrow> next_of h' m = next_of h m)
    \<and> (\<forall>r'. r' \<noteq> r \<longrightarrow> root_of h' r' = root_of h r')"
proof -
  obtain k' where k': "k = Suc (Suc k')" using k by (metis add_2_eq_Suc le_Suc_ex)
  have dv: "Divider r \<in> set ys" and n: "n \<in> set ys" "\<not> is_divider n"
    using rep con by (auto simp: root_rep_def contents_def filter_eq_Cons_iff)
  obtain a b zs where ys: "ys = a # b # zs"
    using dv n by (cases ys; cases "tl ys") auto
  show ?thesis
  proof (cases "is_divider a")
    case False
    with con ys have "a = n" "contents (b # zs) = ns" by auto
    then show ?thesis
      using root_rep_get_node [of h r a b zs] rep False ys k'
      by (auto intro!: exI [of _ "b # zs"])
  next
    case True
    then have a: "a = Divider r" using rep ys by (auto simp: is_divider_iff root_rep_def)
    from root_rep_get_divider [of h r b zs] rep ys a obtain h1 where h1:
      "queue_get_loop k r h = queue_get_loop (Suc k') r h1"
      "root_rep h1 r (b # zs @ [Divider r])"
      "\<And>m. m \<notin> set ys \<Longrightarrow> next_of h1 m = next_of h m"
      "\<And>r'. r' \<noteq> r \<Longrightarrow> root_of h1 r' = root_of h r'"
      unfolding k' by auto
    have b: "\<not> is_divider b"
      using h1(2) by (auto simp: is_divider_iff root_rep_def)
    obtain c ws where cw: "zs @ [Divider r] = c # ws" by (cases zs) auto
    have "b = n" and ns: "contents (c # ws) = ns"
      using con ys a b unfolding cw [symmetric] by auto
    have "root_rep h1 r (b # c # ws)" using h1(2) unfolding cw .
    from root_rep_get_node [OF this b] obtain h2 where h2:
      "queue_get_loop (Suc k') r h1 = Inr (Ptr b, h2)" "root_rep h2 r (c # ws)"
      "next_of h2 b = Poison" "\<And>m. m \<noteq> b \<Longrightarrow> next_of h2 m = next_of h1 m"
      "\<And>r'. r' \<noteq> r \<Longrightarrow> root_of h2 r' = root_of h1 r'"
      by blast
    have "set (c # ws) \<subseteq> set ys" "b \<in> set ys" using ys a unfolding cw [symmetric] by auto
    moreover have "next_of h2 m = next_of h m" if "m \<notin> set ys" for m
      using that h1(3) h2(4) \<open>b \<in> set ys\<close> by metis
    ultimately show ?thesis
      using h1(1,4) h2 ns \<open>b = n\<close> by (intro exI [of _ h2] exI [of _ "c # ws"]) simp
  qed
qed

lemma queue_get_loop_empty:
  assumes "root_rep h r ys" and "contents ys = []"
  shows "queue_get_loop (Suc k) r h = Inr (Null, h)"
proof -
  have "ys = [Divider r]" using assms by (rule contents_Nil_root_rep)
  with assms(1) show ?thesis
    by (auto simp: root_rep_def intro: queue_get_round_empty)
qed

lemma queue_get_loop_law:
  assumes "qrep h Q" and Qr: "Q r = Some ns" and k: "2 \<le> k"
  shows "\<exists>h'. queue_get_loop k r h = Inr (case ns of [] \<Rightarrow> Null | n # _ \<Rightarrow> Ptr n, h')
    \<and> qrep h' (Q(r \<mapsto> tl ns)) \<and> (\<forall>n ms. ns = n # ms \<longrightarrow> next_of h' n = Poison)"
proof -
  from assms(1) obtain Y where Y: "queues_at h Q Y" by (auto simp: qrep_def)
  note rep = queues_atD(1) [OF Y Qr] and con = queues_atD(2) [OF Y Qr]
  show ?thesis
  proof (cases ns)
    case Nil
    obtain k' where "k = Suc k'" using k by (cases k) auto
    then have "queue_get_loop k r h = Inr (Null, h)"
      using queue_get_loop_empty [OF rep] con Nil by simp
    moreover have "Q(r \<mapsto> []) = Q" using Qr Nil by auto
    ultimately show ?thesis using assms(1) Nil by simp
  next
    case (Cons n ms)
    from root_rep_get [OF rep _ k] con Cons obtain h' ys' where h':
      "queue_get_loop k r h = Inr (Ptr n, h')" "root_rep h' r ys'" "contents ys' = ms"
      "set ys' \<subseteq> set (Y r)" "next_of h' n = Poison"
      "\<And>m. m \<notin> set (Y r) \<Longrightarrow> next_of h' m = next_of h m"
      "\<And>r'. r' \<noteq> r \<Longrightarrow> root_of h' r' = root_of h r'"
      by auto
    have "queues_at h' (Q(r \<mapsto> ms)) (Y(r := ys'))"
    proof (rule queues_at_update [OF Y h'(2,3)])
      show "next_of h' m = next_of h m \<and> m \<notin> set ys'"
        if "r' \<in> dom Q" "r' \<noteq> r" "m \<in> set (Y r')" for r' m
        using that queues_atD(3) [OF Y, of r' r m] h'(4,6) Qr by blast
    qed (rule h'(7))
    with h'(1,5) Cons show ?thesis by (auto simp: qrep_def)
  qed
qed

text \<open>More fuel changes nothing once a round has decided.\<close>

lemma queue_get_loop_mono:
  "queue_get_loop k r h = Inr x \<Longrightarrow> queue_get_loop (Suc k) r h = Inr x"
proof (induction k arbitrary: h)
  case 0
  then show ?case by (simp add: queue_get_loop.simps)
next
  case (Suc k)
  from Suc.prems obtain out h1 where "queue_get_round r h = Inr (out, h1)"
    and "(case out of None \<Rightarrow> queue_get_loop k r h1 | Some l \<Rightarrow> Inr (l, h1)) = Inr x"
    by (auto simp: queue_get_loop.simps(2) [of k] bind_res_Inr_iff)
  with Suc.IH show ?case by (cases out) (simp_all add: queue_get_loop.simps(2) [of "Suc k"])
qed

lemma queue_get_loop_mono_le:
  "queue_get_loop k r h = Inr x \<Longrightarrow> k \<le> k' \<Longrightarrow> queue_get_loop k' r h = Inr x"
  by (induction k' rule: nat_induct) (auto simp: le_Suc_eq queue_get_loop_mono)

lemma queue_get_loop_more:
  assumes "qrep h Q" and "Q r = Some ns" and "2 \<le> k"
  shows "queue_get_loop k r h = queue_get_loop 2 r h"
proof -
  from queue_get_loop_law [OF assms(1,2), of 2] obtain x where "queue_get_loop 2 r h = Inr x"
    by auto
  with queue_get_loop_mono_le [OF this assms(3)] show ?thesis by simp
qed

lemmas queue_get_law = queue_get_loop_law [where k = 2, folded queue_get_def, simplified]

subsection \<open>The interface the server relies on\<close>

text \<open>
  What a user of the queues may assume, over any heap type: \<open>rep h Q\<close> says which
  first-in-first-out sequences the heap holds; \<open>put\<close> appends, \<open>get\<close> takes the first node
  or returns NULL, \<open>init\<close> makes a root empty; no operation touches another queue.
\<close>

locale queue_store =
  fixes put :: "link \<Rightarrow> root_id \<Rightarrow> 'h \<Rightarrow> 'h res"
    and get :: "root_id \<Rightarrow> 'h \<Rightarrow> (link \<times> 'h) res"
    and init :: "root_id \<Rightarrow> 'h \<Rightarrow> 'h"
    and rep :: "'h \<Rightarrow> (root_id \<rightharpoonup> node list) \<Rightarrow> bool"
  assumes put_law: "rep h Q \<Longrightarrow> Q r = Some ns \<Longrightarrow> unqueued n Q
      \<Longrightarrow> \<exists>h'. put (Ptr n) r h = Inr h' \<and> rep h' (Q(r \<mapsto> ns @ [n]))"
    and get_law: "rep h Q \<Longrightarrow> Q r = Some ns
      \<Longrightarrow> \<exists>h'. get r h = Inr (case ns of [] \<Rightarrow> Null | n # _ \<Rightarrow> Ptr n, h')
        \<and> rep h' (Q(r \<mapsto> tl ns))"
    and init_law: "rep h Q \<Longrightarrow> rep (init r h) (Q(r \<mapsto> []))"
begin

lemma get_empty:
  assumes "rep h Q" and "Q r = Some []"
  obtains h' where "get r h = Inr (Null, h')" and "rep h' Q"
proof -
  have "Q(r \<mapsto> []) = Q" using assms(2) by auto
  with get_law [OF assms] that show ?thesis by auto
qed

lemma get_first:
  assumes "rep h Q" and "Q r = Some (n # ns)"
  obtains h' where "get r h = Inr (Ptr n, h')" and "rep h' (Q(r \<mapsto> ns))"
  using get_law [OF assms] that by auto

lemma put_last:
  assumes "rep h Q" and "Q r = Some ns" and "unqueued n Q"
  obtains h' where "put (Ptr n) r h = Inr h'" and "rep h' (Q(r \<mapsto> ns @ [n]))"
  using put_law [OF assms] that by auto

text \<open>Moving the first node of a queue to the end of another.\<close>

lemma move_first:
  assumes "rep h Q" and "Q src = Some (n # ns)" and "Q dst = Some ms" and "src \<noteq> dst"
    and "unqueued n (Q(src \<mapsto> ns))"
  obtains h1 h2 where "get src h = Inr (Ptr n, h1)" and "put (Ptr n) dst h1 = Inr h2"
    and "rep h2 (Q(src \<mapsto> ns, dst \<mapsto> ms @ [n]))"
proof -
  from get_first [OF assms(1,2)] obtain h1 where
    h1: "get src h = Inr (Ptr n, h1)" "rep h1 (Q(src \<mapsto> ns))" .
  have "(Q(src \<mapsto> ns)) dst = Some ms" using assms(3,4) by simp
  from put_last [OF h1(2) this assms(5)] obtain h2 where
    "put (Ptr n) dst h1 = Inr h2" "rep h2 (Q(src \<mapsto> ns, dst \<mapsto> ms @ [n]))" .
  with h1(1) that show ?thesis by blast
qed

text \<open>A whole list of nodes put one after the other comes out in the same order.\<close>

lemma put_all:
  assumes "rep h Q" and "Q r = Some ms" and "distinct ns" and "\<forall>n \<in> set ns. unqueued n Q"
  shows "\<exists>h'. fold (\<lambda>n m. bind_res m (put (Ptr n) r)) ns (Inr h) = Inr h'
    \<and> rep h' (Q(r \<mapsto> ms @ ns))"
  using assms
proof (induction ns arbitrary: h Q ms)
  case Nil
  then have "Q(r \<mapsto> ms) = Q" by auto
  with Nil show ?case by simp
next
  case (Cons n ns)
  then have n: "unqueued n Q" by simp
  from put_last [OF Cons.prems(1,2) n] obtain h1 where
    h1: "put (Ptr n) r h = Inr h1" "rep h1 (Q(r \<mapsto> ms @ [n]))" .
  have "\<forall>m \<in> set ns. unqueued m (Q(r \<mapsto> ms @ [n]))"
    using Cons.prems by (auto simp: unqueued_def)
  then obtain h' where "fold (\<lambda>n m. bind_res m (put (Ptr n) r)) ns (Inr h1) = Inr h'"
    and "rep h' (Q(r \<mapsto> ms @ [n], r \<mapsto> (ms @ [n]) @ ns))"
    using Cons.IH [OF h1(2) fun_upd_same] Cons.prems(3) by (meson distinct.simps(2))
  moreover have "Q(r \<mapsto> ms @ [n], r \<mapsto> (ms @ [n]) @ ns) = Q(r \<mapsto> ms @ n # ns)" by simp
  ultimately have "\<exists>h'. fold (\<lambda>n m. bind_res m (put (Ptr n) r)) ns (Inr h1) = Inr h'
    \<and> rep h' (Q(r \<mapsto> ms @ n # ns))" by metis
  with h1(1) show ?case by (simp only: fold.simps comp_apply bind_res_simps)
qed

end

interpretation dq: queue_store queue_put queue_get init_queue_root qrep
proof unfold_locales
  show "\<And>h Q r ns n. qrep h Q \<Longrightarrow> Q r = Some ns \<Longrightarrow> unqueued n Q \<Longrightarrow>
      \<exists>h'. queue_put (Ptr n) r h = Inr h' \<and> qrep h' (Q(r \<mapsto> ns @ [n]))"
    by (rule queue_put_law)
  show "\<And>h Q r ns. qrep h Q \<Longrightarrow> Q r = Some ns \<Longrightarrow>
      \<exists>h'. queue_get r h = Inr (case ns of [] \<Rightarrow> Null | n # _ \<Rightarrow> Ptr n, h')
        \<and> qrep h' (Q(r \<mapsto> tl ns))"
    using queue_get_law by blast
  show "\<And>h Q r. qrep h Q \<Longrightarrow> qrep (init_queue_root r h) (Q(r \<mapsto> []))"
    by (rule queue_init_law)
qed

text \<open>The empty heap represents no queue at all.\<close>

definition empty_heap :: qheap where
  "empty_heap = \<lparr>next_of = (\<lambda>_. Poison), root_of = (\<lambda>_. None)\<rparr>"

lemma qrep_empty_heap: "qrep empty_heap Map.empty"
  by (auto simp: qrep_def queues_at_def)

lemma qrep_mono: "qrep h Q \<Longrightarrow> Q' \<subseteq>\<^sub>m Q \<Longrightarrow> qrep h Q'"
proof -
  assume le: "Q' \<subseteq>\<^sub>m Q" and "qrep h Q"
  then obtain Y where Y: "queues_at h Q Y" by (auto simp: qrep_def)
  have sub: "Q r = Some ns" if "Q' r = Some ns" for r ns
    using le that by (metis domI map_le_def)
  then have "dom Q' \<subseteq> dom Q" by auto
  with sub Y have "queues_at h Q' Y" unfolding queues_at_def by (simp add: subset_iff)
  then show "qrep h Q'" by (auto simp: qrep_def)
qed

subsection \<open>Properties\<close>

text \<open>C12 (refinement): on a heap that holds well-formed queues, \<open>queue_put\<close> of an unqueued
  node appends it to its queue and \<open>queue_get\<close> takes the first node (NULL exactly when the
  queue is empty), poisons its \<open>next\<close> field, and returns after at most two rounds of its
  endless loop, with the same result for any larger bound; the heap stays well-formed and
  no other queue changes. In particular no access goes through NULL or a poisoned pointer.\<close>

theorem queue_refines_fifo:
  assumes "qrep h Q" and "Q r = Some ns" and "unqueued n Q"
  shows "(\<exists>h'. queue_put (Ptr n) r h = Inr h' \<and> qrep h' (Q(r \<mapsto> ns @ [n])))
    \<and> (\<exists>h'. (\<forall>k. 2 \<le> k \<longrightarrow>
              queue_get_loop k r h = Inr (case ns of [] \<Rightarrow> Null | m # _ \<Rightarrow> Ptr m, h'))
          \<and> qrep h' (Q(r \<mapsto> tl ns)) \<and> (\<forall>m ms. ns = m # ms \<longrightarrow> next_of h' m = Poison))"
proof (intro conjI)
  show "\<exists>h'. queue_put (Ptr n) r h = Inr h' \<and> qrep h' (Q(r \<mapsto> ns @ [n]))"
    by (rule dq.put_law [OF assms])
  from queue_get_loop_law [OF assms(1,2) order_refl] obtain h' where h':
    "queue_get_loop 2 r h = Inr (case ns of [] \<Rightarrow> Null | m # _ \<Rightarrow> Ptr m, h')"
    "qrep h' (Q(r \<mapsto> tl ns))" "\<forall>m ms. ns = m # ms \<longrightarrow> next_of h' m = Poison"
    by blast
  have "queue_get_loop k r h = Inr (case ns of [] \<Rightarrow> Null | m # _ \<Rightarrow> Ptr m, h')"
    if "2 \<le> k" for k
    unfolding queue_get_loop_more [OF assms(1,2) that] by (rule h'(1))
  with h'(2,3) show "\<exists>h'. (\<forall>k. 2 \<le> k \<longrightarrow>
              queue_get_loop k r h = Inr (case ns of [] \<Rightarrow> Null | m # _ \<Rightarrow> Ptr m, h'))
          \<and> qrep h' (Q(r \<mapsto> tl ns)) \<and> (\<forall>m ms. ns = m # ms \<longrightarrow> next_of h' m = Poison)"
    by blast
qed

lemma one_queue_rep:
  "qrep (init_queue_root (RHeap 0) empty_heap) [RHeap 0 \<mapsto> []]"
  using dq.init_law [OF qrep_empty_heap, of "RHeap 0"] .

theorem queue_refines_fifo_witness:
  "\<exists>h'. queue_put (Ptr (BufQ 4)) (RHeap 0) (init_queue_root (RHeap 0) empty_heap) = Inr h'
    \<and> qrep h' [RHeap 0 \<mapsto> [BufQ 4]]"
  using queue_refines_fifo [OF one_queue_rep, of "RHeap 0" "[]" "BufQ 4"]
  by (simp add: unqueued_def)

end
