(* ===== verification/Queue_Conc.thy ===== *)
theory Queue_Conc
  imports Queue
begin

section \<open>The divider queue under interleaving (include/queue.h)\<close>

text \<open>
  The same \<open>queue_put\<close> and \<open>queue_get\<close>, now run by any number of threads on one queue, one
  memory access at a time. A thread's program counter names the access it makes next; the
  two locks are the words of theory \<open>Lock\<close>, taken by one atomic compare-and-swap. The
  memory is sequentially consistent, as the compiler barriers of the lock operations and
  the x86 target of the build make it for this code.

  The result is that the queue is a first-in-first-out queue for every interleaving: what
  the gets took out is, in order, a prefix of what the puts linked in.
\<close>

subsection \<open>Program counters and state\<close>

text \<open>
  Where a \<open>queue_put\<close> returns to: its caller, or the loop of the \<open>queue_get\<close> that
  reinserts the divider.
\<close>

datatype cont = ToCaller | ToGet

datatype qpc =
    Resting
  | PutPoison node cont      \<comment> \<open>\<open>new->next = QUEUE_POISON1\<close>\<close>
  | PutNull node cont        \<comment> \<open>\<open>new->next = NULL\<close>\<close>
  | PutLock node cont        \<comment> \<open>\<open>lock(&root->tail_lock)\<close>\<close>
  | PutLink node cont        \<comment> \<open>\<open>root->tail->next = new\<close>\<close>
  | PutTail node cont        \<comment> \<open>\<open>root->tail = new\<close>\<close>
  | PutUnlock cont           \<comment> \<open>\<open>unlock(&root->tail_lock)\<close>\<close>
  | GetLock                  \<comment> \<open>\<open>lock(&root->head_lock)\<close>\<close>
  | GetHead                  \<comment> \<open>\<open>head = root->head\<close>\<close>
  | GetNext node             \<comment> \<open>\<open>next = head->next\<close>, and the test for NULL\<close>
  | GetUnlockNull            \<comment> \<open>\<open>unlock(&root->head_lock); return NULL\<close>\<close>
  | GetSet node link         \<comment> \<open>\<open>root->head = next\<close>\<close>
  | GetUnlock node           \<comment> \<open>\<open>unlock(&root->head_lock)\<close>, and the test for the divider\<close>
  | GetPoison node           \<comment> \<open>\<open>head->next = QUEUE_POISON1; return head\<close>\<close>

text \<open>
  \<open>q_out\<close> are the nodes the callers own: they may be put, and a get that returns a node
  gives it back to them.
\<close>

record qsys =
  q_next :: "node \<Rightarrow> link"
  q_head :: link
  q_hlock :: lock_t
  q_tail :: link
  q_tlock :: lock_t
  q_pcs :: "nat \<Rightarrow> qpc"
  q_out :: "node set"

abbreviation goto :: "nat \<Rightarrow> qpc \<Rightarrow> qsys \<Rightarrow> qsys" where
  "goto t p s \<equiv> s\<lparr>q_pcs := (q_pcs s)(t := p)\<rparr>"

abbreviation write_next :: "node \<Rightarrow> link \<Rightarrow> qsys \<Rightarrow> qsys" where
  "write_next n l s \<equiv> s\<lparr>q_next := (q_next s)(n := l)\<rparr>"

text \<open>What a step does to the abstract queue.\<close>

datatype qevent = Silent | Enq nat node | Deq nat node

subsection \<open>Steps\<close>

inductive qstep :: "root_id \<Rightarrow> qsys \<Rightarrow> qevent \<Rightarrow> qsys \<Rightarrow> bool" for r where
  call_put: "q_pcs s t = Resting \<Longrightarrow> n \<in> q_out s \<Longrightarrow>
     qstep r s Silent (goto t (PutPoison n ToCaller) (s\<lparr>q_out := q_out s - {n}\<rparr>))"
| put_poison: "q_pcs s t = PutPoison n k \<Longrightarrow>
     qstep r s Silent (goto t (PutNull n k) (write_next n Poison s))"
| put_null: "q_pcs s t = PutNull n k \<Longrightarrow>
     qstep r s Silent (goto t (PutLock n k) (write_next n Null s))"
| put_lock: "q_pcs s t = PutLock n k \<Longrightarrow> cas (q_tlock s) 0 1 = (True, w) \<Longrightarrow>
     qstep r s Silent (goto t (PutLink n k) (s\<lparr>q_tlock := w\<rparr>))"
| put_link: "q_pcs s t = PutLink n k \<Longrightarrow> q_tail s = Ptr m \<Longrightarrow>
     qstep r s (if is_divider n then Silent else Enq t n)
       (goto t (PutTail n k) (write_next m (Ptr n) s))"
| put_tail: "q_pcs s t = PutTail n k \<Longrightarrow>
     qstep r s Silent (goto t (PutUnlock k) (s\<lparr>q_tail := Ptr n\<rparr>))"
| put_unlock: "q_pcs s t = PutUnlock k \<Longrightarrow>
     qstep r s Silent (goto t (case k of ToCaller \<Rightarrow> Resting | ToGet \<Rightarrow> GetLock)
       (s\<lparr>q_tlock := unlock (q_tlock s)\<rparr>))"
| call_get: "q_pcs s t = Resting \<Longrightarrow> qstep r s Silent (goto t GetLock s)"
| get_lock: "q_pcs s t = GetLock \<Longrightarrow> cas (q_hlock s) 0 1 = (True, w) \<Longrightarrow>
     qstep r s Silent (goto t GetHead (s\<lparr>q_hlock := w\<rparr>))"
| get_head: "q_pcs s t = GetHead \<Longrightarrow> q_head s = Ptr a \<Longrightarrow>
     qstep r s Silent (goto t (GetNext a) s)"
| get_next: "q_pcs s t = GetNext a \<Longrightarrow>
     qstep r s Silent
       (goto t (if q_next s a = Null then GetUnlockNull else GetSet a (q_next s a)) s)"
| get_null: "q_pcs s t = GetUnlockNull \<Longrightarrow>
     qstep r s Silent (goto t Resting (s\<lparr>q_hlock := unlock (q_hlock s)\<rparr>))"
| get_set: "q_pcs s t = GetSet a l \<Longrightarrow>
     qstep r s (if is_divider a then Silent else Deq t a)
       (goto t (GetUnlock a) (s\<lparr>q_head := l\<rparr>))"
| get_unlock: "q_pcs s t = GetUnlock a \<Longrightarrow>
     qstep r s Silent
       (goto t (if a = Divider r then PutPoison a ToGet else GetPoison a)
         (s\<lparr>q_hlock := unlock (q_hlock s)\<rparr>))"
| get_poison: "q_pcs s t = GetPoison a \<Longrightarrow>
     qstep r s Silent
       (goto t Resting (write_next a Poison s\<lparr>q_out := insert a (q_out s)\<rparr>))"

text \<open>
  The start: \<open>init_queue_root\<close> has been run, no thread is in a call, and the callers own
  some nodes, none of them a divider.
\<close>

definition qstart :: "root_id \<Rightarrow> node set \<Rightarrow> qsys" where
  "qstart r N =
     \<lparr>q_next = (\<lambda>_. Poison)(Divider r := Null), q_head = Ptr (Divider r),
      q_hlock = lock_init 0, q_tail = Ptr (Divider r), q_tlock = lock_init 0,
      q_pcs = (\<lambda>_. Resting), q_out = {n \<in> N. \<not> is_divider n}\<rparr>"

text \<open>Runs, with the trace of their visible steps.\<close>

inductive qrun :: "root_id \<Rightarrow> node set \<Rightarrow> qevent list \<Rightarrow> qsys \<Rightarrow> bool" for r N where
  start: "qrun r N [] (qstart r N)"
| step: "qrun r N es s \<Longrightarrow> qstep r s e s' \<Longrightarrow> qrun r N (es @ [e]) s'"

fun enqueued :: "qevent list \<Rightarrow> node list" where
  "enqueued [] = []"
| "enqueued (Enq t n # es) = n # enqueued es"
| "enqueued (Deq t n # es) = enqueued es"
| "enqueued (Silent # es) = enqueued es"

fun dequeued :: "qevent list \<Rightarrow> node list" where
  "dequeued [] = []"
| "dequeued (Deq t n # es) = n # dequeued es"
| "dequeued (Enq t n # es) = dequeued es"
| "dequeued (Silent # es) = dequeued es"

lemma enqueued_append [simp]: "enqueued (es @ fs) = enqueued es @ enqueued fs"
  by (induction es rule: enqueued.induct) auto

lemma dequeued_append [simp]: "dequeued (es @ fs) = dequeued es @ dequeued fs"
  by (induction es rule: dequeued.induct) auto

subsection \<open>The invariant\<close>

text \<open>The threads inside the two critical sections.\<close>

fun in_tail_section :: "qpc \<Rightarrow> bool" where
  "in_tail_section (PutLink n k) = True"
| "in_tail_section (PutTail n k) = True"
| "in_tail_section (PutUnlock k) = True"
| "in_tail_section _ = False"

fun in_head_section :: "qpc \<Rightarrow> bool" where
  "in_head_section GetHead = True"
| "in_head_section (GetNext a) = True"
| "in_head_section GetUnlockNull = True"
| "in_head_section (GetSet a l) = True"
| "in_head_section (GetUnlock a) = True"
| "in_head_section _ = False"

text \<open>The node a thread holds privately, in no list and not with the callers.\<close>

fun held :: "qpc \<Rightarrow> node option" where
  "held (PutPoison n k) = Some n"
| "held (PutNull n k) = Some n"
| "held (PutLock n k) = Some n"
| "held (PutLink n k) = Some n"
| "held (GetUnlock a) = Some a"
| "held (GetPoison a) = Some a"
| "held _ = None"

text \<open>What a program counter knows about the list \<open>ys\<close> and the memory.\<close>

fun pc_ok :: "root_id \<Rightarrow> qsys \<Rightarrow> node list \<Rightarrow> qpc \<Rightarrow> bool" where
  "pc_ok r s ys (PutPoison n k) \<longleftrightarrow> (k = ToGet \<longleftrightarrow> n = Divider r)"
| "pc_ok r s ys (PutNull n k) \<longleftrightarrow> (k = ToGet \<longleftrightarrow> n = Divider r)"
| "pc_ok r s ys (PutLock n k) \<longleftrightarrow> (k = ToGet \<longleftrightarrow> n = Divider r) \<and> q_next s n = Null"
| "pc_ok r s ys (PutLink n k) \<longleftrightarrow>
     (k = ToGet \<longleftrightarrow> n = Divider r) \<and> q_next s n = Null \<and> q_tail s = Ptr (last ys)"
| "pc_ok r s ys (PutTail n k) \<longleftrightarrow> n = last ys"
| "pc_ok r s ys (PutUnlock k) \<longleftrightarrow> q_tail s = Ptr (last ys)"
| "pc_ok r s ys (GetNext a) \<longleftrightarrow> a = hd ys"
| "pc_ok r s ys (GetSet a l) \<longleftrightarrow> (\<exists>b zs. ys = a # b # zs \<and> l = Ptr b)"
| "pc_ok r s ys (GetPoison a) \<longleftrightarrow> \<not> is_divider a"
| "pc_ok r s ys _ \<longleftrightarrow> True"

definition qinv :: "root_id \<Rightarrow> qsys \<Rightarrow> node list \<Rightarrow> bool" where
  "qinv r s ys \<longleftrightarrow>
     chain (q_next s) ys \<and> distinct ys \<and> q_head s = Ptr (hd ys)
     \<and> (q_tlock s = 0 \<longrightarrow> q_tail s = Ptr (last ys))
     \<and> (\<forall>t. pc_ok r s ys (q_pcs s t))
     \<and> (\<forall>t. in_tail_section (q_pcs s t) \<longrightarrow> q_tlock s \<noteq> 0)
     \<and> (\<forall>t u. in_tail_section (q_pcs s t) \<longrightarrow> in_tail_section (q_pcs s u) \<longrightarrow> t = u)
     \<and> (\<forall>t. in_head_section (q_pcs s t) \<longrightarrow> q_hlock s \<noteq> 0)
     \<and> (\<forall>t u. in_head_section (q_pcs s t) \<longrightarrow> in_head_section (q_pcs s u) \<longrightarrow> t = u)
     \<and> (\<forall>t n. held (q_pcs s t) = Some n \<longrightarrow> n \<notin> set ys \<and> n \<notin> q_out s)
     \<and> (\<forall>t u n. held (q_pcs s t) = Some n \<longrightarrow> held (q_pcs s u) = Some n \<longrightarrow> t = u)
     \<and> (\<forall>n \<in> q_out s. n \<notin> set ys \<and> \<not> is_divider n)
     \<and> (\<forall>r'. Divider r' \<in> set ys \<longrightarrow> r' = r)
     \<and> (\<forall>t n. held (q_pcs s t) = Some n \<longrightarrow> is_divider n \<longrightarrow> n = Divider r)
     \<and> (Divider r \<in> set ys \<or> (\<exists>t. held (q_pcs s t) = Some (Divider r)))"


lemma qinvD:
  assumes "qinv r s ys"
  shows "chain (q_next s) ys" "distinct ys" "q_head s = Ptr (hd ys)" "ys \<noteq> []"
    "pc_ok r s ys (q_pcs s t)"
    "in_tail_section (q_pcs s t) \<Longrightarrow> q_tlock s \<noteq> 0"
    "in_tail_section (q_pcs s t) \<Longrightarrow> in_tail_section (q_pcs s u) \<Longrightarrow> t = u"
    "in_head_section (q_pcs s t) \<Longrightarrow> q_hlock s \<noteq> 0"
    "in_head_section (q_pcs s t) \<Longrightarrow> in_head_section (q_pcs s u) \<Longrightarrow> t = u"
    "held (q_pcs s t) = Some n \<Longrightarrow> n \<notin> set ys"
    "held (q_pcs s t) = Some n \<Longrightarrow> n \<notin> q_out s"
    "held (q_pcs s t) = Some n \<Longrightarrow> held (q_pcs s u) = Some n \<Longrightarrow> t = u"
    "n \<in> q_out s \<Longrightarrow> n \<notin> set ys" "n \<in> q_out s \<Longrightarrow> \<not> is_divider n"
    "Divider r' \<in> set ys \<Longrightarrow> r' = r"
    "held (q_pcs s t) = Some n \<Longrightarrow> is_divider n \<Longrightarrow> n = Divider r"
    "q_tlock s = 0 \<Longrightarrow> q_tail s = Ptr (last ys)"
    "Divider r \<in> set ys \<or> (\<exists>t. held (q_pcs s t) = Some (Divider r))"
  using assms unfolding qinv_def by (blast dest: chain_ne)+

text \<open>A step of one thread that leaves the list and the memory other threads rely on.\<close>

lemma qinv_goto:
  assumes inv: "qinv r s ys"
    and list: "chain (q_next s') ys" "q_head s' = q_head s" 
      "q_tlock s' = 0 \<longrightarrow> q_tail s' = Ptr (last ys)"
    and pcs: "q_pcs s' = (q_pcs s)(t := p)" "pc_ok r s' ys p"
    and others: "\<And>u. u \<noteq> t \<Longrightarrow> pc_ok r s ys (q_pcs s u) \<Longrightarrow> pc_ok r s' ys (q_pcs s u)"
    and tails: "in_tail_section p \<Longrightarrow> q_tlock s' \<noteq> 0 \<and> (\<forall>u. u \<noteq> t \<longrightarrow> \<not> in_tail_section (q_pcs s u))"
      "\<And>u. u \<noteq> t \<Longrightarrow> in_tail_section (q_pcs s u) \<Longrightarrow> q_tlock s' \<noteq> 0"
    and heads: "in_head_section p \<Longrightarrow> q_hlock s' \<noteq> 0 \<and> (\<forall>u. u \<noteq> t \<longrightarrow> \<not> in_head_section (q_pcs s u))"
      "\<And>u. u \<noteq> t \<Longrightarrow> in_head_section (q_pcs s u) \<Longrightarrow> q_hlock s' \<noteq> 0"
    and held: "\<And>n. held p = Some n \<Longrightarrow> n \<notin> set ys \<and> n \<notin> q_out s' \<and> (is_divider n \<longrightarrow> n = Divider r)
        \<and> (\<forall>u. u \<noteq> t \<longrightarrow> held (q_pcs s u) \<noteq> Some n)"
    and out: "\<And>n. n \<in> q_out s' \<Longrightarrow> n \<notin> set ys \<and> \<not> is_divider n"
      "\<And>u n. u \<noteq> t \<Longrightarrow> held (q_pcs s u) = Some n \<Longrightarrow> n \<notin> q_out s'"
    and divider: "held (q_pcs s t) = Some (Divider r) \<Longrightarrow> held p = Some (Divider r)"
  shows "qinv r s' ys"
proof -
  have pc: "q_pcs s' u = (if u = t then p else q_pcs s u)" for u using pcs(1) by simp
  have "\<forall>u. pc_ok r s' ys (q_pcs s' u)"
    using pcs(2) others qinvD(5) [OF inv] by (simp add: pc)
  moreover have "\<forall>u. in_tail_section (q_pcs s' u) \<longrightarrow> q_tlock s' \<noteq> 0"
    using tails by (auto simp: pc)
  moreover have "\<forall>u v. in_tail_section (q_pcs s' u) \<longrightarrow> in_tail_section (q_pcs s' v) \<longrightarrow> u = v"
    using tails(1) qinvD(7) [OF inv] unfolding pc by metis
  moreover have "\<forall>u. in_head_section (q_pcs s' u) \<longrightarrow> q_hlock s' \<noteq> 0"
    using heads by (auto simp: pc)
  moreover have "\<forall>u v. in_head_section (q_pcs s' u) \<longrightarrow> in_head_section (q_pcs s' v) \<longrightarrow> u = v"
    using heads(1) qinvD(9) [OF inv] unfolding pc by metis
  moreover have "\<forall>u n. held (q_pcs s' u) = Some n \<longrightarrow> n \<notin> set ys \<and> n \<notin> q_out s'"
    using held out(2) qinvD(10) [OF inv] by (simp add: pc)
  moreover have "\<forall>u v n. held (q_pcs s' u) = Some n \<longrightarrow> held (q_pcs s' v) = Some n \<longrightarrow> u = v"
    using held qinvD(12) [OF inv] unfolding pc by metis
  moreover have "\<forall>u n. held (q_pcs s' u) = Some n \<longrightarrow> is_divider n \<longrightarrow> n = Divider r"
    using held qinvD(16) [OF inv] by (simp add: pc)
  moreover have "Divider r \<in> set ys \<or> (\<exists>u. held (q_pcs s' u) = Some (Divider r))"
    using divider qinvD(18) [OF inv] unfolding pc by metis
  ultimately show ?thesis
    using list qinvD(2,3) [OF inv] out(1) qinvD(15) [OF inv]
    unfolding qinv_def by auto
qed

subsection \<open>Every step keeps the invariant and refines the abstract queue\<close>

inductive fifo_step :: "node list \<Rightarrow> qevent \<Rightarrow> node list \<Rightarrow> bool" where
  silent: "fifo_step xs Silent xs"
| enq: "fifo_step xs (Enq t n) (xs @ [n])"
| deq: "fifo_step (n # xs) (Deq t n) xs"

lemma qinv_put_link:
  assumes inv: "qinv r s ys" and pc: "q_pcs s t = PutLink n k" and m: "q_tail s = Ptr m"
  shows "qinv r (goto t (PutTail n k) (write_next m (Ptr n) s)) (ys @ [n])"
proof -
  note D = qinvD [OF inv]
  have t: "q_next s n = Null" "m = last ys" using D(5) [of t] pc m by auto
  have n: "n \<notin> set ys" using D(10) [of t] pc by simp
  have nd: "is_divider n \<Longrightarrow> n = Divider r" using D(16) [of t] pc by simp
  have nt: "\<not> in_tail_section (q_pcs s u)" if "u \<noteq> t" for u using D(7) [of t u] that pc by auto
  have "chain ((q_next s)(n := Null, last ys := Ptr n)) (ys @ [n])"
    by (rule chain_snoc [OF D(1,2) n])
  then have ch: "chain ((q_next s)(m := Ptr n)) (ys @ [n])"
    using t by (simp add: fun_upd_idem)
  have hm: "held (q_pcs s u) = Some x \<Longrightarrow> x \<noteq> m" for u x
    using t(2) last_in_set [OF D(4)] D(10) by blast
  have ok: "pc_ok r (goto t (PutTail n k) (write_next m (Ptr n) s)) (ys @ [n]) (q_pcs s u)"
    if "u \<noteq> t" for u
    using D(5) [of u] nt [OF that] D(4) hm [of u] by (cases "q_pcs s u") auto
  show ?thesis
    unfolding qinv_def
  proof (intro conjI)
    show "\<forall>u. pc_ok r (goto t (PutTail n k) (write_next m (Ptr n) s)) (ys @ [n])
        (q_pcs (goto t (PutTail n k) (write_next m (Ptr n) s)) u)"
      using ok by auto
    show "\<forall>u v na. held (q_pcs (goto t (PutTail n k) (write_next m (Ptr n) s)) u) = Some na
      \<longrightarrow> held (q_pcs (goto t (PutTail n k) (write_next m (Ptr n) s)) v) = Some na \<longrightarrow> u = v"
      using D(12) by auto
    show "\<forall>u na. held (q_pcs (goto t (PutTail n k) (write_next m (Ptr n) s)) u) = Some na
      \<longrightarrow> na \<notin> set (ys @ [n]) \<and> na \<notin> q_out (goto t (PutTail n k) (write_next m (Ptr n) s))"
      using D(10,11) D(12) [of t] pc by auto
    show "\<forall>u v. in_head_section (q_pcs (goto t (PutTail n k) (write_next m (Ptr n) s)) u)
      \<longrightarrow> in_head_section (q_pcs (goto t (PutTail n k) (write_next m (Ptr n) s)) v) \<longrightarrow> u = v"
      using D(9) by auto
    show "\<forall>x \<in> q_out (goto t (PutTail n k) (write_next m (Ptr n) s)).
        x \<notin> set (ys @ [n]) \<and> \<not> is_divider x"
      using D(13,14) D(11) [of t n] pc by auto
    show "Divider r \<in> set (ys @ [n]) \<or>
        (\<exists>u. held (q_pcs (goto t (PutTail n k) (write_next m (Ptr n) s)) u) = Some (Divider r))"
    proof (cases "Divider r \<in> set (ys @ [n])")
      case False
      with D(18) obtain u where "held (q_pcs s u) = Some (Divider r)" by auto
      with False pc have "u \<noteq> t" "held (q_pcs s u) = Some (Divider r)" by auto
      then show ?thesis by auto
    qed simp
  qed (use ch D(2,3,4) n nt nd D(15,16) D(8) D(6) [of t] pc in \<open>auto simp: hd_append\<close>)
qed

lemma qinv_get_set:
  assumes inv: "qinv r s ys" and pc: "q_pcs s t = GetSet a l"
  shows "\<exists>b zs. ys = a # b # zs \<and>
    qinv r (goto t (GetUnlock a) (s\<lparr>q_head := l\<rparr>)) (b # zs)"
proof -
  note D = qinvD [OF inv]
  obtain b zs where ys: "ys = a # b # zs" "l = Ptr b" using D(5) [of t] pc by auto
  have nh: "\<not> in_head_section (q_pcs s u)" if "u \<noteq> t" for u using D(9) [of t u] that pc by auto
  have ok: "pc_ok r (goto t (GetUnlock a) (s\<lparr>q_head := l\<rparr>)) (b # zs) (q_pcs s u)" if "u \<noteq> t" for u
    using D(5) [of u] nh [OF that] ys by (cases "q_pcs s u") auto
  have "qinv r (goto t (GetUnlock a) (s\<lparr>q_head := l\<rparr>)) (b # zs)"
    unfolding qinv_def
  proof (intro conjI)
    show "\<forall>u. pc_ok r (goto t (GetUnlock a) (s\<lparr>q_head := l\<rparr>)) (b # zs)
        (q_pcs (goto t (GetUnlock a) (s\<lparr>q_head := l\<rparr>)) u)"
      using ok by auto
    show "\<forall>u n. held (q_pcs (goto t (GetUnlock a) (s\<lparr>q_head := l\<rparr>)) u) = Some n
      \<longrightarrow> n \<notin> set (b # zs) \<and> n \<notin> q_out (goto t (GetUnlock a) (s\<lparr>q_head := l\<rparr>))"
      using D(2,10,11) D(13) [of a] ys by auto
    show "\<forall>u v n. held (q_pcs (goto t (GetUnlock a) (s\<lparr>q_head := l\<rparr>)) u) = Some n
      \<longrightarrow> held (q_pcs (goto t (GetUnlock a) (s\<lparr>q_head := l\<rparr>)) v) = Some n \<longrightarrow> u = v"
      using D(10,12) ys by auto
    show "\<forall>u v. in_tail_section (q_pcs (goto t (GetUnlock a) (s\<lparr>q_head := l\<rparr>)) u)
      \<longrightarrow> in_tail_section (q_pcs (goto t (GetUnlock a) (s\<lparr>q_head := l\<rparr>)) v) \<longrightarrow> u = v"
      using D(7) by auto
    show "Divider r \<in> set (b # zs) \<or>
        (\<exists>u. held (q_pcs (goto t (GetUnlock a) (s\<lparr>q_head := l\<rparr>)) u) = Some (Divider r))"
    proof (cases "Divider r \<in> set ys")
      case True
      then show ?thesis using ys(1) by (auto intro: exI [of _ t])
    next
      case False
      with D(18) obtain u where "held (q_pcs s u) = Some (Divider r)" by auto
      with pc have "u \<noteq> t" "held (q_pcs s u) = Some (Divider r)" by auto
      then show ?thesis by auto
    qed
  qed (use D(1,2,17) D(13,14,15,16) D(6) D(8) [of t] nh ys pc in \<open>auto simp: is_divider_iff\<close>)
  with ys(1) show ?thesis by blast
qed

lemma pc_ok_frame [simp]:
  "pc_ok r (s\<lparr>q_pcs := f\<rparr>) ys p = pc_ok r s ys p"
  "pc_ok r (s\<lparr>q_out := N\<rparr>) ys p = pc_ok r s ys p"
  "pc_ok r (s\<lparr>q_hlock := w\<rparr>) ys p = pc_ok r s ys p"
  "pc_ok r (s\<lparr>q_tlock := w\<rparr>) ys p = pc_ok r s ys p"
  "pc_ok r (s\<lparr>q_head := l\<rparr>) ys p = pc_ok r s ys p"
  by (cases p; simp)+

text \<open>All other steps leave the list as it is.\<close>

lemma qinv_put_steps:
  assumes inv: "qinv r s ys"
  shows "q_pcs s t = Resting \<Longrightarrow> n \<in> q_out s \<Longrightarrow>
      qinv r (goto t (PutPoison n ToCaller) (s\<lparr>q_out := q_out s - {n}\<rparr>)) ys"
    and "q_pcs s t = PutPoison n k \<Longrightarrow> qinv r (goto t (PutNull n k) (write_next n Poison s)) ys"
    and "q_pcs s t = PutNull n k \<Longrightarrow> qinv r (goto t (PutLock n k) (write_next n Null s)) ys"
    and "q_pcs s t = PutLock n k \<Longrightarrow> q_tlock s = 0 \<Longrightarrow>
      qinv r (goto t (PutLink n k) (s\<lparr>q_tlock := 1\<rparr>)) ys"
    and "q_pcs s t = PutTail n k \<Longrightarrow> qinv r (goto t (PutUnlock k) (s\<lparr>q_tail := Ptr n\<rparr>)) ys"
    and "q_pcs s t = PutUnlock k \<Longrightarrow>
      qinv r (goto t (case k of ToCaller \<Rightarrow> Resting | ToGet \<Rightarrow> GetLock) (s\<lparr>q_tlock := 0\<rparr>)) ys"
proof -
  note D = qinvD [OF inv]
  have keep: "pc_ok r (goto t p (write_next n l s)) ys (q_pcs s u)"
    if "u \<noteq> t" "held (q_pcs s t) = Some n" for u n l p
    using D(5) [of u] D(12) [of u n t] that by (cases "q_pcs s u") auto
  have alone: "\<not> in_tail_section (q_pcs s u)" if "u \<noteq> t" "in_tail_section (q_pcs s t)" for u
    using D(7) [of t u] that by auto
  {
    assume n: "n \<in> q_out s" and pc: "q_pcs s t = Resting"
    have "n \<noteq> Divider r" using D(14) [OF n] by auto
    then show "qinv r (goto t (PutPoison n ToCaller) (s\<lparr>q_out := q_out s - {n}\<rparr>)) ys"
      by (intro qinv_goto [OF inv, where t = t])
        (use n pc D(1,17) D(6,8,11,13,14) in auto)
  next
    assume pc: "q_pcs s t = PutPoison n k"
    then have ht: "held (q_pcs s t) = Some n" by simp
    have own: "n \<notin> set ys" "n \<notin> q_out s" "is_divider n \<longleftrightarrow> n = Divider r"
      "\<And>u. u \<noteq> t \<Longrightarrow> held (q_pcs s u) \<noteq> Some n"
      using D(10,11,16) [of t n] D(12) [of t n] pc by auto
    show "qinv r (goto t (PutNull n k) (write_next n Poison s)) ys"
      by (intro qinv_goto [OF inv, where t = t])
        (use pc own D(1,17) D(5) [of t] D(6,8,13,14,11) keep [OF _ ht] in auto)
  next
    assume pc: "q_pcs s t = PutNull n k"
    then have ht: "held (q_pcs s t) = Some n" by simp
    have own: "n \<notin> set ys" "n \<notin> q_out s" "is_divider n \<longleftrightarrow> n = Divider r"
      "\<And>u. u \<noteq> t \<Longrightarrow> held (q_pcs s u) \<noteq> Some n"
      using D(10,11,16) [of t n] D(12) [of t n] pc by auto
    show "qinv r (goto t (PutLock n k) (write_next n Null s)) ys"
      by (intro qinv_goto [OF inv, where t = t])
        (use pc own D(1,17) D(5) [of t] D(6,8,13,14,11) keep [OF _ ht] in auto)
  next
    assume pc: "q_pcs s t = PutLock n k" and free: "q_tlock s = 0"
    have own: "n \<notin> set ys" "n \<notin> q_out s" "is_divider n \<longleftrightarrow> n = Divider r"
      "\<And>u. u \<noteq> t \<Longrightarrow> held (q_pcs s u) \<noteq> Some n"
      using D(10,11,16) [of t n] D(12) [of t n] pc by auto
    show "qinv r (goto t (PutLink n k) (s\<lparr>q_tlock := 1\<rparr>)) ys"
      by (intro qinv_goto [OF inv, where t = t])
        (use pc free own D(1,17) D(5) [of t] D(6,8,13,14,11) in auto)
  next
    assume pc: "q_pcs s t = PutTail n k"
    have ok: "pc_ok r (goto t (PutUnlock k) (s\<lparr>q_tail := Ptr n\<rparr>)) ys (q_pcs s u)" if "u \<noteq> t" for u
      using D(5) [of u] alone [OF that] pc by (cases "q_pcs s u") auto
    show "qinv r (goto t (PutUnlock k) (s\<lparr>q_tail := Ptr n\<rparr>)) ys"
      by (intro qinv_goto [OF inv, where t = t])
        (use pc ok D(1,17) D(5,6) [of t] D(6,8,13,14,11) alone in auto)
  next
    assume pc: "q_pcs s t = PutUnlock k"
    show "qinv r (goto t (case k of ToCaller \<Rightarrow> Resting | ToGet \<Rightarrow> GetLock) (s\<lparr>q_tlock := 0\<rparr>)) ys"
      by (intro qinv_goto [OF inv, where t = t])
        (use pc D(1,17) D(5) [of t] D(6,8,13,14,11) alone in
          \<open>auto split: cont.splits\<close>)
  }
qed

lemma qinv_get_steps:
  assumes inv: "qinv r s ys"
  shows "q_pcs s t = Resting \<Longrightarrow> qinv r (goto t GetLock s) ys"
    and "q_pcs s t = GetLock \<Longrightarrow> q_hlock s = 0 \<Longrightarrow>
      qinv r (goto t GetHead (s\<lparr>q_hlock := 1\<rparr>)) ys"
    and "q_pcs s t = GetHead \<Longrightarrow> q_head s = Ptr a \<Longrightarrow> qinv r (goto t (GetNext a) s) ys"
    and "q_pcs s t = GetNext a \<Longrightarrow>
      qinv r (goto t (if q_next s a = Null then GetUnlockNull else GetSet a (q_next s a)) s) ys"
    and "q_pcs s t = GetUnlockNull \<Longrightarrow> qinv r (goto t Resting (s\<lparr>q_hlock := 0\<rparr>)) ys"
    and "q_pcs s t = GetUnlock a \<Longrightarrow>
      qinv r (goto t (if a = Divider r then PutPoison a ToGet else GetPoison a)
        (s\<lparr>q_hlock := 0\<rparr>)) ys"
    and "q_pcs s t = GetPoison a \<Longrightarrow>
      qinv r (goto t Resting (write_next a Poison s\<lparr>q_out := insert a (q_out s)\<rparr>)) ys"
proof -
  note D = qinvD [OF inv]
  have alone: "\<not> in_head_section (q_pcs s u)" if "u \<noteq> t" "in_head_section (q_pcs s t)" for u
    using D(9) [of t u] that by auto
  {
    assume pc: "q_pcs s t = Resting"
    show "qinv r (goto t GetLock s) ys"
      by (intro qinv_goto [OF inv, where t = t])
        (use pc D(1,17) D(6,8,13,14,11) in auto)
  next
    assume pc: "q_pcs s t = GetLock" and free: "q_hlock s = 0"
    show "qinv r (goto t GetHead (s\<lparr>q_hlock := 1\<rparr>)) ys"
      by (intro qinv_goto [OF inv, where t = t])
        (use pc free D(1,17) D(6,8,13,14,11) in auto)
  next
    assume pc: "q_pcs s t = GetHead" and head: "q_head s = Ptr a"
    show "qinv r (goto t (GetNext a) s) ys"
      by (intro qinv_goto [OF inv, where t = t])
        (use pc head alone D(1,3,17) D(8) [of t] D(6,8,13,14,11) in auto)
  next
    assume pc: "q_pcs s t = GetNext a"
    have a: "a = hd ys" using D(5) [of t] pc by simp
    have set: "\<exists>b zs. ys = a # b # zs \<and> q_next s a = Ptr b" if "q_next s a \<noteq> Null"
      using that D(1) a by (cases ys; cases "tl ys") auto
    show "qinv r (goto t (if q_next s a = Null then GetUnlockNull else GetSet a (q_next s a)) s) ys"
      by (intro qinv_goto [OF inv, where t = t])
        (use pc set alone D(1,17) D(8) [of t] D(6,8,13,14,11) in
          \<open>auto split: if_splits\<close>)
  next
    assume pc: "q_pcs s t = GetUnlockNull"
    show "qinv r (goto t Resting (s\<lparr>q_hlock := 0\<rparr>)) ys"
      by (intro qinv_goto [OF inv, where t = t])
        (use pc alone D(1,17) D(6,13,14,11) in auto)
  next
    assume pc: "q_pcs s t = GetUnlock a"
    have a: "is_divider a \<Longrightarrow> a = Divider r" "a \<notin> set ys" "a \<notin> q_out s"
      "\<And>u. u \<noteq> t \<Longrightarrow> held (q_pcs s u) \<noteq> Some a"
      using D(16,10,11) [of t a] D(12) [of t a] pc by auto
    show "qinv r (goto t (if a = Divider r then PutPoison a ToGet else GetPoison a)
        (s\<lparr>q_hlock := 0\<rparr>)) ys"
    proof (rule qinv_goto [OF inv, where t = t])
      show "pc_ok r (goto t (if a = Divider r then PutPoison a ToGet else GetPoison a)
          (s\<lparr>q_hlock := 0\<rparr>)) ys (if a = Divider r then PutPoison a ToGet else GetPoison a)"
        using a(1) by (cases "a = Divider r") auto
      show "\<And>u. u \<noteq> t \<Longrightarrow> in_head_section (q_pcs s u) \<Longrightarrow> q_hlock (goto t
          (if a = Divider r then PutPoison a ToGet else GetPoison a) (s\<lparr>q_hlock := 0\<rparr>)) \<noteq> 0"
        using alone pc by simp
      show "held (q_pcs s t) = Some (Divider r) \<Longrightarrow>
          held (if a = Divider r then PutPoison a ToGet else GetPoison a) = Some (Divider r)"
        using pc by simp
    qed (use a D(1,17) D(6,13,14,11) in \<open>auto split: if_splits\<close>)
  next
    assume pc: "q_pcs s t = GetPoison a"
    have a: "\<not> is_divider a" "a \<notin> set ys" "\<And>u. u \<noteq> t \<Longrightarrow> held (q_pcs s u) \<noteq> Some a"
      using D(5) [of t] D(10) [of t a] D(12) [of t a] pc by auto
    have keep: "pc_ok r (goto t Resting (write_next a Poison s\<lparr>q_out := insert a (q_out s)\<rparr>)) ys
        (q_pcs s u)" if "u \<noteq> t" for u
      using D(5) [of u] a(3) [OF that] by (cases "q_pcs s u") auto
    show "qinv r (goto t Resting (write_next a Poison s\<lparr>q_out := insert a (q_out s)\<rparr>)) ys"
      by (intro qinv_goto [OF inv, where t = t])
        (use pc a keep D(1,17) D(6,8,13,14,11) in auto)
  }
qed

lemma cas_success: "cas w 0 1 = (True, w') \<longleftrightarrow> w = 0 \<and> w' = 1"
  by (auto simp: cas_def)

lemma silent_same_list:
  "qinv r s' ys \<Longrightarrow> \<exists>ys'. qinv r s' ys' \<and> fifo_step (contents ys) Silent (contents ys')"
  by (auto intro: fifo_step.silent)

lemma qstep_simulates:
  "qstep r s e s' \<Longrightarrow> qinv r s ys
    \<Longrightarrow> \<exists>ys'. qinv r s' ys' \<and> fifo_step (contents ys) e (contents ys')"
proof (induction rule: qstep.induct)
  case (put_link s t n k m)
  from qinv_put_link [OF put_link(3,1,2)]
  show ?case
    by (intro exI [of _ "ys @ [n]"]) (auto intro: fifo_step.intros)
next
  case (get_set s t a l)
  from qinv_get_set [OF get_set(2,1)] obtain b zs where ys: "ys = a # b # zs"
    "qinv r (goto t (GetUnlock a) (s\<lparr>q_head := l\<rparr>)) (b # zs)" by blast
  have "fifo_step (contents ys) (if is_divider a then Silent else Deq t a) (contents (b # zs))"
    unfolding ys(1) by (auto intro: fifo_step.intros)
  with ys(2) show ?case by blast
next
  case (call_put s t n)
  show ?case by (intro silent_same_list qinv_put_steps(1) call_put)
next
  case (put_poison s t n k)
  show ?case by (intro silent_same_list qinv_put_steps(2) put_poison)
next
  case (put_null s t n k)
  show ?case by (intro silent_same_list qinv_put_steps(3) put_null)
next
  case (put_lock s t n k w)
  then have w: "q_tlock s = 0" "w = 1" by (simp_all add: cas_success)
  show ?case unfolding w(2) by (intro silent_same_list qinv_put_steps(4) put_lock w)
next
  case (put_tail s t n k)
  show ?case by (intro silent_same_list qinv_put_steps(5) put_tail)
next
  case (put_unlock s t k)
  show ?case unfolding unlock_zero by (intro silent_same_list qinv_put_steps(6) put_unlock)
next
  case (call_get s t)
  show ?case by (intro silent_same_list qinv_get_steps(1) call_get)
next
  case (get_lock s t w)
  then have w: "q_hlock s = 0" "w = 1" by (simp_all add: cas_success)
  show ?case unfolding w(2) by (intro silent_same_list qinv_get_steps(2) get_lock w)
next
  case (get_head s t a)
  show ?case by (intro silent_same_list qinv_get_steps(3) get_head)
next
  case (get_next s t a)
  show ?case by (intro silent_same_list qinv_get_steps(4) get_next)
next
  case (get_null s t)
  show ?case unfolding unlock_zero by (intro silent_same_list qinv_get_steps(5) get_null)
next
  case (get_unlock s t a)
  show ?case unfolding unlock_zero by (intro silent_same_list qinv_get_steps(6) get_unlock)
next
  case (get_poison s t a)
  show ?case by (intro silent_same_list qinv_get_steps(7) get_poison)
qed

lemma qinv_start: "qinv r (qstart r N) [Divider r]"
  by (auto simp: qinv_def qstart_def)

lemma qrun_inv:
  "qrun r N es s \<Longrightarrow> \<exists>ys. qinv r s ys \<and> enqueued es = dequeued es @ contents ys"
proof (induction rule: qrun.induct)
  case start
  show ?case by (intro exI [of _ "[Divider r]"]) (simp add: qinv_start)
next
  case (step es s e s')
  then obtain ys where "qinv r s ys" and es: "enqueued es = dequeued es @ contents ys" by blast
  with qstep_simulates [OF step.hyps(2)] obtain ys' where
    "qinv r s' ys'" and "fifo_step (contents ys) e (contents ys')" by blast
  moreover from this(2) es have "enqueued (es @ [e]) = dequeued (es @ [e]) @ contents ys'"
    by (cases rule: fifo_step.cases) auto
  ultimately show ?case by blast
qed

subsection \<open>Locks are released\<close>

text \<open>A lock word that is taken is taken by a thread that is in the section.\<close>

definition locks_owned :: "qsys \<Rightarrow> bool" where
  "locks_owned s \<longleftrightarrow>
     (q_tlock s \<noteq> 0 \<longrightarrow> (\<exists>t. in_tail_section (q_pcs s t)))
     \<and> (q_hlock s \<noteq> 0 \<longrightarrow> (\<exists>t. in_head_section (q_pcs s t)))"

lemma locks_owned_goto:
  assumes "locks_owned s" and "q_pcs s' = (q_pcs s)(t := p)"
    and "q_tlock s' = 0 \<or> in_tail_section p
      \<or> (q_tlock s' = q_tlock s \<and> \<not> in_tail_section (q_pcs s t))"
    and "q_hlock s' = 0 \<or> in_head_section p
      \<or> (q_hlock s' = q_hlock s \<and> \<not> in_head_section (q_pcs s t))"
  shows "locks_owned s'"
proof -
  have pc: "q_pcs s' u = (if u = t then p else q_pcs s u)" for u using assms(2) by simp
  have "\<exists>u. in_tail_section (q_pcs s' u)" if "q_tlock s' \<noteq> 0"
    using that assms(1,3) unfolding locks_owned_def pc by (cases "in_tail_section p") auto
  moreover have "\<exists>u. in_head_section (q_pcs s' u)" if "q_hlock s' \<noteq> 0"
    using that assms(1,4) unfolding locks_owned_def pc by (cases "in_head_section p") auto
  ultimately show ?thesis by (simp add: locks_owned_def)
qed

lemma locks_owned_step: "qstep r s e s' \<Longrightarrow> locks_owned s \<Longrightarrow> locks_owned s'"
proof (induction rule: qstep.induct)
  case (get_unlock s t a)
  show ?case
    by (rule locks_owned_goto [OF get_unlock(2), where t = t and p = "if a = Divider r
      then PutPoison a ToGet else GetPoison a"]) (use get_unlock(1) in simp_all)
next
  case (get_next s t a)
  show ?case
    by (rule locks_owned_goto [OF get_next(2), where t = t and p = "if q_next s a = Null
      then GetUnlockNull else GetSet a (q_next s a)"]) (use get_next(1) in simp_all)
next
  case (put_unlock s t k)
  show ?case
    by (rule locks_owned_goto [OF put_unlock(2), where t = t and p = "case k of
      ToCaller \<Rightarrow> Resting | ToGet \<Rightarrow> GetLock"]) (use put_unlock(1) in simp_all)
next
  case (put_link s t n k m)
  show ?case
    by (rule locks_owned_goto [OF put_link(3), where t = t and p = "PutTail n k"])
      (use put_link(1) in simp_all)
qed (rule locks_owned_goto, assumption, simp, simp, simp)+

lemma qrun_locks_owned: "qrun r N es s \<Longrightarrow> locks_owned s"
proof (induction rule: qrun.induct)
  case start
  show ?case by (simp add: locks_owned_def qstart_def)
next
  case (step es s e s')
  then show ?case by (blast intro: locks_owned_step)
qed

text \<open>Where a thread waits for a lock that is taken.\<close>

fun waiting :: "qsys \<Rightarrow> qpc \<Rightarrow> bool" where
  "waiting s (PutLock n k) \<longleftrightarrow> q_tlock s \<noteq> 0"
| "waiting s GetLock \<longleftrightarrow> q_hlock s \<noteq> 0"
| "waiting s _ \<longleftrightarrow> False"

lemma not_waiting_moves:
  assumes inv: "qinv r s ys" and busy: "q_pcs s t \<noteq> Resting" and free: "\<not> waiting s (q_pcs s t)"
  shows "\<exists>e s'. qstep r s e s' \<and> q_pcs s' t \<noteq> q_pcs s t"
proof -
  note D = qinvD [OF inv]
  have cas: "cas 0 0 1 = (True, 1)" by (simp add: cas_def)
  show ?thesis
  proof (cases "q_pcs s t")
    case (PutLink n k)
    then have "q_tail s = Ptr (last ys)" using D(5) [of t] by simp
    from put_link [OF PutLink this] PutLink show ?thesis by fastforce
  next
    case (PutLock n k)
    with free cas have "cas (q_tlock s) 0 1 = (True, 1)" by simp
    from put_lock [OF PutLock this] PutLock show ?thesis by fastforce
  next
    case GetLock
    with free cas have "cas (q_hlock s) 0 1 = (True, 1)" by simp
    from get_lock [OF GetLock this] GetLock show ?thesis by fastforce
  next
    case (GetNext a)
    from get_next [OF GetNext] GetNext show ?thesis
      by (intro exI conjI) (assumption, simp)
  next
    case (PutUnlock k)
    from put_unlock [OF PutUnlock] PutUnlock show ?thesis by (cases k) fastforce+
  next
    case (GetUnlock a)
    from get_unlock [OF GetUnlock] GetUnlock show ?thesis
      by (intro exI conjI) (assumption, simp)
  qed (use busy D(3) in \<open>fastforce dest: qstep.intros\<close>)+
qed

subsection \<open>Properties\<close>

text \<open>C5 (refinement): for every interleaving of puts and gets by any number of threads,
  the nodes linked from the head pointer form a cycle-free list; the nodes the gets took
  out, followed by the nodes still in the list, are exactly the nodes the puts linked in,
  in the same order; and no node that a caller owns is in the list. So nothing is lost,
  duplicated or reordered, although put and get use different locks.\<close>

theorem queue_conc_fifo:
  assumes "qrun r N es s"
  shows "\<exists>ys. chain (q_next s) ys \<and> q_head s = Ptr (hd ys) \<and> distinct ys
    \<and> enqueued es = dequeued es @ contents ys \<and> set ys \<inter> q_out s = {}"
proof -
  from qrun_inv [OF assms] obtain ys where
    "qinv r s ys" "enqueued es = dequeued es @ contents ys" by blast
  moreover from qinvD [OF this(1)] have "set ys \<inter> q_out s = {}" by blast
  ultimately show ?thesis using qinvD(1,2,3) by (intro exI [of _ ys]) auto
qed

lemma qrun_one_put:
  "\<exists>s. qrun (RHeap 0) {BufQ 0} [Silent, Silent, Silent, Silent, Enq 5 (BufQ 0)] s
    \<and> q_pcs s 5 = PutTail (BufQ 0) ToCaller"
proof -
  define r where "r = RHeap 0"
  define N where "N = {BufQ 0}"
  let ?s0 = "qstart r N"
  let ?s1 = "goto 5 (PutPoison (BufQ 0) ToCaller) (?s0\<lparr>q_out := q_out ?s0 - {BufQ 0}\<rparr>)"
  let ?s2 = "goto 5 (PutNull (BufQ 0) ToCaller) (write_next (BufQ 0) Poison ?s1)"
  let ?s3 = "goto 5 (PutLock (BufQ 0) ToCaller) (write_next (BufQ 0) Null ?s2)"
  let ?s4 = "goto 5 (PutLink (BufQ 0) ToCaller) (?s3\<lparr>q_tlock := 1\<rparr>)"
  let ?s5 = "goto 5 (PutTail (BufQ 0) ToCaller) (write_next (Divider r) (Ptr (BufQ 0)) ?s4)"
  have "qstep r ?s0 Silent ?s1" by (rule call_put) (simp_all add: qstart_def N_def)
  from qrun.step [OF qrun.start this] have r1: "qrun r N [Silent] ?s1" by simp
  have "qstep r ?s1 Silent ?s2" by (rule put_poison) simp
  from qrun.step [OF r1 this] have r2: "qrun r N [Silent, Silent] ?s2" by simp
  have "qstep r ?s2 Silent ?s3" by (rule put_null) simp
  from qrun.step [OF r2 this] have r3: "qrun r N [Silent, Silent, Silent] ?s3" by simp
  have "qstep r ?s3 Silent ?s4" by (rule put_lock) (simp_all add: qstart_def cas_def)
  from qrun.step [OF r3 this] have r4: "qrun r N [Silent, Silent, Silent, Silent] ?s4" by simp
  have "qstep r ?s4 (if is_divider (BufQ 0) then Silent else Enq 5 (BufQ 0)) ?s5"
    by (rule put_link) (simp_all add: qstart_def)
  from qrun.step [OF r4 this]
  have "qrun r N [Silent, Silent, Silent, Silent, Enq 5 (BufQ 0)] ?s5" by simp
  moreover have "q_pcs ?s5 5 = PutTail (BufQ 0) ToCaller" by simp
  ultimately show ?thesis unfolding r_def N_def by blast
qed

theorem queue_conc_fifo_witness:
  "\<exists>s ys. qrun (RHeap 0) {BufQ 0} [Silent, Silent, Silent, Silent, Enq 5 (BufQ 0)] s
    \<and> q_head s = Ptr (hd ys) \<and> contents ys = [BufQ 0]"
proof -
  from qrun_one_put obtain s where
    s: "qrun (RHeap 0) {BufQ 0} [Silent, Silent, Silent, Silent, Enq 5 (BufQ 0)] s" by blast
  from queue_conc_fifo [OF s] obtain ys where
    "q_head s = Ptr (hd ys)" "[BufQ 0] = [] @ contents ys" by auto
  with s show ?thesis by (metis append_Nil)
qed

text \<open>C20 (liveness): in every reachable state, whenever some thread is inside a call, some
  thread that is inside a call can make its next memory access: no access goes through a
  NULL or poisoned pointer, the holder of a lock is never blocked, and the two locks
  cannot deadlock.\<close>

theorem queue_conc_progress:
  assumes "qrun r N es s" and "q_pcs s t \<noteq> Resting"
  shows "\<exists>u e s'. q_pcs s u \<noteq> Resting \<and> qstep r s e s' \<and> q_pcs s' u \<noteq> q_pcs s u"
proof -
  from qrun_inv [OF assms(1)] obtain ys where inv: "qinv r s ys" by blast
  have own: "locks_owned s" by (rule qrun_locks_owned [OF assms(1)])
  have "\<exists>u. q_pcs s u \<noteq> Resting \<and> \<not> waiting s (q_pcs s u)"
  proof (cases "waiting s (q_pcs s t)")
    case False
    with assms(2) show ?thesis by blast
  next
    case True
    then have "q_tlock s \<noteq> 0 \<or> q_hlock s \<noteq> 0"
      by (cases "q_pcs s t") auto
    then obtain u where "in_tail_section (q_pcs s u) \<or> in_head_section (q_pcs s u)"
      using own by (auto simp: locks_owned_def)
    then have "q_pcs s u \<noteq> Resting \<and> \<not> waiting s (q_pcs s u)"
      by (cases "q_pcs s u") auto
    then show ?thesis by blast
  qed
  then obtain u where u: "q_pcs s u \<noteq> Resting" "\<not> waiting s (q_pcs s u)" by blast
  from not_waiting_moves [OF inv u] u(1) show ?thesis by blast
qed

theorem queue_conc_progress_witness:
  "\<exists>s u e s'. q_pcs s 5 = PutTail (BufQ 0) ToCaller \<and> qstep (RHeap 0) s e s'
    \<and> q_pcs s' u \<noteq> q_pcs s u"
proof -
  from qrun_one_put obtain s where
    s: "qrun (RHeap 0) {BufQ 0} [Silent, Silent, Silent, Silent, Enq 5 (BufQ 0)] s"
    "q_pcs s 5 = PutTail (BufQ 0) ToCaller" by blast
  then have "q_pcs s 5 \<noteq> Resting" by simp
  from queue_conc_progress [OF s(1) this] s(2) show ?thesis by blast
qed

text \<open>C21 (functional): a \<open>queue_get\<close> that is about to return NULL has found at most one
  node in the list, and if that node is a queued object, another thread is at that moment
  between taking the divider off the head and linking it in at the tail. So NULL means
  empty, except during a reinsertion of the divider by another thread, when one queued
  object may be overlooked.\<close>

theorem queue_conc_null_means_empty:
  assumes "qrun r N es s" and "q_pcs s t = GetNext a" and "q_next s a = Null"
  shows "enqueued es = dequeued es
    \<or> (\<exists>n u. enqueued es = dequeued es @ [n] \<and> u \<noteq> t \<and> held (q_pcs s u) = Some (Divider r))"
proof -
  from qrun_inv [OF assms(1)] obtain ys where
    inv: "qinv r s ys" and es: "enqueued es = dequeued es @ contents ys" by blast
  note D = qinvD [OF inv]
  have "a = hd ys" using D(5) [of t] assms(2) by simp
  then have ys: "ys = [a]" using D(1) assms(3) by (cases ys; cases "tl ys") auto
  show ?thesis
  proof (cases "is_divider a")
    case True
    then show ?thesis using es ys by simp
  next
    case False
    then have "Divider r \<notin> set ys" using ys by auto
    then obtain u where u: "held (q_pcs s u) = Some (Divider r)" using D(18) by blast
    then have "u \<noteq> t" using assms(2) by auto
    with u es ys False show ?thesis by auto
  qed
qed

theorem queue_conc_null_means_empty_witness:
  "\<exists>es s. qrun (RHeap 0) {BufQ 0} es s \<and> q_pcs s 5 = GetNext (Divider (RHeap 0))
    \<and> enqueued es = dequeued es"
proof -
  define r where "r = RHeap 0"
  define N where "N = {BufQ 0}"
  let ?s1 = "goto 5 GetLock (qstart r N)"
  let ?s2 = "goto 5 GetHead (?s1\<lparr>q_hlock := 1\<rparr>)"
  let ?s3 = "goto 5 (GetNext (Divider r)) ?s2"
  have "qstep r (qstart r N) Silent ?s1" by (rule call_get) (simp add: qstart_def)
  from qrun.step [OF qrun.start this] have r1: "qrun r N [Silent] ?s1" by simp
  have "qstep r ?s1 Silent ?s2" by (rule get_lock) (simp_all add: qstart_def cas_def)
  from qrun.step [OF r1 this] have r2: "qrun r N [Silent, Silent] ?s2" by simp
  have "qstep r ?s2 Silent ?s3" by (rule get_head) (simp_all add: qstart_def)
  from qrun.step [OF r2 this] have r3: "qrun r N [Silent, Silent, Silent] ?s3" by simp
  have "enqueued [Silent, Silent, Silent] = dequeued [Silent, Silent, Silent] \<or>
    (\<exists>n u. enqueued [Silent, Silent, Silent] = dequeued [Silent, Silent, Silent] @ [n]
      \<and> u \<noteq> 5 \<and> held (q_pcs ?s3 u) = Some (Divider r))"
    by (rule queue_conc_null_means_empty [OF r3]) (simp_all add: qstart_def)
  moreover have "q_pcs ?s3 5 = GetNext (Divider r)" by simp
  ultimately have "qrun r N [Silent, Silent, Silent] ?s3 \<and> q_pcs ?s3 5 = GetNext (Divider r)
      \<and> enqueued [Silent, Silent, Silent] = dequeued [Silent, Silent, Silent]"
    using r3 by simp
  then show ?thesis unfolding r_def N_def by blast
qed

end
