(* ===== verification/Clock.thy ===== *)
theory Clock
  imports Prelude
begin

section \<open>Time, barriers and small helpers (include/utils.h)\<close>

text \<open>
  \<open>struct timespec\<close> and its conversion to nanoseconds in 64-bit arithmetic, the barrier
  wrapper, \<open>setnonblock\<close>, and \<open>min\<close> of \<open>io.c\<close>. \<open>uniform_rand\<close> is never called and computes in floating
  point; it is not modelled.
\<close>

subsection \<open>Time\<close>

text \<open>The two \<open>long\<close> members; ordered as instants are, seconds first.\<close>

datatype timespec = Timespec (tv_sec: int) (tv_nsec: int)

instantiation timespec :: linorder
begin

definition less_eq_timespec :: "timespec \<Rightarrow> timespec \<Rightarrow> bool" where
  "less_eq_timespec a b \<longleftrightarrow> tv_sec a < tv_sec b \<or> (tv_sec a = tv_sec b \<and> tv_nsec a \<le> tv_nsec b)"

definition less_timespec :: "timespec \<Rightarrow> timespec \<Rightarrow> bool" where
  "less_timespec a b \<longleftrightarrow> tv_sec a < tv_sec b \<or> (tv_sec a = tv_sec b \<and> tv_nsec a < tv_nsec b)"

instance
  by standard
    (auto simp: less_eq_timespec_def less_timespec_def intro: timespec.expand)

end

definition as_nanoseconds :: "timespec \<Rightarrow> u64" where
  "as_nanoseconds ts = of_int (tv_sec ts) * 1000000000 + of_int (tv_nsec ts)"

text \<open>The time of a reading of the monotonic clock.\<close>

definition cur_nanoseconds :: "timespec \<Rightarrow> u64" where
  "cur_nanoseconds ts = as_nanoseconds ts"

text \<open>
  A clock reading as the kernel returns it: nanoseconds normalised, and seconds small
  enough (some 584 years of uptime) for 64 bits of nanoseconds.
\<close>

definition clock_range :: "timespec \<Rightarrow> bool" where
  "clock_range ts \<longleftrightarrow>
     0 \<le> tv_sec ts \<and> tv_sec ts < 18446744073 \<and> 0 \<le> tv_nsec ts \<and> tv_nsec ts < 1000000000"

lemma uint_as_nanoseconds:
  assumes "clock_range ts"
  shows "uint (as_nanoseconds ts) = tv_sec ts * 1000000000 + tv_nsec ts"
proof -
  have "as_nanoseconds ts = word_of_int (tv_sec ts * 1000000000 + tv_nsec ts)"
    by (simp add: as_nanoseconds_def)
  then have "uint (as_nanoseconds ts) = (tv_sec ts * 1000000000 + tv_nsec ts) mod 2 ^ 64"
    by (simp only: uint_word_of_int) simp
  also have "\<dots> = tv_sec ts * 1000000000 + tv_nsec ts"
    using assms by (intro mod_pos_pos_trivial) (auto simp: clock_range_def)
  finally show ?thesis .
qed

lemma as_nanoseconds_le:
  assumes "clock_range a" and "clock_range b"
  shows "as_nanoseconds a \<le> as_nanoseconds b \<longleftrightarrow> a \<le> b"
  using assms unfolding word_le_def uint_as_nanoseconds [OF assms(1)] uint_as_nanoseconds [OF assms(2)]
    less_eq_timespec_def clock_range_def by auto

lemma as_nanoseconds_sub:
  assumes "clock_range a" and "clock_range b" and "a \<le> b"
  shows "uint (as_nanoseconds b - as_nanoseconds a) =
    (tv_sec b - tv_sec a) * 1000000000 + (tv_nsec b - tv_nsec a)"
proof -
  have "uint (as_nanoseconds a) \<le> uint (as_nanoseconds b)"
    using as_nanoseconds_le [OF assms(1,2)] assms(3) by (simp add: word_le_def)
  then show ?thesis
    using uint_as_nanoseconds [OF assms(1)] uint_as_nanoseconds [OF assms(2)] by (simp add: uint_sub_if')
qed

text \<open>C23 (bounds): on clock readings the conversion to nanoseconds does not wrap, keeps the
  order of instants exactly, and the 64-bit difference of two readings is the elapsed
  time.\<close>

theorem as_nanoseconds_exact:
  assumes "clock_range a" and "clock_range b"
  shows "(as_nanoseconds a \<le> as_nanoseconds b \<longleftrightarrow> a \<le> b)
    \<and> (a \<le> b \<longrightarrow> uint (as_nanoseconds b - as_nanoseconds a) =
         (tv_sec b - tv_sec a) * 1000000000 + (tv_nsec b - tv_nsec a))"
  using as_nanoseconds_le [OF assms] as_nanoseconds_sub [OF assms] by blast

theorem as_nanoseconds_exact_witness:
  "uint (as_nanoseconds (Timespec 5 1) - as_nanoseconds (Timespec 4 999999999)) = 2"
  using as_nanoseconds_exact [of "Timespec 4 999999999" "Timespec 5 1"]
  by (simp add: clock_range_def less_eq_timespec_def)

subsection \<open>Barrier\<close>

text \<open>
  The \<open>init\<close> flag and the number of threads the barrier waits for. What
  \<open>pthread_barrier_init\<close> returned is an argument; a failed \<open>assert\<close> ends the process,
  which is \<open>Fault\<close> here.
\<close>

record barrier_t =
  bar_init :: int
  bar_count :: int

definition barrier_init :: "int \<Rightarrow> barrier_t \<Rightarrow> int \<Rightarrow> (int \<times> barrier_t) res" where
  "barrier_init pthread_ret bar n =
     (if bar_init bar \<noteq> 0 then Inl Fault
      else if pthread_ret \<noteq> 0 then Inr (-1, bar)
      else Inr (0, bar\<lparr>bar_count := n, bar_init := 1\<rparr>))"

text \<open>Whether \<open>pthread_barrier_destroy\<close> is called; the flag is left set.\<close>

definition barrier_destroy :: "barrier_t \<Rightarrow> bool" where
  "barrier_destroy bar \<longleftrightarrow> bar_init bar \<noteq> 0"

subsection \<open>Non-blocking sockets\<close>

text \<open>
  \<open>setnonblock\<close> with the results of its two \<open>fcntl\<close> calls given by the environment: the
  flags read, and what setting the new flags returns.
\<close>

definition O_NONBLOCK :: u32 where
  "O_NONBLOCK = 2048"

definition setnonblock :: "int \<Rightarrow> (u32 \<Rightarrow> int) \<Rightarrow> int" where
  "setnonblock getfl setfl = (if getfl = -1 then -1 else setfl (of_int getfl OR O_NONBLOCK))"

subsection \<open>Minimum\<close>

text \<open>The \<open>min\<close> macro at the type of its only uses: a \<open>size_t\<close> and an \<open>unsigned int\<close>.\<close>

definition min_size :: "u64 \<Rightarrow> u32 \<Rightarrow> u64" where
  "min_size a b = (if a > ucast b then ucast b else a)"

lemma min_size_le1: "min_size a b \<le> a"
  by (auto simp: min_size_def)

lemma unat_min_size: "unat (min_size a b) = min (unat a) (unat b)"
  by (auto simp: min_size_def word_less_nat_alt unat_ucast_u32)

lemma min_size_pos: "0 < unat a \<Longrightarrow> 0 < unat b \<Longrightarrow> 0 < unat (min_size a b)"
  by (simp add: unat_min_size)

end
