(* ===== verification/Sysinface.thy ===== *)
theory Sysinface
  imports Clock
begin

section \<open>System calls and the kernel-call gate (src/server/io/sysinface.c, kerncall.c)\<close>

text \<open>
  The server's IO code does not use the C library's wrappers: it enters the kernel by the
  \<open>syscall\<close> instruction, or, when it runs at privilege level 0, by a call through
  \<open>kerncall_gate\<close>, and turns a negative result into -1 and \<open>errno\<close> itself.

  The kernel is not part of the repository. It is the parameter \<open>k\<close>: what the two ways in
  do to the world, of any type, and what the code segment register holds.
\<close>

subsection \<open>Requests and results\<close>

text \<open>The \<open>data\<close> union of an epoll event: a connection pointer, NULL, or a descriptor.\<close>

datatype epoll_data = DataPtr nat | DataNull | DataFd int

record epoll_event =
  ev_events :: u32
  ev_data :: epoll_data

text \<open>
  One constructor per system call the code makes, with the arguments that matter. A buffer
  to be sent is its bytes; a buffer to be filled is its length, and its contents are in
  the result.
\<close>

datatype sysreq =
    SysAccept int int
  | SysRecvfrom int nat int
  | SysSendto int "byte list" int
  | SysClose int
  | SysEpollCreate1 int
  | SysEpollCtl int int int epoll_event
  | SysEpollWait int nat int
  | SysIoctl int nat nat

record sysres =
  sr_ret :: int
  sr_bytes :: "byte list"
  sr_events :: "epoll_event list"

record 'w kernel =
  k_syscall :: "sysreq \<Rightarrow> 'w \<Rightarrow> sysres \<times> 'w"
  k_gate :: "sysreq \<Rightarrow> 'w \<Rightarrow> sysres \<times> 'w"
  k_cs :: "'w \<Rightarrow> u64"

text \<open>Constants of the Linux headers that the code names.\<close>

definition EINTR :: int where "EINTR = 4"
definition EAGAIN :: int where "EAGAIN = 11"
definition EPOLLIN :: u32 where "EPOLLIN = 1"
definition EPOLLOUT :: u32 where "EPOLLOUT = 4"
definition EPOLLERR :: u32 where "EPOLLERR = 8"
definition EPOLL_CTL_ADD :: int where "EPOLL_CTL_ADD = 1"
definition EPOLL_CTL_DEL :: int where "EPOLL_CTL_DEL = 2"
definition EPOLL_CTL_MOD :: int where "EPOLL_CTL_MOD = 3"
definition SOCK_NONBLOCK :: int where "SOCK_NONBLOCK = 2048"
definition MSG_DONTWAIT :: int where "MSG_DONTWAIT = 64"

lemmas linux_consts =
  EINTR_def EAGAIN_def EPOLLIN_def EPOLLOUT_def EPOLLERR_def
  EPOLL_CTL_ADD_def EPOLL_CTL_DEL_def EPOLL_CTL_MOD_def SOCK_NONBLOCK_def MSG_DONTWAIT_def

subsection \<open>Entering the kernel\<close>

definition get_cpl :: "'w kernel \<Rightarrow> 'w \<Rightarrow> u64" where
  "get_cpl k w = k_cs k w AND 3"

definition can_use_call :: "'w kernel \<Rightarrow> 'w \<Rightarrow> bool" where
  "can_use_call k w \<longleftrightarrow> get_cpl k w = 0"

text \<open>\<open>SYSCALL_RETURN\<close>: the result, and the value of \<open>errno\<close> afterwards.\<close>

definition SYSCALL_RETURN :: "int \<Rightarrow> int \<Rightarrow> int \<times> int" where
  "SYSCALL_RETURN ret err = (if ret < 0 then (-1, - ret) else (ret, err))"

text \<open>
  \<open>Z_syscall0\<close> to \<open>Z_syscall6\<close> differ only in the number of registers they load; the
  arguments are in the request. The calling thread's \<open>errno\<close> goes in and comes out.
\<close>

definition Z_syscall :: "'w kernel \<Rightarrow> sysreq \<Rightarrow> int \<Rightarrow> 'w \<Rightarrow> sysres \<times> int \<times> 'w" where
  "Z_syscall k req err w =
     (let (r, w) = (if \<not> can_use_call k w then k_syscall k req w else k_gate k req w);
          (ret, err) = SYSCALL_RETURN (sr_ret r) err
      in (r\<lparr>sr_ret := ret\<rparr>, err, w))"

text \<open>
  The wrappers. \<open>Z_accept4\<close> makes the system call \<open>accept\<close>, not \<open>accept4\<close>, which takes no
  flags (\<open>Z_accept4_ignores_flags\<close> below).
\<close>

definition Z_accept4 :: "'w kernel \<Rightarrow> int \<Rightarrow> int \<Rightarrow> int \<Rightarrow> 'w \<Rightarrow> sysres \<times> int \<times> 'w" where
  "Z_accept4 k sockfd flags = Z_syscall k (SysAccept sockfd flags)"

definition Z_recv :: "'w kernel \<Rightarrow> int \<Rightarrow> nat \<Rightarrow> int \<Rightarrow> int \<Rightarrow> 'w \<Rightarrow> sysres \<times> int \<times> 'w" where
  "Z_recv k sockfd len flags = Z_syscall k (SysRecvfrom sockfd len flags)"

definition Z_send :: "'w kernel \<Rightarrow> int \<Rightarrow> byte list \<Rightarrow> int \<Rightarrow> int \<Rightarrow> 'w \<Rightarrow> sysres \<times> int \<times> 'w" where
  "Z_send k sockfd buf flags = Z_syscall k (SysSendto sockfd buf flags)"

definition Z_close :: "'w kernel \<Rightarrow> int \<Rightarrow> int \<Rightarrow> 'w \<Rightarrow> sysres \<times> int \<times> 'w" where
  "Z_close k fd = Z_syscall k (SysClose fd)"

definition Z_epoll_create1 :: "'w kernel \<Rightarrow> int \<Rightarrow> int \<Rightarrow> 'w \<Rightarrow> sysres \<times> int \<times> 'w" where
  "Z_epoll_create1 k fl = Z_syscall k (SysEpollCreate1 fl)"

definition Z_epoll_ctl ::
  "'w kernel \<Rightarrow> int \<Rightarrow> int \<Rightarrow> int \<Rightarrow> epoll_event \<Rightarrow> int \<Rightarrow> 'w \<Rightarrow> sysres \<times> int \<times> 'w" where
  "Z_epoll_ctl k epfd op fd ev = Z_syscall k (SysEpollCtl epfd op fd ev)"

definition Z_epoll_wait ::
  "'w kernel \<Rightarrow> int \<Rightarrow> nat \<Rightarrow> int \<Rightarrow> int \<Rightarrow> 'w \<Rightarrow> sysres \<times> int \<times> 'w" where
  "Z_epoll_wait k epfd maxevents timeout = Z_syscall k (SysEpollWait epfd maxevents timeout)"

definition Z_ioctl :: "'w kernel \<Rightarrow> int \<Rightarrow> nat \<Rightarrow> nat \<Rightarrow> int \<Rightarrow> 'w \<Rightarrow> sysres \<times> int \<times> 'w" where
  "Z_ioctl k fd request cmd = Z_syscall k (SysIoctl fd request cmd)"

lemmas syscall_defs =
  Z_accept4_def Z_recv_def Z_send_def Z_close_def Z_epoll_create1_def Z_epoll_ctl_def
  Z_epoll_wait_def Z_ioctl_def

subsection \<open>What the server relies on\<close>

text \<open>
  One raw call of the kernel by whichever way the thread has, before \<open>SYSCALL_RETURN\<close>.
\<close>

definition enter :: "'w kernel \<Rightarrow> sysreq \<Rightarrow> 'w \<Rightarrow> sysres \<times> 'w" where
  "enter k req w = (if \<not> can_use_call k w then k_syscall k req w else k_gate k req w)"

lemma Z_syscall_enter:
  "Z_syscall k req err w =
     (case enter k req w of (r, w) \<Rightarrow>
        (r\<lparr>sr_ret := fst (SYSCALL_RETURN (sr_ret r) err)\<rparr>, snd (SYSCALL_RETURN (sr_ret r) err), w))"
  by (simp add: Z_syscall_def enter_def split: prod.splits)

text \<open>
  Documented behaviour of \<open>recvfrom(2)\<close> and \<open>sendto(2)\<close>: a negative result is an error
  number; otherwise it counts the bytes transferred, at most those asked for, and a
  receive has stored exactly that many.
\<close>

definition recv_contract :: "'w kernel \<Rightarrow> bool" where
  "recv_contract k \<longleftrightarrow> (\<forall>fd n flags w r w'. enter k (SysRecvfrom fd n flags) w = (r, w') \<longrightarrow>
     sr_ret r \<le> int n \<and> (0 \<le> sr_ret r \<longrightarrow> int (length (sr_bytes r)) = sr_ret r))"

definition send_contract :: "'w kernel \<Rightarrow> bool" where
  "send_contract k \<longleftrightarrow> (\<forall>fd bs flags w r w'. enter k (SysSendto fd bs flags) w = (r, w') \<longrightarrow>
     sr_ret r \<le> int (length bs))"

lemma recv_contractD:
  assumes "recv_contract k" and "Z_recv k fd n flags err w = (r, err', w')"
  shows "-1 \<le> sr_ret r" "sr_ret r \<le> int n"
    "0 \<le> sr_ret r \<Longrightarrow> int (length (sr_bytes r)) = sr_ret r"
  using assms
  by (fastforce simp: recv_contract_def Z_recv_def Z_syscall_enter SYSCALL_RETURN_def
      split: prod.splits if_splits)+

lemma send_contractD:
  assumes "send_contract k" and "Z_send k fd bs flags err w = (r, err', w')"
  shows "-1 \<le> sr_ret r" "sr_ret r \<le> int (length bs)"
  using assms
  by (fastforce simp: send_contract_def Z_send_def Z_syscall_enter SYSCALL_RETURN_def
      split: prod.splits if_splits)+

subsection \<open>Running a worker in the kernel (kerncall.c)\<close>

text \<open>
  \<open>kerncall_setup\<close> opens the control file, asks for the address of the gate, closes the
  file and records that the gate is available. What \<open>open\<close>, the \<open>ioctl\<close> (with the gate
  address it stores) and \<open>close\<close> do is given by the environment.
\<close>

record kerncall_globals =
  kerncall_gate :: nat
  kerncall_avail :: int

definition kerncall_init :: kerncall_globals where
  "kerncall_init = \<lparr>kerncall_gate = 0, kerncall_avail = 0\<rparr>"

definition kerncall_setup :: "int \<Rightarrow> int \<Rightarrow> nat \<Rightarrow> kerncall_globals \<Rightarrow> int \<times> kerncall_globals" where
  "kerncall_setup open_ret ioctl_ret kern_gate g =
     (if open_ret < 0 then (-1, g)
      else if ioctl_ret \<noteq> 0 then (ioctl_ret, g)
      else (0, g\<lparr>kerncall_gate := kern_gate, kerncall_avail := 1\<rparr>))"

text \<open>
  \<open>kerncall_spawn\<close> opens the control file once per thread (\<open>kerncall_fd\<close> is -2 before the
  first call) and has the kernel run \<open>kerncall_entrypoint\<close>. \<open>open_ret\<close> is what \<open>open\<close>
  returns, \<open>spawn_err\<close> what the \<open>ioctl\<close> returns when it fails and 0 when it runs the entry
  point. The entry point is declared to return \<open>int\<close>: its result is cut to 32 bits and
  sign-extended into the \<open>unsigned long\<close> that the caller gets as a \<open>long\<close>.
\<close>

definition kerncall_entrypoint :: "('s \<Rightarrow> (int \<times> 's) res) \<Rightarrow> 's \<Rightarrow> (int \<times> 's) res" where
  "kerncall_entrypoint entry s =
     bind_res (entry s) (\<lambda>(ret, s). Inr (sint (word_of_int ret :: u32), s))"

definition kerncall_spawn ::
  "int \<Rightarrow> int \<Rightarrow> ('s \<Rightarrow> (int \<times> 's) res) \<Rightarrow> int \<Rightarrow> 's \<Rightarrow> (int \<times> int \<times> 's) res" where
  "kerncall_spawn open_ret spawn_err entry kerncall_fd s =
     (let kerncall_fd = (if kerncall_fd = -2 then open_ret else kerncall_fd) in
      if kerncall_fd = -1 then Inr (-1, kerncall_fd, s)
      else if spawn_err \<noteq> 0 then Inr (spawn_err, kerncall_fd, s)
      else bind_res (kerncall_entrypoint entry s) (\<lambda>(ret, s). Inr (ret, kerncall_fd, s)))"

text \<open>\<open>KERNCALL_COND\<close> of \<open>include/server.h\<close>.\<close>

definition KERNCALL_COND :: "kerncall_globals \<Rightarrow> u32 \<Rightarrow> u32 \<Rightarrow> bool" where
  "KERNCALL_COND g global local \<longleftrightarrow>
     kerncall_avail g \<noteq> 0 \<and> (global \<noteq> 0 \<or> local \<noteq> 0)"

subsection \<open>Properties\<close>

text \<open>
  The flags of \<open>Z_accept4\<close> reach no kernel that takes \<open>accept\<close>'s three arguments: the
  sessions are not made non-blocking by the call.
\<close>

lemma Z_accept4_ignores_flags:
  assumes "\<And>fd f f' w. enter k (SysAccept fd f) w = enter k (SysAccept fd f') w"
  shows "Z_accept4 k fd SOCK_NONBLOCK err w = Z_accept4 k fd 0 err w"
  by (simp add: Z_accept4_def Z_syscall_enter assms [of fd SOCK_NONBLOCK w 0])



end
