(* ===== verification/Server_State.thy ===== *)
theory Server_State
  imports Queue Sysinface
begin

section \<open>Messages and the server's state (include/rpc.h, include/server.h)\<close>

text \<open>
  The records of the server, one field per member, and the state every handler of the
  server takes and returns: the context, the memory of connections, buffers and queues,
  the calling thread's \<open>errno\<close>, and the world outside.
\<close>

subsection \<open>Message layout\<close>

text \<open>
  A \<open>message_t\<close> is its bytes: the request (a 4-byte id and 1020 bytes of data), then the
  response (a 4-byte id and a 20-byte SHA-1 digest). The server moves both over the
  socket by a byte pointer, which is an offset into these bytes.
\<close>

definition REQUEST_LENGTH :: nat where "REQUEST_LENGTH = 1020"
definition SHA_DIGEST_LENGTH :: nat where "SHA_DIGEST_LENGTH = 20"
definition sizeof_request :: nat where "sizeof_request = 4 + REQUEST_LENGTH"
definition sizeof_response :: nat where "sizeof_response = 4 + SHA_DIGEST_LENGTH"
definition sizeof_message :: nat where "sizeof_message = sizeof_request + sizeof_response"
definition req_off :: nat where "req_off = 0"
definition res_off :: nat where "res_off = sizeof_request"

lemma layout [simp]:
  "REQUEST_LENGTH = 1020" "SHA_DIGEST_LENGTH = 20" "sizeof_request = 1024"
  "sizeof_response = 24" "sizeof_message = 1048" "req_off = 0" "res_off = 1024"
  by (simp_all add: REQUEST_LENGTH_def SHA_DIGEST_LENGTH_def sizeof_request_def
      sizeof_response_def sizeof_message_def req_off_def res_off_def)

definition req_id :: "byte list \<Rightarrow> byte list" where
  "req_id m = take 4 (drop req_off m)"

definition req_data :: "byte list \<Rightarrow> byte list" where
  "req_data m = take REQUEST_LENGTH (drop (req_off + 4) m)"

definition res_id :: "byte list \<Rightarrow> byte list" where
  "res_id m = take 4 (drop res_off m)"

definition res_sha :: "byte list \<Rightarrow> byte list" where
  "res_sha m = take SHA_DIGEST_LENGTH (drop (res_off + 4) m)"

definition req_bytes :: "byte list \<Rightarrow> byte list" where
  "req_bytes m = take sizeof_request (drop req_off m)"

definition res_bytes :: "byte list \<Rightarrow> byte list" where
  "res_bytes m = take sizeof_response (drop res_off m)"

subsection \<open>Configuration and context\<close>

text \<open>The nested anonymous structs of the configuration are flattened.\<close>

record server_config_t =
  socket_path :: "byte list"
  compute_dur :: u32
  max_io_size :: u32
  readahead :: u32
  threads_io :: u32
  threads_accept :: u32
  threads_submit :: u32
  threads_compute :: u32
  alloc_sessions :: u32
  alloc_buffers :: u32
  kerncall_global :: u32
  kerncall_io :: u32
  kerncall_accept :: u32
  kerncall_submit :: u32

definition SERVER_MAX_THREADS :: nat where "SERVER_MAX_THREADS = 128"
definition MAX_EVENTS :: nat where "MAX_EVENTS = 10"

record server_queues_t =
  empty_connections :: "root_id option"
  empty_buffers :: "root_id option"
  compute_inbox :: "root_id option list"
  submitter_inbox :: "root_id option list"

record server_io_t =
  listen_fd :: int
  nr_io :: u64
  epoll_fds :: "int list"
  next_session :: int

subsection \<open>Buffers and connections\<close>

text \<open>
  The member \<open>q\<close> of a buffer \<open>b\<close> is the node \<open>BufQ b\<close>, that of a connection \<open>c\<close> is
  \<open>ConnQ c\<close>, and the \<open>send_queue\<close> of \<open>c\<close> is the root \<open>RSend c\<close>, all in the queue heap.
\<close>

record server_buffer_t =
  msg :: "byte list"
  conn :: "nat option"
  left :: u64
  ptr :: nat

record server_connection_t =
  fd :: int
  closed :: int
  ioidx :: int
  submitidx :: int
  computeidx :: int
  epoll_fd :: int
  epoll_state :: u32
  recvbuf :: "nat option"
  sendbuf :: "nat option"
  received :: u64
  processed :: u64
  sent :: u64
  conn_lock :: lock_t

text \<open>
  The state: \<open>cfg\<close>, \<open>queues\<close>, \<open>io\<close> and \<open>stopping\<close> are the members of the context, the rest
  is memory and world.
\<close>

record 'w srv =
  cfg :: server_config_t
  queues :: server_queues_t
  io :: server_io_t
  stopping :: int
  qh :: qheap
  conns :: "nat \<Rightarrow> server_connection_t"
  bufs :: "nat \<Rightarrow> server_buffer_t"
  errno :: int
  world :: 'w

subsection \<open>Accessors\<close>

definition upd_conn ::
  "nat \<Rightarrow> (server_connection_t \<Rightarrow> server_connection_t) \<Rightarrow> 'w srv \<Rightarrow> 'w srv" where
  "upd_conn c f s = s\<lparr>conns := (conns s)(c := f (conns s c))\<rparr>"

definition upd_buf :: "nat \<Rightarrow> (server_buffer_t \<Rightarrow> server_buffer_t) \<Rightarrow> 'w srv \<Rightarrow> 'w srv" where
  "upd_buf b f s = s\<lparr>bufs := (bufs s)(b := f (bufs s b))\<rparr>"

lemma upd_conn_simps [simp]:
  "conns (upd_conn c f s) = (conns s)(c := f (conns s c))"
  "cfg (upd_conn c f s) = cfg s" "queues (upd_conn c f s) = queues s" "io (upd_conn c f s) = io s"
  "stopping (upd_conn c f s) = stopping s" "qh (upd_conn c f s) = qh s"
  "bufs (upd_conn c f s) = bufs s" "errno (upd_conn c f s) = errno s"
  "world (upd_conn c f s) = world s"
  by (simp_all add: upd_conn_def)

lemma upd_buf_simps [simp]:
  "bufs (upd_buf b g s) = (bufs s)(b := g (bufs s b))"
  "cfg (upd_buf b g s) = cfg s" "queues (upd_buf b g s) = queues s" "io (upd_buf b g s) = io s"
  "stopping (upd_buf b g s) = stopping s" "qh (upd_buf b g s) = qh s"
  "conns (upd_buf b g s) = conns s" "errno (upd_buf b g s) = errno s"
  "world (upd_buf b g s) = world s"
  by (simp_all add: upd_buf_def)

text \<open>Queue operations on a queue the context or a connection points to.\<close>

definition srv_get :: "root_id option \<Rightarrow> 'w srv \<Rightarrow> (link \<times> 'w srv) res" where
  "srv_get rp s = bind_res (deref rp) (\<lambda>r.
     bind_res (queue_get r (qh s)) (\<lambda>(l, h). Inr (l, s\<lparr>qh := h\<rparr>)))"

definition srv_put :: "link \<Rightarrow> root_id option \<Rightarrow> 'w srv \<Rightarrow> 'w srv res" where
  "srv_put l rp s = bind_res (deref rp) (\<lambda>r.
     bind_res (queue_put l r (qh s)) (\<lambda>h. Inr (s\<lparr>qh := h\<rparr>)))"

text \<open>The lock of a connection.\<close>

definition trylock_conn :: "nat \<Rightarrow> 'w srv \<Rightarrow> int \<times> 'w srv" where
  "trylock_conn c s =
     (case trylock (conn_lock (conns s c)) of (got, w) \<Rightarrow>
        (got, upd_conn c (conn_lock_update (\<lambda>_. w)) s))"

definition lock_conn :: "nat \<Rightarrow> 'w srv \<Rightarrow> 'w srv res" where
  "lock_conn c s =
     bind_res (lock (conn_lock (conns s c))) (\<lambda>w. Inr (upd_conn c (conn_lock_update (\<lambda>_. w)) s))"

definition unlock_conn :: "nat \<Rightarrow> 'w srv \<Rightarrow> 'w srv" where
  "unlock_conn c s = upd_conn c (conn_lock_update unlock) s"

text \<open>Running a system call on the state; \<open>errno\<close> is the calling thread's.\<close>

definition sys ::
  "(int \<Rightarrow> 'w \<Rightarrow> sysres \<times> int \<times> 'w) \<Rightarrow> 'w srv \<Rightarrow> sysres \<times> 'w srv" where
  "sys call s =
     (case call (errno s) (world s) of (r, err, w) \<Rightarrow> (r, s\<lparr>errno := err, world := w\<rparr>))"

lemma sys_frame [simp]:
  "cfg (snd (sys call s)) = cfg s" "queues (snd (sys call s)) = queues s"
  "io (snd (sys call s)) = io s" "stopping (snd (sys call s)) = stopping s"
  "qh (snd (sys call s)) = qh s" "conns (snd (sys call s)) = conns s"
  "bufs (snd (sys call s)) = bufs s"
  by (simp_all add: sys_def split: prod.splits)

subsection \<open>Changing the epoll registration (src/server/io/io.h)\<close>

definition epoll_set_conn_state ::
  "'w kernel \<Rightarrow> nat \<Rightarrow> u32 \<Rightarrow> 'w srv \<Rightarrow> int \<times> 'w srv" where
  "epoll_set_conn_state k c new_state s =
     (let old_state = epoll_state (conns s c) in
      if new_state = old_state then (0, s)
      else
        let op = (if new_state = 0 then EPOLL_CTL_DEL
                  else if old_state = 0 then EPOLL_CTL_ADD else EPOLL_CTL_MOD);
            evt = \<lparr>ev_events = new_state, ev_data = DataPtr c\<rparr>;
            s = upd_conn c (epoll_state_update (\<lambda>_. new_state)) s;
            (r, s) = sys (Z_epoll_ctl k (epoll_fd (conns s c)) op (fd (conns s c)) evt) s
        in (sr_ret r, s))"

lemma epoll_set_conn_state_frame [simp]:
  "cfg (snd (epoll_set_conn_state k c st s)) = cfg s"
  "queues (snd (epoll_set_conn_state k c st s)) = queues s"
  "io (snd (epoll_set_conn_state k c st s)) = io s"
  "stopping (snd (epoll_set_conn_state k c st s)) = stopping s"
  "qh (snd (epoll_set_conn_state k c st s)) = qh s"
  "bufs (snd (epoll_set_conn_state k c st s)) = bufs s"
  by (simp_all add: epoll_set_conn_state_def Let_def split_beta)

lemma epoll_set_conn_state_conns [simp]:
  "conns (snd (epoll_set_conn_state k c st s)) =
     (conns s)(c := (conns s c)\<lparr>epoll_state := st\<rparr>)"
  by (auto simp: epoll_set_conn_state_def Let_def split_beta)

end
