(* ===== verification/Io.thy ===== *)
theory Io
  imports Server_State
begin

section \<open>The IO worker (src/server/io/io.c)\<close>

text \<open>
  Receiving requests, sending responses, tearing a connection down, and the event loop.
  Each endless loop of the code is one round, repeated by \<open>loop_res\<close>; the fuel \<open>n\<close> of a
  handler bounds its own loop and the drain loop of \<open>finish_connection\<close>. A handler
  returns the C result and the new state.
\<close>

subsection \<open>finish_connection\<close>

text \<open>Drain the send queue into the pool of empty buffers, counting each as sent.\<close>

definition drain_round :: "nat \<Rightarrow> 'w srv \<Rightarrow> (unit option \<times> 'w srv) res" where
  "drain_round c s =
     bind_res (srv_get (Some (RSend c)) s) (\<lambda>(q, s).
       if q = Null then Inr (Some (), s)
       else
         let s = upd_conn c (sent_update (\<lambda>x. x + 1)) s in
         bind_res (srv_put q (empty_buffers (queues s)) s) (\<lambda>s. Inr (None, s)))"

text \<open>\<open>if (p) queue_put(&p->q, ctx->queues.empty_buffers)\<close>\<close>

definition release_buffer :: "nat option \<Rightarrow> 'w srv \<Rightarrow> 'w srv res" where
  "release_buffer p s =
     (case p of None \<Rightarrow> Inr s | Some b \<Rightarrow> srv_put (Ptr (BufQ b)) (empty_buffers (queues s)) s)"

definition finish_connection ::
  "nat \<Rightarrow> 'w kernel \<Rightarrow> nat \<Rightarrow> 'w srv \<Rightarrow> (int \<times> 'w srv) res" where
  "finish_connection n k c s =
     (let (got, s) = trylock_conn c s in
      if got = 0 then Inr (0, s)
      else
        bind_res (release_buffer (sendbuf (conns s c)) s) (\<lambda>s.
        bind_res (release_buffer (recvbuf (conns s c)) s) (\<lambda>s.
        let (_, s) = sys (Z_close k (fd (conns s c))) s in
        bind_res (loop_res n (drain_round c) s) (\<lambda>(_, s).
        let s = upd_conn c (closed_update (\<lambda>_. 1)) s in
        if sent (conns s c) = received (conns s c) then
          bind_res (srv_put (Ptr (ConnQ c)) (empty_connections (queues s)) s) (\<lambda>s. Inr (0, s))
        else Inr (0, unlock_conn c s)))))"

subsection \<open>handle_request\<close>

text \<open>
  The first half of a round: the buffer being filled, a new one if there is none, or
  \<open>None\<close> where the handler returns 0 (too many requests in progress, no buffer left).
\<close>

definition request_buffer :: "nat \<Rightarrow> 'w srv \<Rightarrow> (nat option \<times> 'w srv) res" where
  "request_buffer c s =
     (case recvbuf (conns s c) of
        Some b \<Rightarrow> Inr (Some b, s)
      | None \<Rightarrow>
          if received (conns s c) - sent (conns s c) > ucast (readahead (cfg s))
          then Inr (None, s)
          else
            bind_res (srv_get (empty_buffers (queues s)) s) (\<lambda>(q, s).
            if q = Null then Inr (None, s)
            else
              bind_res (container_of_buffer q) (\<lambda>b.
              let s = upd_buf b (\<lambda>x. x\<lparr>conn := Some c, left := of_nat sizeof_request,
                                      ptr := req_off\<rparr>) s;
                  s = upd_conn c (recvbuf_update (\<lambda>_. Some b)) s
              in Inr (Some b, s))))"

text \<open>\<open>recv\<close> into a buffer: the kernel stores the bytes at the buffer's pointer.\<close>

definition recv_into :: "'w kernel \<Rightarrow> nat \<Rightarrow> nat \<Rightarrow> u64 \<Rightarrow> 'w srv \<Rightarrow> (int \<times> 'w srv) res" where
  "recv_into k c b io_size s =
     (let (r, s) = sys (Z_recv k (fd (conns s c)) (unat io_size) MSG_DONTWAIT) s in
      if sr_ret r < 0 then Inr (sr_ret r, s)
      else
        bind_res (store_bytes (ptr (bufs s b)) (sr_bytes r) (msg (bufs s b))) (\<lambda>m.
          Inr (sr_ret r, upd_buf b (msg_update (\<lambda>_. m)) s)))"

text \<open>A request is complete: hand the buffer to the connection's compute thread.\<close>

definition request_complete :: "nat \<Rightarrow> nat \<Rightarrow> 'w srv \<Rightarrow> 'w srv res" where
  "request_complete c b s =
     bind_res (lock_conn c s) (\<lambda>s.
     let s = upd_conn c (\<lambda>x. x\<lparr>received := received x + 1, recvbuf := None\<rparr>) s in
     bind_res (index_res (compute_inbox (queues s)) (nat (computeidx (conns s c)))) (\<lambda>inbox.
     bind_res (srv_put (Ptr (BufQ b)) inbox s) (\<lambda>s.
     Inr (unlock_conn c s))))"

definition handle_request_round ::
  "nat \<Rightarrow> 'w kernel \<Rightarrow> nat \<Rightarrow> 'w srv \<Rightarrow> (int option \<times> 'w srv) res" where
  "handle_request_round n k c s =
     bind_res (request_buffer c s) (\<lambda>(buff, s).
     case buff of
       None \<Rightarrow> Inr (Some 0, s)
     | Some b \<Rightarrow>
         let io_size = min_size (left (bufs s b)) (max_io_size (cfg s)) in
         bind_res (recv_into k c b io_size s) (\<lambda>(len, s).
         if len = -1 \<and> errno s = EAGAIN then Inr (Some 0, s)
         else if len \<le> 0 then
           bind_res (finish_connection n k c s) (\<lambda>(r, s). Inr (Some r, s))
         else
           let s = upd_buf b (\<lambda>x. x\<lparr>left := left x - of_int len, ptr := ptr x + nat len\<rparr>) s in
           if left (bufs s b) = 0
           then bind_res (request_complete c b s) (\<lambda>s. Inr (None, s))
           else Inr (None, s)))"

definition handle_request :: "nat \<Rightarrow> 'w kernel \<Rightarrow> nat \<Rightarrow> 'w srv \<Rightarrow> (int \<times> 'w srv) res" where
  "handle_request n k c s = loop_res n (handle_request_round n k c) s"

subsection \<open>handle_response\<close>

text \<open>The response being sent, or the next one of the send queue, if any.\<close>

definition response_buffer :: "nat \<Rightarrow> 'w srv \<Rightarrow> (nat option \<times> 'w srv) res" where
  "response_buffer c s =
     (case sendbuf (conns s c) of
        Some b \<Rightarrow> Inr (Some b, s)
      | None \<Rightarrow>
          bind_res (srv_get (Some (RSend c)) s) (\<lambda>(q, s).
          if q = Null then Inr (None, s)
          else
            bind_res (container_of_buffer q) (\<lambda>b.
            let s = upd_buf b (\<lambda>x. x\<lparr>conn := Some c, left := of_nat sizeof_response,
                                    ptr := res_off\<rparr>) s;
                s = upd_conn c (sendbuf_update (\<lambda>_. Some b)) s
            in Inr (Some b, s))))"

definition send_from :: "'w kernel \<Rightarrow> nat \<Rightarrow> nat \<Rightarrow> u64 \<Rightarrow> 'w srv \<Rightarrow> (int \<times> 'w srv) res" where
  "send_from k c b io_size s =
     bind_res (load_bytes (ptr (bufs s b)) (unat io_size) (msg (bufs s b))) (\<lambda>bs.
     let (r, s) = sys (Z_send k (fd (conns s c)) bs MSG_DONTWAIT) s in Inr (sr_ret r, s))"

text \<open>
  A response is complete: free the buffer, and stop asking for output events when nothing
  is left to send.
\<close>

definition response_complete :: "'w kernel \<Rightarrow> nat \<Rightarrow> nat \<Rightarrow> 'w srv \<Rightarrow> (int \<times> 'w srv) res" where
  "response_complete k c b s =
     (let s = upd_conn c (\<lambda>x. x\<lparr>sent := sent x + 1, sendbuf := None\<rparr>) s in
      bind_res (srv_put (Ptr (BufQ b)) (empty_buffers (queues s)) s) (\<lambda>s.
      bind_res (lock_conn c s) (\<lambda>s.
      let (err, s) =
        (if processed (conns s c) = sent (conns s c)
         then epoll_set_conn_state k c (epoll_state (conns s c) AND NOT EPOLLOUT) s
         else (0, s))
      in Inr (err, unlock_conn c s))))"

definition handle_response_round ::
  "nat \<Rightarrow> 'w kernel \<Rightarrow> nat \<Rightarrow> 'w srv \<Rightarrow> (int option \<times> 'w srv) res" where
  "handle_response_round n k c s =
     bind_res (response_buffer c s) (\<lambda>(buff, s).
     case buff of
       None \<Rightarrow> Inr (Some 0, s)
     | Some b \<Rightarrow>
         let io_size = min_size (left (bufs s b)) (max_io_size (cfg s)) in
         bind_res (send_from k c b io_size s) (\<lambda>(len, s).
         if len = -1 then
           (if errno s = EAGAIN then Inr (Some 0, s)
            else bind_res (finish_connection n k c s) (\<lambda>(r, s). Inr (Some r, s)))
         else
           let s = upd_buf b (\<lambda>x. x\<lparr>left := left x - of_int len, ptr := ptr x + nat len\<rparr>) s in
           if of_int len < io_size then Inr (Some 0, s)
           else if left (bufs s b) \<noteq> 0 then Inr (None, s)
           else
             bind_res (response_complete k c b s) (\<lambda>(err, s).
               if err \<noteq> 0 then Inr (Some err, s) else Inr (None, s))))"

definition handle_response :: "nat \<Rightarrow> 'w kernel \<Rightarrow> nat \<Rightarrow> 'w srv \<Rightarrow> (int \<times> 'w srv) res" where
  "handle_response n k c s = loop_res n (handle_response_round n k c) s"

subsection \<open>The event loop\<close>

text \<open>
  One event. \<open>Some v\<close> where \<open>__io_worker\<close> returns \<open>v\<close>; an error of a handler only skips the
  rest of the event.
\<close>

definition io_event ::
  "nat \<Rightarrow> 'w kernel \<Rightarrow> epoll_event \<Rightarrow> 'w srv \<Rightarrow> (int option \<times> 'w srv) res" where
  "io_event n k ev s =
     (case ev_data ev of
        DataNull \<Rightarrow> Inr (Some (-1), s)
      | DataFd f \<Rightarrow> Inl Fault
      | DataPtr c \<Rightarrow>
          if ev_events ev AND EPOLLERR \<noteq> 0 then
            bind_res (finish_connection n k c s) (\<lambda>(_, s). Inr (None, s))
          else
            bind_res (if ev_events ev AND EPOLLOUT \<noteq> 0 then handle_response n k c s
                      else Inr (0, s)) (\<lambda>(r, s).
            if r \<noteq> 0 then Inr (None, s)
            else if ev_events ev AND EPOLLIN \<noteq> 0 then
              bind_res (handle_request n k c s) (\<lambda>(_, s). Inr (None, s))
            else Inr (None, s)))"

fun io_events ::
  "nat \<Rightarrow> 'w kernel \<Rightarrow> epoll_event list \<Rightarrow> 'w srv \<Rightarrow> (int option \<times> 'w srv) res" where
  "io_events n k [] s = Inr (None, s)"
| "io_events n k (ev # evs) s =
     bind_res (io_event n k ev s) (\<lambda>(out, s).
       case out of None \<Rightarrow> io_events n k evs s | Some v \<Rightarrow> Inr (Some v, s))"

text \<open>
  One round of \<open>__io_worker\<close> on \<open>(iter, s)\<close>; the loop runs while \<open>iter++ < 1000\<close> and nobody
  asked to stop. The events an \<open>epoll_wait\<close> returned are the first \<open>nevents\<close> it stored.
\<close>

definition io_worker_round ::
  "nat \<Rightarrow> 'w kernel \<Rightarrow> int \<Rightarrow> nat \<times> 'w srv \<Rightarrow> (int option \<times> nat \<times> 'w srv) res" where
  "io_worker_round n k epollfd = (\<lambda>(iter, s).
     if \<not> (stopping s = 0 \<and> iter < 1000) then Inr (Some 0, iter, s)
     else
       let (r, s) = sys (Z_epoll_wait k epollfd MAX_EVENTS 1000) s; nevents = sr_ret r in
       if nevents = -1 then
         (if errno s = EINTR
          then (if stopping s \<noteq> 0 then Inr (Some 0, Suc iter, s) else Inr (None, Suc iter, s))
          else Inr (Some (-1), Suc iter, s))
       else if nevents = 0 then Inr (Some 0, Suc iter, s)
       else
         bind_res (io_events n k (take (nat nevents) (sr_events r)) s) (\<lambda>(out, s).
           Inr (out, Suc iter, s)))"

definition io_worker_body ::
  "nat \<Rightarrow> 'w kernel \<Rightarrow> nat \<Rightarrow> 'w srv \<Rightarrow> (int \<times> 'w srv) res" where
  "io_worker_body n k current s =
     bind_res (index_res (epoll_fds (io s)) current) (\<lambda>epollfd.
     bind_res (loop_res 1001 (io_worker_round n k epollfd) (0, s)) (\<lambda>(r, _, s). Inr (r, s)))"

text \<open>
  \<open>io_worker\<close>: the body is run again, in the kernel or directly, until it fails or the
  server stops. \<open>open_ret\<close> and \<open>spawn_err\<close> are those of \<open>kerncall_spawn\<close>; the thread's
  \<open>kerncall_fd\<close> is part of the loop state.
\<close>

definition io_worker_outer ::
  "nat \<Rightarrow> 'w kernel \<Rightarrow> kerncall_globals \<Rightarrow> int \<Rightarrow> int \<Rightarrow> nat \<Rightarrow> int \<times> int \<times> 'w srv
    \<Rightarrow> (int option \<times> int \<times> int \<times> 'w srv) res" where
  "io_worker_outer n k g open_ret spawn_err current = (\<lambda>(ret, kfd, s).
     if \<not> (stopping s = 0 \<and> ret = 0) then Inr (Some ret, ret, kfd, s)
     else if KERNCALL_COND g (kerncall_global (cfg s)) (kerncall_io (cfg s)) then
       bind_res (kerncall_spawn open_ret spawn_err (io_worker_body n k current) kfd s)
         (\<lambda>(ret, kfd, s). Inr (None, ret, kfd, s))
     else
       bind_res (io_worker_body n k current s) (\<lambda>(ret, s). Inr (None, ret, kfd, s)))"

definition io_worker ::
  "nat \<Rightarrow> 'w kernel \<Rightarrow> kerncall_globals \<Rightarrow> int \<Rightarrow> int \<Rightarrow> nat \<Rightarrow> 'w srv \<Rightarrow> (int \<times> 'w srv) res" where
  "io_worker n k g open_ret spawn_err current s =
     bind_res (loop_res n (io_worker_outer n k g open_ret spawn_err current) (0, -2, s))
       (\<lambda>(r, _, _, s). Inr (r, s))"

end
