(* ===== verification/Accept.thy ===== *)
theory Accept
  imports Server_State
begin

section \<open>The accept worker (src/server/io/accept.c)\<close>

text \<open>
  A new session takes a connection object from the pool, fills it in and registers its
  socket with an IO thread.
\<close>

text \<open>
  Choosing the threads of a session: \<open>next++ % nr_io\<close>, then the incremented counter modulo
  the numbers of submit and compute threads. Incrementing \<open>INT_MAX\<close> and a modulus of 0 are
  undefined and are faults here.
\<close>

definition assign_threads ::
  "int \<Rightarrow> u64 \<Rightarrow> u32 \<Rightarrow> u32 \<Rightarrow> (int \<times> int \<times> int \<times> int) res" where
  "assign_threads nxt nr n_submit n_compute =
     (if nxt = 2 ^ 31 - 1 \<or> nr = 0 \<or> n_submit = 0 \<or> n_compute = 0 then Inl Fault
      else
        let ioix = uint (of_int nxt mod nr); next' = nxt + 1 in
        Inr (ioix, uint (of_int next' mod n_submit), uint (of_int next' mod n_compute), next'))"

definition handle_accept :: "'w kernel \<Rightarrow> 'w srv \<Rightarrow> (int \<times> 'w srv) res" where
  "handle_accept k s =
     bind_res (srv_get (empty_connections (queues s)) s) (\<lambda>(q, s).
     if q = Null then Inr (0, s)
     else
       let (r, s) = sys (Z_accept4 k (listen_fd (io s)) SOCK_NONBLOCK) s; newfd = sr_ret r in
       if newfd < 0 then Inr (-1, s)
       else
         bind_res (container_of_connection q) (\<lambda>c.
         let s = upd_conn c (\<lambda>x. x\<lparr>processed := 0, received := 0, sent := 0, fd := newfd\<rparr>) s in
         bind_res (assign_threads (next_session (io s)) (nr_io (io s))
             (threads_submit (cfg s)) (threads_compute (cfg s))) (\<lambda>(ioix, subix, compix, next').
         let s = s\<lparr>io := (io s)\<lparr>next_session := next'\<rparr>\<rparr>;
             s = upd_conn c (\<lambda>x. x\<lparr>ioidx := ioix, submitidx := subix, computeidx := compix\<rparr>) s in
         bind_res (index_res (epoll_fds (io s)) (nat ioix)) (\<lambda>efd.
         let s = upd_conn c (epoll_fd_update (\<lambda>_. efd)) s;
             s = s\<lparr>qh := init_queue_root (RSend c) (qh s)\<rparr>;
             s = upd_conn c (\<lambda>x. x\<lparr>recvbuf := None, epoll_state := 0, closed := 0,
                                  conn_lock := lock_init (conn_lock x)\<rparr>) s
         in Inr (epoll_set_conn_state k c EPOLLIN s)))))"

text \<open>One round of \<open>__accept_worker\<close>; one event at a time is asked for.\<close>

definition accept_worker_round ::
  "'w kernel \<Rightarrow> int \<Rightarrow> nat \<times> 'w srv \<Rightarrow> (int option \<times> nat \<times> 'w srv) res" where
  "accept_worker_round k epollfd = (\<lambda>(iter, s).
     if \<not> (stopping s = 0 \<and> iter < 1000) then Inr (Some 0, Suc iter, s)
     else
       let (r, s) = sys (Z_epoll_wait k epollfd 1 1000) s; nevents = sr_ret r in
       if nevents = -1 \<and> errno s \<noteq> EINTR then Inr (Some (-1), Suc iter, s)
       else if nevents = 1 \<and> (case sr_events r of [] \<Rightarrow> False | ev # _ \<Rightarrow> ev_events ev AND EPOLLIN \<noteq> 0) then
         bind_res (handle_accept k s) (\<lambda>(ret, s).
           if ret \<noteq> 0 then Inr (Some (-1), Suc iter, s) else Inr (None, Suc iter, s))
       else if nevents = 0 then Inr (Some 0, Suc iter, s)
       else Inr (None, Suc iter, s))"

definition accept_worker_body :: "'w kernel \<Rightarrow> int \<Rightarrow> 'w srv \<Rightarrow> (int \<times> 'w srv) res" where
  "accept_worker_body k epollfd s =
     bind_res (loop_res 1001 (accept_worker_round k epollfd) (0, s)) (\<lambda>(r, _, s). Inr (r, s))"

definition accept_worker_outer ::
  "'w kernel \<Rightarrow> kerncall_globals \<Rightarrow> int \<Rightarrow> int \<Rightarrow> int \<Rightarrow> int \<times> int \<times> 'w srv
    \<Rightarrow> (int option \<times> int \<times> int \<times> 'w srv) res" where
  "accept_worker_outer k g open_ret spawn_err epollfd = (\<lambda>(ret, kfd, s).
     if \<not> (stopping s = 0 \<and> ret = 0) then Inr (Some ret, ret, kfd, s)
     else if KERNCALL_COND g (kerncall_global (cfg s)) (kerncall_accept (cfg s)) then
       bind_res (kerncall_spawn open_ret spawn_err (accept_worker_body k epollfd) kfd s)
         (\<lambda>(ret, kfd, s). Inr (None, ret, kfd, s))
     else
       bind_res (accept_worker_body k epollfd s) (\<lambda>(ret, s). Inr (None, ret, kfd, s)))"

text \<open>
  \<open>accept_worker\<close>: its own epoll instance on the listening socket, then the loop. The
  \<open>close\<close> at the end is the C library's, which makes the same system call.
\<close>

definition accept_worker ::
  "nat \<Rightarrow> 'w kernel \<Rightarrow> kerncall_globals \<Rightarrow> int \<Rightarrow> int \<Rightarrow> 'w srv \<Rightarrow> (int \<times> 'w srv) res" where
  "accept_worker n k g open_ret spawn_err s =
     (let listenfd = listen_fd (io s);
          (r, s) = sys (Z_epoll_create1 k 0) s; epollfd = sr_ret r in
      if epollfd < 0 then Inr (-1, s)
      else
        let evt = \<lparr>ev_events = EPOLLIN, ev_data = DataFd listenfd\<rparr>;
            (r, s) = sys (Z_epoll_ctl k epollfd EPOLL_CTL_ADD listenfd evt) s; ret = sr_ret r in
        bind_res
          (if ret \<noteq> 0 then Inr (ret, s)
           else
             bind_res (loop_res n (accept_worker_outer k g open_ret spawn_err epollfd) (0, -2, s))
               (\<lambda>(ret, _, _, s). Inr (ret, s)))
          (\<lambda>(ret, s). let (_, s) = sys (Z_close k epollfd) s in Inr (ret, s)))"

end
