(* ===== verification/Compute.thy ===== *)
theory Compute
  imports Server_State
begin

section \<open>The compute worker (src/server/compute.c)\<close>

text \<open>
  A request is hashed again and again until the configured time is over. The clock and
  the digest are not part of the repository: \<open>clock\<close> reads the monotonic clock (\<open>None\<close>
  when \<open>clock_gettime\<close> fails) and \<open>sha1\<close> is the library's SHA-1.
\<close>

type_synonym 'w clock = "'w \<Rightarrow> timespec option \<times> 'w"

text \<open>One round: hash the data into the response, then look at the clock.\<close>

definition compute_round ::
  "(byte list \<Rightarrow> byte list) \<Rightarrow> 'w clock \<Rightarrow> u64 \<Rightarrow> timespec \<Rightarrow> byte list \<times> 'w
    \<Rightarrow> (bool option \<times> byte list \<times> 'w) res" where
  "compute_round sha1 clock nsec start_time = (\<lambda>(m, w).
     bind_res (store_bytes (res_off + 4) (sha1 (req_data m)) m) (\<lambda>m.
     case clock w of
       (None, w) \<Rightarrow> Inr (Some False, m, w)
     | (Some cur_time, w) \<Rightarrow>
         if as_nanoseconds cur_time - as_nanoseconds start_time \<ge> nsec
         then Inr (Some True, m, w) else Inr (None, m, w)))"

text \<open>
  \<open>compute_request\<close> on the message bytes. The id of the response is written only when the
  loop is left by its \<open>break\<close>, not when a clock reading fails.
\<close>

definition compute_request ::
  "nat \<Rightarrow> (byte list \<Rightarrow> byte list) \<Rightarrow> 'w clock \<Rightarrow> u64 \<Rightarrow> byte list \<Rightarrow> 'w
    \<Rightarrow> (byte list \<times> 'w) res" where
  "compute_request n sha1 clock nsec m w =
     (case clock w of
        (None, w) \<Rightarrow> Inr (m, w)
      | (Some start_time, w) \<Rightarrow>
          bind_res (loop_res n (compute_round sha1 clock nsec start_time) (m, w)) (\<lambda>(fin, m, w).
            if fin then
              bind_res (store_bytes res_off (req_id m) m) (\<lambda>m. Inr (m, w))
            else Inr (m, w)))"

text \<open>One round of \<open>compute_worker\<close> for the thread with index \<open>current\<close>.\<close>

definition compute_worker_round ::
  "nat \<Rightarrow> (byte list \<Rightarrow> byte list) \<Rightarrow> 'w clock \<Rightarrow> nat \<Rightarrow> 'w srv \<Rightarrow> 'w srv res" where
  "compute_worker_round n sha1 clock current s =
     bind_res (index_res (compute_inbox (queues s)) current) (\<lambda>inbox.
     bind_res (srv_get inbox s) (\<lambda>(q, s).
     if q = Null then Inr s
     else
       bind_res (container_of_buffer q) (\<lambda>b.
       bind_res (compute_request n sha1 clock (ucast (compute_dur (cfg s))) (msg (bufs s b)) (world s))
         (\<lambda>(m, w).
       let s = (upd_buf b (msg_update (\<lambda>_. m)) s)\<lparr>world := w\<rparr> in
       bind_res (deref (conn (bufs s b))) (\<lambda>c.
       bind_res (index_res (submitter_inbox (queues s)) (nat (submitidx (conns s c)))) (\<lambda>outbox.
       srv_put q outbox s))))))"

text \<open>\<open>compute_worker\<close>: while nobody asked to stop; the fuel is the number of rounds.\<close>

fun compute_worker ::
  "nat \<Rightarrow> nat \<Rightarrow> (byte list \<Rightarrow> byte list) \<Rightarrow> 'w clock \<Rightarrow> nat \<Rightarrow> 'w srv \<Rightarrow> 'w srv res" where
  "compute_worker 0 n sha1 clock current s = Inl OutOfFuel"
| "compute_worker (Suc i) n sha1 clock current s =
     (if stopping s \<noteq> 0 then Inr s
      else bind_res (compute_worker_round n sha1 clock current s)
        (compute_worker i n sha1 clock current))"

subsection \<open>What the worker relies on\<close>

text \<open>
  \<open>now w\<close> is the time in nanoseconds in world \<open>w\<close>. A reading of the monotonic clock is the
  time at which it returns, and time passes from one reading to the next. A reading may
  fail.
\<close>

definition nanos :: "timespec \<Rightarrow> int" where
  "nanos ts = tv_sec ts * 1000000000 + tv_nsec ts"

definition clock_advances :: "'w clock \<Rightarrow> ('w \<Rightarrow> int) \<Rightarrow> bool" where
  "clock_advances clock now \<longleftrightarrow> (\<forall>w ts w'. clock w = (Some ts, w') \<longrightarrow>
     clock_range ts \<and> nanos ts = now w' \<and> now w < now w')"

text \<open>The world \<open>w\<close> is the one a failed reading of the clock leaves.\<close>

definition clock_failed :: "'w clock \<Rightarrow> 'w \<Rightarrow> bool" where
  "clock_failed clock w \<longleftrightarrow> (\<exists>v. clock v = (None, w))"

definition sha_length :: "(byte list \<Rightarrow> byte list) \<Rightarrow> bool" where
  "sha_length sha1 \<longleftrightarrow> (\<forall>bs. length (sha1 bs) = SHA_DIGEST_LENGTH)"

lemma elapsed_iff:
  assumes "clock_range a" and "clock_range b" and "nanos a \<le> nanos b"
  shows "nsec \<le> as_nanoseconds b - as_nanoseconds a \<longleftrightarrow> uint nsec \<le> nanos b - nanos a"
proof -
  note u = uint_as_nanoseconds [OF assms(1)] uint_as_nanoseconds [OF assms(2)]
  have "uint (as_nanoseconds a) \<le> uint (as_nanoseconds b)"
    using assms(3) u by (simp add: nanos_def)
  then have "uint (as_nanoseconds b - as_nanoseconds a) = nanos b - nanos a"
    using u by (simp add: uint_sub_if' nanos_def)
  then show ?thesis by (simp add: word_le_def)
qed

subsection \<open>The message after hashing\<close>

text \<open>What a round leaves of the message: the request as it was, the digest of its data.\<close>

definition hashed :: "(byte list \<Rightarrow> byte list) \<Rightarrow> byte list \<Rightarrow> byte list \<Rightarrow> bool" where
  "hashed sha1 m m' \<longleftrightarrow>
     length m' = 1048 \<and> req_bytes m' = req_bytes m \<and> res_sha m' = sha1 (req_data m)"

lemma req_parts_of_bytes:
  "req_bytes m' = req_bytes m \<Longrightarrow> req_data m' = req_data m"
  "req_bytes m' = req_bytes m \<Longrightarrow> req_id m' = req_id m"
proof -
  assume eq: "req_bytes m' = req_bytes m"
  have data: "req_data x = drop 4 (req_bytes x)" for x
    by (simp add: req_data_def req_bytes_def drop_take)
  have id: "req_id x = take 4 (req_bytes x)" for x
    by (simp add: req_id_def req_bytes_def min_def)
  show "req_data m' = req_data m" "req_id m' = req_id m"
    unfolding data id eq by simp_all
qed

lemma store_digest:
  assumes "length m = 1048" and "length d = 20"
  shows "\<exists>m'. store_bytes (res_off + 4) d m = Inr m' \<and> length m' = 1048
    \<and> req_bytes m' = req_bytes m \<and> res_sha m' = d"
  using assms by (simp add: store_bytes_def req_bytes_def res_sha_def)

lemma store_id:
  assumes "length m = 1048" and "length d = 4"
  shows "\<exists>m'. store_bytes res_off d m = Inr m' \<and> length m' = 1048
    \<and> req_bytes m' = req_bytes m \<and> res_sha m' = res_sha m \<and> res_id m' = d"
  using assms by (simp add: store_bytes_def req_bytes_def res_sha_def res_id_def)

lemma compute_round_step:
  assumes m: "length m' = 1048" "req_bytes m' = req_bytes m" and sha: "sha_length sha1"
    and clk: "clock_advances clock now"
    and start: "clock_range st" "nanos st \<le> now w"
  shows "\<exists>out m'' w'. compute_round sha1 clock nsec st (m', w) = Inr (out, m'', w')
    \<and> hashed sha1 m m'' \<and> (out = Some False \<longrightarrow> clock w = (None, w'))
    \<and> (out = Some True \<longrightarrow> uint nsec \<le> now w' - nanos st)
    \<and> (out = None \<longrightarrow> nanos st \<le> now w' \<and> now w' < nanos st + uint nsec \<and> now w < now w')"
proof -
  have len: "length (sha1 (req_data m')) = 20" using sha by (simp add: sha_length_def)
  from store_digest [OF m(1) len] obtain m'' where
    st: "store_bytes (res_off + 4) (sha1 (req_data m')) m' = Inr m''"
    and h: "length m'' = 1048" "req_bytes m'' = req_bytes m'" "res_sha m'' = sha1 (req_data m')"
    by blast
  have hashed: "hashed sha1 m m''"
    using h m(2) req_parts_of_bytes(1) [OF m(2)] by (simp add: hashed_def)
  obtain t w' where c: "clock w = (t, w')" by (cases "clock w")
  show ?thesis
  proof (cases t)
    case None
    with c st hashed show ?thesis by (simp add: compute_round_def)
  next
    case (Some ts)
    with clk c have ts: "clock_range ts" "nanos ts = now w'" "now w < now w'"
      by (auto simp: clock_advances_def)
    have "nanos st \<le> nanos ts" using start(2) ts by simp
    note e = elapsed_iff [OF start(1) ts(1) this, of nsec]
    show ?thesis
    proof (cases "uint nsec \<le> nanos ts - nanos st")
      case True
      with e c Some st hashed ts show ?thesis by (auto simp: compute_round_def)
    next
      case False
      with e c Some st hashed ts start(2) show ?thesis by (simp add: compute_round_def)
    qed
  qed
qed

lemma compute_loop:
  assumes m: "length m = 1048" and sha: "sha_length sha1"
    and clk: "clock_advances clock now"
    and start: "clock_range st" "nanos st = now w" and n: "unat nsec < n"
  shows "\<exists>fin m' w'. loop_res n (compute_round sha1 clock nsec st) (m, w) = Inr (fin, m', w')
    \<and> hashed sha1 m m' \<and> (fin \<longrightarrow> uint nsec \<le> now w' - nanos st)
    \<and> (\<not> fin \<longrightarrow> (\<exists>v. clock v = (None, w') \<and> now w \<le> now v \<and> now v \<le> now w + uint nsec))"
proof -
  let ?I = "\<lambda>(m', v). length m' = 1048 \<and> req_bytes m' = req_bytes m
    \<and> now w \<le> now v \<and> now v \<le> now w + uint nsec"
  let ?mu = "\<lambda>(m' :: byte list, v). nat (now w + uint nsec - now v)"
  let ?P = "\<lambda>fin (m', w'). hashed sha1 m m' \<and> (fin \<longrightarrow> uint nsec \<le> now w' - nanos st)
    \<and> (\<not> fin \<longrightarrow> (\<exists>v. clock v = (None, w') \<and> now w \<le> now v \<and> now v \<le> now w + uint nsec))"
  have "\<exists>fin x. loop_res n (compute_round sha1 clock nsec st) (m, w) = Inr (fin, x) \<and> ?P fin x"
  proof (rule loop_res_total [where I = ?I and \<mu> = ?mu])
    show "?I (m, w)" using m start by simp
    have "nat (uint nsec) < n" using n by (simp only: unat_eq_nat_uint)
    then show "?mu (m, w) < n" by simp
    fix x assume I: "?I x"
    obtain m' v where x: "x = (m', v)" by (cases x)
    from compute_round_step [OF _ _ sha clk start(1), of m' m v nsec] I x start(2)
    obtain out m'' w' where s: "compute_round sha1 clock nsec st (m', v) = Inr (out, m'', w')"
      "hashed sha1 m m''" "out = Some False \<longrightarrow> clock v = (None, w')"
      "out = Some True \<longrightarrow> uint nsec \<le> now w' - nanos st"
      "out = None \<longrightarrow> nanos st \<le> now w' \<and> now w' < nanos st + uint nsec \<and> now v < now w'"
      by auto
    have "case out of None \<Rightarrow> ?I (m'', w') \<and> ?mu (m'', w') < ?mu x | Some r \<Rightarrow> ?P r (m'', w')"
    proof (cases out)
      case None
      with s(2,5) start(2) x show ?thesis by (simp add: hashed_def)
    next
      case (Some r)
      with s(2-4) I x show ?thesis by (cases r) auto
    qed
    with s(1) x show "\<exists>out s1. compute_round sha1 clock nsec st x = Inr (out, s1) \<and>
        (case out of None \<Rightarrow> ?I s1 \<and> ?mu s1 < ?mu x | Some r \<Rightarrow> ?P r s1)"
      by blast
  qed
  then show ?thesis by auto
qed

lemma compute_request_total:
  assumes "length m = 1048" and "sha_length sha1" and "clock_advances clock now"
    and "unat nsec < n"
  shows "\<exists>m' w'. compute_request n sha1 clock nsec m w = Inr (m', w')
    \<and> length m' = 1048 \<and> req_bytes m' = req_bytes m
    \<and> (res_id m' = req_id m \<and> res_sha m' = sha1 (req_data m) \<and> uint nsec \<le> now w' - now w
       \<or> (\<exists>v. clock v = (None, w') \<and> now w \<le> now v
            \<and> (\<forall>st w1. clock w = (Some st, w1) \<longrightarrow> now v \<le> now w1 + uint nsec)))"
proof -
  obtain t w1 where c: "clock w = (t, w1)" by (cases "clock w")
  show ?thesis
  proof (cases t)
    case None
    with c assms(1) show ?thesis
      by (intro exI [of _ m] exI [of _ w1]) (auto simp: compute_request_def)
  next
    case (Some st)
    with c assms(3) have st: "clock_range st" "nanos st = now w1" "now w < now w1"
      by (auto simp: clock_advances_def)
    from compute_loop [OF assms(1-3) st(1,2) assms(4)] obtain fin m1 w' where
      l: "loop_res n (compute_round sha1 clock nsec st) (m, w1) = Inr (fin, m1, w')"
      and h: "hashed sha1 m m1" and e: "fin \<longrightarrow> uint nsec \<le> now w' - nanos st"
      and f: "\<not> fin \<longrightarrow> (\<exists>v. clock v = (None, w') \<and> now w1 \<le> now v
        \<and> now v \<le> now w1 + uint nsec)" by blast
    show ?thesis
    proof (cases fin)
      case False
      with f obtain v where "clock v = (None, w')" "now w1 \<le> now v" "now v \<le> now w1 + uint nsec"
        by blast
      with c Some l h False st(3) show ?thesis
        by (intro exI [of _ m1] exI [of _ w'])
          (auto simp: compute_request_def hashed_def intro!: exI [of _ v])
    next
      case True
      have id: "length (req_id m1) = 4" using h by (simp add: hashed_def req_id_def)
      have "length m1 = 1048" using h by (simp add: hashed_def)
      from store_id [OF this id] obtain m' where
        m': "store_bytes res_off (req_id m1) m1 = Inr m'" "length m' = 1048"
          "req_bytes m' = req_bytes m1" "res_sha m' = res_sha m1" "res_id m' = req_id m1" by blast
      have "req_id m1 = req_id m" using h by (auto simp: hashed_def intro: req_parts_of_bytes)
      with m' h True e st l c Some show ?thesis
        by (auto simp: compute_request_def hashed_def)
    qed
  qed
qed


text \<open>A clock that ticks once per second, as long as its counter is in range.\<close>

definition tick_clock :: "nat clock" where
  "tick_clock w =
     (if w < 1000 then (Some (Timespec (1 + int w) 5), Suc w) else (None, w))"

lemma tick_clock_advances: "clock_advances tick_clock (\<lambda>w. int w * 1000000000 + 5)"
  by (simp add: clock_advances_def tick_clock_def clock_range_def nanos_def)


end
