(* ===== verification/Submit.thy ===== *)
theory Submit
  imports Server_State
begin

section \<open>The submit worker (src/server/io/submit.c)\<close>

text \<open>
  The submit worker takes computed responses from its inbox and links them into the send
  queue of their connection, or, when the connection has been closed, frees them and, on
  the last one, the connection.
\<close>

text \<open>
  One round of the loop in \<open>__submitter_worker\<close>, with the value of \<open>err\<close> after it.
\<close>

definition submitter_round :: "'w kernel \<Rightarrow> nat \<Rightarrow> 'w srv \<Rightarrow> (int \<times> 'w srv) res" where
  "submitter_round k current s =
     bind_res (index_res (submitter_inbox (queues s)) current) (\<lambda>inbox.
     bind_res (srv_get inbox s) (\<lambda>(q, s).
     if q = Null then Inr (0, s)
     else
       bind_res (container_of_buffer q) (\<lambda>b.
       bind_res (deref (conn (bufs s b))) (\<lambda>c.
       let (got, s) = trylock_conn c s in
       if got = 0 then bind_res (srv_put q inbox s) (\<lambda>s. Inr (0, s))
       else
         let s = upd_conn c (processed_update (\<lambda>x. x + 1)) s in
         if closed (conns s c) \<noteq> 0 then
           bind_res (srv_put q (empty_buffers (queues s)) s) (\<lambda>s.
           let s = unlock_conn c s in
           if processed (conns s c) = received (conns s c) then
             bind_res (srv_put (Ptr (ConnQ c)) (empty_connections (queues s)) s) (\<lambda>s. Inr (0, s))
           else Inr (0, s))
         else
           bind_res (srv_put q (Some (RSend c)) s) (\<lambda>s.
           let (r, s) = epoll_set_conn_state k c (epoll_state (conns s c) OR EPOLLOUT) s;
               err = (if r \<noteq> 0 then -1 else 0)
           in Inr (err, unlock_conn c s))))))"

text \<open>
  \<open>__submitter_worker\<close> on \<open>(iter, err, s)\<close>: while nobody asked to stop, for at most
  10000000 rounds, until an error.
\<close>

definition submitter_worker_round ::
  "'w kernel \<Rightarrow> nat \<Rightarrow> nat \<times> int \<times> 'w srv \<Rightarrow> (int option \<times> nat \<times> int \<times> 'w srv) res" where
  "submitter_worker_round k current = (\<lambda>(iter, err, s).
     if \<not> (stopping s = 0 \<and> iter < 10000000 \<and> err = 0) then Inr (Some err, Suc iter, err, s)
     else bind_res (submitter_round k current s) (\<lambda>(err, s). Inr (None, Suc iter, err, s)))"

definition submitter_worker_body :: "'w kernel \<Rightarrow> nat \<Rightarrow> 'w srv \<Rightarrow> (int \<times> 'w srv) res" where
  "submitter_worker_body k current s =
     bind_res (loop_res 10000001 (submitter_worker_round k current) (0, 0, s))
       (\<lambda>(err, _, _, s). Inr (err, s))"

definition submitter_worker_outer ::
  "'w kernel \<Rightarrow> kerncall_globals \<Rightarrow> int \<Rightarrow> int \<Rightarrow> nat \<Rightarrow> int \<times> int \<times> 'w srv
    \<Rightarrow> (int option \<times> int \<times> int \<times> 'w srv) res" where
  "submitter_worker_outer k g open_ret spawn_err current = (\<lambda>(ret, kfd, s).
     if \<not> (stopping s = 0 \<and> ret = 0) then Inr (Some ret, ret, kfd, s)
     else if KERNCALL_COND g (kerncall_global (cfg s)) (kerncall_submit (cfg s)) then
       bind_res (kerncall_spawn open_ret spawn_err (submitter_worker_body k current) kfd s)
         (\<lambda>(ret, kfd, s). Inr (None, ret, kfd, s))
     else
       bind_res (submitter_worker_body k current s) (\<lambda>(ret, s). Inr (None, ret, kfd, s)))"

definition submitter_worker ::
  "nat \<Rightarrow> 'w kernel \<Rightarrow> kerncall_globals \<Rightarrow> int \<Rightarrow> int \<Rightarrow> nat \<Rightarrow> 'w srv \<Rightarrow> (int \<times> 'w srv) res" where
  "submitter_worker n k g open_ret spawn_err current s =
     bind_res (loop_res n (submitter_worker_outer k g open_ret spawn_err current) (0, -2, s))
       (\<lambda>(r, _, _, s). Inr (r, s))"

end
