(* ===== verification/Server_Inv.thy ===== *)
theory Server_Inv
  imports Io Accept Compute Submit
begin

section \<open>What the server keeps true\<close>

text \<open>
  The invariant that ties the queues, the connections and the buffers together. \<open>B\<close> and
  \<open>C\<close> are the preallocated buffers and connections, and \<open>Q\<close> the contents of the queues
  in the heap. A round of a worker is one step: between rounds no lock is held.
\<close>

subsection \<open>Queue operations on the state\<close>

lemma srv_get_law:
  assumes "qrep (qh s) Q" and "Q r = Some ns"
  obtains h where "srv_get (Some r) s
      = Inr (case ns of [] \<Rightarrow> Null | n # _ \<Rightarrow> Ptr n, s\<lparr>qh := h\<rparr>)"
    and "qrep h (Q(r \<mapsto> tl ns))"
  using dq.get_law [OF assms] by (auto simp: srv_get_def)

lemma srv_put_law:
  assumes "qrep (qh s) Q" and "Q r = Some ns" and "unqueued n Q"
  obtains h where "srv_put (Ptr n) (Some r) s = Inr (s\<lparr>qh := h\<rparr>)"
    and "qrep h (Q(r \<mapsto> ns @ [n]))"
  using dq.put_law [OF assms] by (auto simp: srv_put_def)

lemma distinct_contents: "distinct ys \<Longrightarrow> distinct (contents ys)"
  by (simp add: contents_def)

lemma qrep_distinct: "qrep h Q \<Longrightarrow> Q r = Some ns \<Longrightarrow> distinct ns"
  unfolding qrep_def queues_at_def root_rep_def by (metis distinct_contents)

lemma qrep_disjoint:
  assumes "qrep h Q" and "Q r = Some ns" and "Q r' = Some ms" and "n \<in> set ns" and "n \<in> set ms"
  shows "r = r'"
proof -
  from assms(1) obtain Y where Y: "queues_at h Q Y" by (auto simp: qrep_def)
  have "n \<in> set (Y r)" "n \<in> set (Y r')"
    using queues_atD(2) [OF Y assms(2)] queues_atD(2) [OF Y assms(3)] assms(4,5) by auto
  then show ?thesis using queues_atD(3) [OF Y] assms(2,3) by blast
qed

lemma qrep_not_divider:
  assumes "qrep h Q" and "Q r = Some ns" and "n \<in> set ns"
  shows "\<not> is_divider n"
proof -
  from assms(1) obtain Y where Y: "queues_at h Q Y" by (auto simp: qrep_def)
  then show ?thesis using queues_atD(2) [OF Y assms(2)] assms(3) by auto
qed

text \<open>The node just taken is in no queue any more.\<close>

lemma unqueued_taken:
  assumes "qrep h Q" and "Q r = Some (n # ns)"
  shows "unqueued n (Q(r \<mapsto> ns))"
  using qrep_distinct [OF assms] qrep_disjoint [OF assms] qrep_not_divider [OF assms]
  unfolding unqueued_def by auto

subsection \<open>The queues of the context\<close>

abbreviation ecr :: "'w srv \<Rightarrow> root_id" where
  "ecr s \<equiv> the (empty_connections (queues s))"

abbreviation ebr :: "'w srv \<Rightarrow> root_id" where
  "ebr s \<equiv> the (empty_buffers (queues s))"

abbreviation n_comp :: "'w srv \<Rightarrow> nat" where
  "n_comp s \<equiv> unat (threads_compute (cfg s))"

abbreviation n_sub :: "'w srv \<Rightarrow> nat" where
  "n_sub s \<equiv> unat (threads_submit (cfg s))"

definition cir :: "'w srv \<Rightarrow> nat \<Rightarrow> root_id" where
  "cir s i = the (compute_inbox (queues s) ! i)"

definition sir :: "'w srv \<Rightarrow> nat \<Rightarrow> root_id" where
  "sir s i = the (submitter_inbox (queues s) ! i)"

definition inbox_roots :: "'w srv \<Rightarrow> root_id set" where
  "inbox_roots s = cir s ` {..<n_comp s} \<union> sir s ` {..<n_sub s}"

text \<open>
  The context after start-up: every queue is allocated, no two pointers are to the same
  queue, and there is at least one thread of each kind.
\<close>

definition ctx_ok :: "'w srv \<Rightarrow> bool" where
  "ctx_ok s \<longleftrightarrow>
     empty_connections (queues s) \<noteq> None \<and> empty_buffers (queues s) \<noteq> None
     \<and> 0 < n_comp s \<and> n_comp s \<le> length (compute_inbox (queues s))
     \<and> (\<forall>i < n_comp s. compute_inbox (queues s) ! i \<noteq> None)
     \<and> 0 < n_sub s \<and> n_sub s \<le> length (submitter_inbox (queues s))
     \<and> (\<forall>i < n_sub s. submitter_inbox (queues s) ! i \<noteq> None)
     \<and> 0 < unat (nr_io (io s)) \<and> unat (nr_io (io s)) \<le> length (epoll_fds (io s))
     \<and> ecr s \<noteq> ebr s \<and> ecr s \<notin> inbox_roots s \<and> ebr s \<notin> inbox_roots s
     \<and> inj_on (cir s) {..<n_comp s} \<and> inj_on (sir s) {..<n_sub s}
     \<and> cir s ` {..<n_comp s} \<inter> sir s ` {..<n_sub s} = {}
     \<and> (\<forall>r \<in> {ecr s, ebr s} \<union> inbox_roots s. \<forall>c. r \<noteq> RSend c)"

definition same_ctx :: "'w srv \<Rightarrow> 'w srv \<Rightarrow> bool" where
  "same_ctx s s' \<longleftrightarrow> cfg s' = cfg s \<and> queues s' = queues s
     \<and> nr_io (io s') = nr_io (io s) \<and> epoll_fds (io s') = epoll_fds (io s)"

lemma same_ctx_roots:
  assumes "same_ctx s s'"
  shows "cfg s' = cfg s" "queues s' = queues s" "cir s' = cir s" "sir s' = sir s"
    "inbox_roots s' = inbox_roots s" "ctx_ok s' = ctx_ok s"
proof -
  show *: "cfg s' = cfg s" "queues s' = queues s" "cir s' = cir s" "sir s' = sir s"
    using assms by (auto simp: same_ctx_def cir_def sir_def)
  then show "inbox_roots s' = inbox_roots s" by (simp add: inbox_roots_def)
  with * assms show "ctx_ok s' = ctx_ok s" by (simp add: ctx_ok_def same_ctx_def)
qed

lemma ctx_ok_pools:
  assumes "ctx_ok s"
  shows "empty_connections (queues s) = Some (ecr s)" "empty_buffers (queues s) = Some (ebr s)"
    "ecr s \<noteq> ebr s" "ecr s \<notin> inbox_roots s" "ebr s \<notin> inbox_roots s"
    "ecr s \<noteq> RSend c" "ebr s \<noteq> RSend c" "0 < n_comp s" "0 < n_sub s"
    "0 < unat (nr_io (io s))" "unat (nr_io (io s)) \<le> length (epoll_fds (io s))"
  using assms by (simp_all add: ctx_ok_def)

lemma ctx_ok_inboxes:
  assumes "ctx_ok s"
  shows "i < n_comp s \<Longrightarrow> i < length (compute_inbox (queues s))"
    "i < n_comp s \<Longrightarrow> compute_inbox (queues s) ! i = Some (cir s i)"
    "i < n_sub s \<Longrightarrow> i < length (submitter_inbox (queues s))"
    "i < n_sub s \<Longrightarrow> submitter_inbox (queues s) ! i = Some (sir s i)"
  using assms unfolding ctx_ok_def cir_def sir_def by auto

lemma inbox_roots_mem:
  "i < n_comp s \<Longrightarrow> cir s i \<in> inbox_roots s"
  "i < n_sub s \<Longrightarrow> sir s i \<in> inbox_roots s"
  by (simp_all add: inbox_roots_def)

lemma ctx_ok_distinct:
  assumes "ctx_ok s"
  shows "RSend c \<notin> inbox_roots s"
    "i < n_comp s \<Longrightarrow> j < n_sub s \<Longrightarrow> cir s i \<noteq> sir s j"
    "i < n_comp s \<Longrightarrow> j < n_comp s \<Longrightarrow> cir s i = cir s j \<longleftrightarrow> i = j"
    "i < n_sub s \<Longrightarrow> j < n_sub s \<Longrightarrow> sir s i = sir s j \<longleftrightarrow> i = j"
proof -
  show "RSend c \<notin> inbox_roots s" using assms unfolding ctx_ok_def by blast
  show "cir s i \<noteq> sir s j" if "i < n_comp s" "j < n_sub s"
    using assms that unfolding ctx_ok_def by blast
  have "inj_on (cir s) {..<n_comp s}" "inj_on (sir s) {..<n_sub s}"
    using assms by (simp_all add: ctx_ok_def)
  then show "i < n_comp s \<Longrightarrow> j < n_comp s \<Longrightarrow> cir s i = cir s j \<longleftrightarrow> i = j"
    "i < n_sub s \<Longrightarrow> j < n_sub s \<Longrightarrow> sir s i = sir s j \<longleftrightarrow> i = j"
    by (auto simp: inj_on_eq_iff)
qed

subsection \<open>Membership in the queues\<close>

text \<open>
  Every part of the invariant looks at the queues by membership, so that a step is
  described by what it does to \<open>inq\<close>.
\<close>

definition inq :: "(root_id \<rightharpoonup> node list) \<Rightarrow> root_id \<Rightarrow> node \<Rightarrow> bool" where
  "inq Q r n \<longleftrightarrow> (\<exists>ns. Q r = Some ns \<and> n \<in> set ns)"

lemma inq_put:
  assumes "Q r = Some ns"
  shows "inq (Q(r \<mapsto> ns @ [n])) r' m \<longleftrightarrow> inq Q r' m \<or> (r' = r \<and> m = n)"
  using assms by (auto simp: inq_def)

lemma inq_get:
  assumes "qrep h Q" and "Q r = Some (n # ns)"
  shows "inq (Q(r \<mapsto> ns)) r' m \<longleftrightarrow> inq Q r' m \<and> \<not> (r' = r \<and> m = n)"
  using assms qrep_distinct [OF assms] by (auto simp: inq_def)

lemma inq_init: "inq (Q(r \<mapsto> [])) r' m \<longleftrightarrow> inq Q r' m \<and> r' \<noteq> r"
  by (simp add: inq_def)

lemma inq_first: "Q r = Some (n # ns) \<Longrightarrow> inq Q r n"
  by (simp add: inq_def)

lemma inq_unique: "qrep h Q \<Longrightarrow> inq Q r n \<Longrightarrow> inq Q r' n \<Longrightarrow> r = r'"
  unfolding inq_def by (metis qrep_disjoint)

lemma unqueued_inq: "\<not> is_divider n \<Longrightarrow> \<forall>r. \<not> inq Q r n \<Longrightarrow> unqueued n Q"
  by (auto simp: unqueued_def inq_def)

subsection \<open>Where a buffer is\<close>

text \<open>
  A connection is live from its accept until it is back in the pool, and open until it
  is torn down.
\<close>

definition is_live :: "nat set \<Rightarrow> (root_id \<rightharpoonup> node list) \<Rightarrow> 'w srv \<Rightarrow> nat \<Rightarrow> bool" where
  "is_live C Q s c \<longleftrightarrow> c \<in> C \<and> \<not> inq Q (ecr s) (ConnQ c)"

definition is_open :: "nat set \<Rightarrow> (root_id \<rightharpoonup> node list) \<Rightarrow> 'w srv \<Rightarrow> nat \<Rightarrow> bool" where
  "is_open C Q s c \<longleftrightarrow> is_live C Q s c \<and> closed (conns s c) = 0"

datatype place = InQueue root_id | AsRecv nat | AsSend nat

fun at_place ::
  "nat set \<Rightarrow> (root_id \<rightharpoonup> node list) \<Rightarrow> 'w srv \<Rightarrow> nat \<Rightarrow> place \<Rightarrow> bool" where
  "at_place C Q s b (InQueue r) \<longleftrightarrow> inq Q r (BufQ b)"
| "at_place C Q s b (AsRecv c) \<longleftrightarrow> is_open C Q s c \<and> recvbuf (conns s c) = Some b"
| "at_place C Q s b (AsSend c) \<longleftrightarrow> is_open C Q s c \<and> sendbuf (conns s c) = Some b"

text \<open>The messages of a connection that are in some inbox.\<close>

definition inflight :: "(root_id \<rightharpoonup> node list) \<Rightarrow> 'w srv \<Rightarrow> nat \<Rightarrow> nat set" where
  "inflight Q s c =
     {b. conn (bufs s b) = Some c \<and> (\<exists>r \<in> inbox_roots s. inq Q r (BufQ b))}"

subsection \<open>The parts of the invariant\<close>

text \<open>Which queues there are, and what kind of node each holds.\<close>

definition queues_ok ::
  "nat set \<Rightarrow> nat set \<Rightarrow> (root_id \<rightharpoonup> node list) \<Rightarrow> 'w srv \<Rightarrow> bool" where
  "queues_ok B C Q s \<longleftrightarrow>
     {ecr s, ebr s} \<union> inbox_roots s \<subseteq> dom Q
     \<and> (\<forall>c. is_live C Q s c \<longrightarrow> RSend c \<in> dom Q)
     \<and> (\<forall>n. inq Q (ecr s) n \<longrightarrow> n \<in> ConnQ ` C)
     \<and> (\<forall>r n. inq Q r n \<longrightarrow> r \<noteq> ecr s \<longrightarrow> n \<in> BufQ ` B)
     \<and> (\<forall>c n. inq Q (RSend c) n \<longrightarrow> is_open C Q s c)"

text \<open>Every buffer is in exactly one place.\<close>

definition conserved ::
  "nat set \<Rightarrow> nat set \<Rightarrow> (root_id \<rightharpoonup> node list) \<Rightarrow> 'w srv \<Rightarrow> bool" where
  "conserved B C Q s \<longleftrightarrow>
     (\<forall>b \<in> B. \<exists>!p. at_place C Q s b p) \<and> (\<forall>b p. at_place C Q s b p \<longrightarrow> b \<in> B)"

text \<open>A message in an inbox belongs to a live connection served by that thread.\<close>

definition inboxes_ok ::
  "nat set \<Rightarrow> (root_id \<rightharpoonup> node list) \<Rightarrow> 'w srv \<Rightarrow> bool" where
  "inboxes_ok C Q s \<longleftrightarrow>
     (\<forall>i b. i < n_comp s \<longrightarrow> inq Q (cir s i) (BufQ b) \<longrightarrow>
        (\<exists>c. conn (bufs s b) = Some c \<and> is_live C Q s c \<and> computeidx (conns s c) = int i))
     \<and> (\<forall>i b. i < n_sub s \<longrightarrow> inq Q (sir s i) (BufQ b) \<longrightarrow>
        (\<exists>c. conn (bufs s b) = Some c \<and> is_live C Q s c \<and> submitidx (conns s c) = int i))"

text \<open>The buffers a connection is filling or sending, and the byte counts of both.\<close>

definition recv_ok :: "server_buffer_t \<Rightarrow> nat \<Rightarrow> bool" where
  "recv_ok x c \<longleftrightarrow> conn x = Some c \<and> 0 < unat (left x) \<and> ptr x + unat (left x) = 1024"

definition send_ok :: "server_buffer_t \<Rightarrow> bool" where
  "send_ok x \<longleftrightarrow> 0 < unat (left x) \<and> ptr x + unat (left x) = 1048 \<and> 1024 \<le> ptr x"

definition bufs_ok ::
  "nat set \<Rightarrow> nat set \<Rightarrow> (root_id \<rightharpoonup> node list) \<Rightarrow> 'w srv \<Rightarrow> bool" where
  "bufs_ok B C Q s \<longleftrightarrow>
     (\<forall>b \<in> B. length (msg (bufs s b)) = 1048)
     \<and> (\<forall>c b. is_open C Q s c \<longrightarrow> recvbuf (conns s c) = Some b \<longrightarrow> recv_ok (bufs s b) c)
     \<and> (\<forall>c b. is_open C Q s c \<longrightarrow> sendbuf (conns s c) = Some b \<longrightarrow> send_ok (bufs s b))"

text \<open>
  One connection \<open>x\<close> with \<open>f\<close> messages in the inboxes and \<open>q\<close> in its send queue. The
  counters are compared in their 64-bit arithmetic. An open connection with unsent
  responses has asked for output events, and has at most one request more than the
  configured read-ahead between the reader and the sender; a closed one is waiting for
  messages that are still in the inboxes.
\<close>

definition open_ok :: "u32 \<Rightarrow> server_connection_t \<Rightarrow> nat \<Rightarrow> bool" where
  "open_ok ahead x q \<longleftrightarrow>
     processed x - sent x = of_nat (q + (if sendbuf x = None then 0 else 1))
     \<and> (processed x \<noteq> sent x \<longrightarrow> epoll_state x AND EPOLLOUT \<noteq> 0)
     \<and> epoll_state x AND EPOLLIN \<noteq> 0
     \<and> unat (received x - sent x) \<le> unat ahead + (if recvbuf x = None then 1 else 0)"

definition live_ok :: "u32 \<Rightarrow> server_connection_t \<Rightarrow> nat \<Rightarrow> nat \<Rightarrow> bool" where
  "live_ok ahead x f q \<longleftrightarrow>
     conn_lock x = 0 \<and> received x - processed x = of_nat f
     \<and> (closed x = 0 \<longrightarrow> open_ok ahead x q)
     \<and> (closed x \<noteq> 0 \<longrightarrow> f \<noteq> 0 \<and> sendbuf x = None)"

definition indices_ok :: "'w srv \<Rightarrow> server_connection_t \<Rightarrow> bool" where
  "indices_ok s x \<longleftrightarrow> 0 \<le> computeidx x \<and> computeidx x < int (n_comp s)
     \<and> 0 \<le> submitidx x \<and> submitidx x < int (n_sub s)"

lemma indices_okD:
  assumes "indices_ok s x"
  shows "nat (computeidx x) < n_comp s" "computeidx x = int (nat (computeidx x))"
    "nat (submitidx x) < n_sub s" "submitidx x = int (nat (submitidx x))"
  using assms unfolding indices_ok_def by (simp_all only: nat_less_iff int_nat_eq if_True)

abbreviation sendq :: "(root_id \<rightharpoonup> node list) \<Rightarrow> nat \<Rightarrow> node list" where
  "sendq Q c \<equiv> the (Q (RSend c))"

definition conns_ok ::
  "nat set \<Rightarrow> (root_id \<rightharpoonup> node list) \<Rightarrow> 'w srv \<Rightarrow> bool" where
  "conns_ok C Q s \<longleftrightarrow>
     (\<forall>c. is_live C Q s c \<longrightarrow>
        indices_ok s (conns s c)
        \<and> live_ok (readahead (cfg s)) (conns s c) (card (inflight Q s c)) (length (sendq Q c)))
     \<and> (\<forall>c. inq Q (ecr s) (ConnQ c) \<longrightarrow> sendbuf (conns s c) = None)"

definition srv_inv ::
  "nat set \<Rightarrow> nat set \<Rightarrow> (root_id \<rightharpoonup> node list) \<Rightarrow> 'w srv \<Rightarrow> bool" where
  "srv_inv B C Q s \<longleftrightarrow>
     finite B \<and> card B < 2 ^ 32 \<and> qrep (qh s) Q \<and> ctx_ok s \<and> queues_ok B C Q s
     \<and> conserved B C Q s \<and> inboxes_ok C Q s \<and> bufs_ok B C Q s \<and> conns_ok C Q s"

lemma srv_invD:
  assumes "srv_inv B C Q s"
  shows "finite B" "card B < 2 ^ 32" "qrep (qh s) Q" "ctx_ok s" "queues_ok B C Q s"
    "conserved B C Q s" "inboxes_ok C Q s" "bufs_ok B C Q s" "conns_ok C Q s"
  using assms by (simp_all add: srv_inv_def)

subsection \<open>Consequences\<close>

lemma queues_okD:
  assumes "queues_ok B C Q s"
  shows "\<exists>ns. Q (ecr s) = Some ns" "\<exists>ns. Q (ebr s) = Some ns"
    "r \<in> inbox_roots s \<Longrightarrow> \<exists>ns. Q r = Some ns"
    "is_live C Q s c \<Longrightarrow> \<exists>ns. Q (RSend c) = Some ns"
    "inq Q (ecr s) n \<Longrightarrow> \<exists>c \<in> C. n = ConnQ c"
    "inq Q r n \<Longrightarrow> r \<noteq> ecr s \<Longrightarrow> \<exists>b \<in> B. n = BufQ b"
    "inq Q (RSend c) n \<Longrightarrow> is_open C Q s c"
  using assms unfolding queues_ok_def by blast+

lemma conservedD:
  assumes "conserved B C Q s"
  shows "at_place C Q s b p \<Longrightarrow> b \<in> B"
    "at_place C Q s b p \<Longrightarrow> at_place C Q s b p' \<Longrightarrow> p = p'"
proof -
  show B: "at_place C Q s b p \<Longrightarrow> b \<in> B" for p
    using assms unfolding conserved_def by blast
  assume p: "at_place C Q s b p" "at_place C Q s b p'"
  with assms B have "\<exists>!p. at_place C Q s b p" unfolding conserved_def by blast
  with p show "p = p'" by blast
qed

text \<open>The one form in which steps change places: the buffers \<open>M\<close> go to the places \<open>P\<close>.\<close>

lemma conserved_move:
  assumes "conserved B C Q s" and "M \<subseteq> B"
    and "\<And>b p. at_place C Q' s' b p \<longleftrightarrow> (if b \<in> M then p = P b else at_place C Q s b p)"
  shows "conserved B C Q' s'"
proof -
  have "\<exists>!p. if b \<in> M then p = P b else at_place C Q s b p" if "b \<in> B" for b
    using assms(1) that unfolding conserved_def by (cases "b \<in> M") auto
  moreover have "b \<in> B" if "if b \<in> M then p = P b else at_place C Q s b p" for b p
    using assms(1,2) that unfolding conserved_def by (auto split: if_splits)
  ultimately show ?thesis unfolding conserved_def assms(3) by blast
qed

lemma conns_okD:
  assumes "conns_ok C Q s"
  shows "is_live C Q s c \<Longrightarrow> indices_ok s (conns s c)"
    "is_live C Q s c \<Longrightarrow> live_ok (readahead (cfg s)) (conns s c) (card (inflight Q s c))
      (length (sendq Q c))"
    "inq Q (ecr s) (ConnQ c) \<Longrightarrow> sendbuf (conns s c) = None"
  using assms unfolding conns_ok_def by blast+

lemma inflight_first:
  assumes "r \<in> inbox_roots s" and "Q r = Some (BufQ b # ns)" and "conn (bufs s b) = Some c"
  shows "b \<in> inflight Q s c"
  using assms inq_first [of Q, OF assms(2)] by (auto simp: inflight_def)

lemma inflight_live:
  assumes "inboxes_ok C Q s" and "x \<in> inflight Q s c"
  shows "is_live C Q s c"
proof -
  from assms(2) obtain r where r: "r \<in> inbox_roots s" "inq Q r (BufQ x)"
    and c: "conn (bufs s x) = Some c" by (auto simp: inflight_def)
  from r assms(1) have "\<exists>d. conn (bufs s x) = Some d \<and> is_live C Q s d"
    unfolding inboxes_ok_def inbox_roots_def by blast
  with c show ?thesis by simp
qed

text \<open>A buffer in an inbox is counted by exactly its own connection.\<close>

lemma finite_inflight:
  assumes "conserved B C Q s" and "finite B"
  shows "finite (inflight Q s c)" "card (inflight Q s c) \<le> card B" "inflight Q s c \<subseteq> B"
proof -
  show "inflight Q s c \<subseteq> B"
    using conservedD(1) [OF assms(1), of _ "InQueue r" for r] by (auto simp: inflight_def)
  with assms(2) show "finite (inflight Q s c)" "card (inflight Q s c) \<le> card B"
    by (auto intro: finite_subset card_mono)
qed

text \<open>
  A step that concerns one connection \<open>c\<close> leaves the part of the invariant about the
  other connections as it was.
\<close>

lemma conns_ok_step:
  assumes "conns_ok C Q s" and ctx: "same_ctx s s'"
    and other: "\<And>d. d \<noteq> c \<Longrightarrow> conns s' d = conns s d \<and> inflight Q' s' d = inflight Q s d
      \<and> Q' (RSend d) = Q (RSend d) \<and> inq Q' (ecr s) (ConnQ d) = inq Q (ecr s) (ConnQ d)"
    and self: "is_live C Q' s' c \<Longrightarrow> indices_ok s (conns s' c)
      \<and> live_ok (readahead (cfg s)) (conns s' c) (card (inflight Q' s' c)) (length (sendq Q' c))"
    and pool: "inq Q' (ecr s) (ConnQ c) \<Longrightarrow> sendbuf (conns s' c) = None"
  shows "conns_ok C Q' s'"
proof -
  note r = same_ctx_roots [OF ctx]
  have i: "indices_ok s' x = indices_ok s x" for x by (simp add: indices_ok_def r)
  have l: "is_live C Q' s' d = is_live C Q s d" if "d \<noteq> c" for d
    using other [OF that] by (simp add: is_live_def r)
  show ?thesis
    unfolding conns_ok_def i r
  proof (intro conjI allI impI)
    fix d
    show "is_live C Q' s' d \<Longrightarrow> indices_ok s (conns s' d)"
      using self assms(1) l other unfolding conns_ok_def by (cases "d = c") simp_all
    show "is_live C Q' s' d \<Longrightarrow> live_ok (readahead (cfg s)) (conns s' d)
        (card (inflight Q' s' d)) (length (sendq Q' d))"
      using self assms(1) l other unfolding conns_ok_def by (cases "d = c") simp_all
    show "inq Q' (ecr s) (ConnQ d) \<Longrightarrow> sendbuf (conns s' d) = None"
      using pool assms(1) other unfolding conns_ok_def by (cases "d = c") simp_all
  qed
qed

text \<open>The same for the buffers: \<open>b\<close> is the only one that changes.\<close>

lemma bufs_ok_step:
  assumes "bufs_ok B C Q s"
    and len: "length (msg (bufs s' b)) = 1048"
    and other: "\<And>d. d \<noteq> b \<Longrightarrow> bufs s' d = bufs s d"
    and recv: "\<And>c d. is_open C Q' s' c \<Longrightarrow> recvbuf (conns s' c) = Some d \<Longrightarrow> d \<noteq> b
      \<Longrightarrow> is_open C Q s c \<and> recvbuf (conns s c) = Some d"
    and send: "\<And>c d. is_open C Q' s' c \<Longrightarrow> sendbuf (conns s' c) = Some d \<Longrightarrow> d \<noteq> b
      \<Longrightarrow> is_open C Q s c \<and> sendbuf (conns s c) = Some d"
    and recvb: "\<And>c. is_open C Q' s' c \<Longrightarrow> recvbuf (conns s' c) = Some b \<Longrightarrow> recv_ok (bufs s' b) c"
    and sendb: "\<And>c. is_open C Q' s' c \<Longrightarrow> sendbuf (conns s' c) = Some b \<Longrightarrow> send_ok (bufs s' b)"
  shows "bufs_ok B C Q' s'"
  unfolding bufs_ok_def
proof (intro conjI allI impI ballI)
  fix d
  show "d \<in> B \<Longrightarrow> length (msg (bufs s' d)) = 1048"
    using assms(1) len other unfolding bufs_ok_def by (cases "d = b") simp_all
next
  fix c d
  show "is_open C Q' s' c \<Longrightarrow> recvbuf (conns s' c) = Some d \<Longrightarrow> recv_ok (bufs s' d) c"
    using assms(1) recv [of c d] recvb [of c] other [of d] unfolding bufs_ok_def
    by (cases "d = b") auto
  show "is_open C Q' s' c \<Longrightarrow> sendbuf (conns s' c) = Some d \<Longrightarrow> send_ok (bufs s' d)"
    using assms(1) send [of c d] sendb [of c] other [of d] unfolding bufs_ok_def
    by (cases "d = b") auto
qed

subsection \<open>One node moves\<close>

lemma inq_taken:
  assumes "qrep h Q" and "Q r = Some (n # ns)"
  shows "inq (Q(r \<mapsto> ns)) r' m \<longleftrightarrow> m \<noteq> n \<and> inq Q r' m"
  using inq_get [of h Q r n ns r' m, OF assms] inq_unique [OF assms(1)] inq_first [of Q, OF assms(2)]
  by blast

lemma inq_added:
  assumes "\<forall>r. \<not> inq Q r n" and "Q r = Some ns"
  shows "inq (Q(r \<mapsto> ns @ [n])) r' m \<longleftrightarrow> (if m = n then r' = r else inq Q r' m)"
  using inq_put [of Q r ns n r' m, OF assms(2)] assms(1) by auto

lemma inq_moved:
  assumes "qrep h Q" and "Q r1 = Some (n # ns)" and "Q r2 = Some ms" and "r1 \<noteq> r2"
  shows "inq (Q(r1 \<mapsto> ns, r2 \<mapsto> ms @ [n])) r m \<longleftrightarrow> (if m = n then r = r2 else inq Q r m)"
proof -
  note t = inq_taken [OF assms(1,2)]
  have "\<forall>r. \<not> inq (Q(r1 \<mapsto> ns)) r n" by (simp add: t)
  moreover have "(Q(r1 \<mapsto> ns)) r2 = Some ms" using assms(3,4) by simp
  ultimately show ?thesis using inq_added [of "Q(r1 \<mapsto> ns)"] by (simp add: t)
qed

text \<open>Taking the first node of a queue, and moving it to another one.\<close>

lemma srv_get_first:
  assumes "qrep (qh s) Q" and "Q r = Some (n # ns)"
  obtains h where "srv_get (Some r) s = Inr (Ptr n, s\<lparr>qh := h\<rparr>)" and "qrep h (Q(r \<mapsto> ns))"
  using srv_get_law [OF assms] by auto

lemma srv_get_empty:
  assumes "qrep (qh s) Q" and "Q r = Some []"
  obtains h where "srv_get (Some r) s = Inr (Null, s\<lparr>qh := h\<rparr>)" and "qrep h Q"
proof -
  have "Q(r \<mapsto> []) = Q" using assms(2) by auto
  with srv_get_law [OF assms] that show thesis by auto
qed

text \<open>What the invariant does not look at may change.\<close>

lemma srv_inv_cong:
  assumes "srv_inv B C Q s" and "same_ctx s s'" and "conns s' = conns s" and "bufs s' = bufs s"
    and "qrep (qh s') Q"
  shows "srv_inv B C Q s'"
proof -
  note r = same_ctx_roots [OF assms(2)]
  have l: "is_live C Q s' = is_live C Q s" by (simp add: is_live_def r fun_eq_iff)
  have o: "is_open C Q s' = is_open C Q s" by (simp add: is_open_def l assms(3) fun_eq_iff)
  have p: "at_place C Q s' b p = at_place C Q s b p" for b p
    by (cases p) (simp_all add: o assms(3))
  have i: "indices_ok s' = indices_ok s" by (simp add: indices_ok_def r fun_eq_iff)
  have f: "inflight Q s' = inflight Q s" by (simp add: inflight_def r assms(4) fun_eq_iff)
  have "queues_ok B C Q s' = queues_ok B C Q s" by (simp add: queues_ok_def r l o)
  moreover have "conserved B C Q s' = conserved B C Q s" by (simp only: conserved_def p)
  moreover have "inboxes_ok C Q s' = inboxes_ok C Q s"
    by (simp only: inboxes_ok_def r l assms(3,4))
  moreover have "bufs_ok B C Q s' = bufs_ok B C Q s" by (simp only: bufs_ok_def o assms(3,4))
  moreover have "conns_ok C Q s' = conns_ok C Q s"
    by (simp only: conns_ok_def r l i f assms(3))
  ultimately show ?thesis using assms(1,5) by (simp only: srv_inv_def r(6))
qed

end
