(* ===== verification/Session.thy ===== *)
theory Session
  imports Server_Inv
begin

section \<open>What a session promises\<close>

text \<open>
  The abstract server of one connection: a byte stream of requests comes in, a byte stream
  of responses goes out, and in between the requests are worked off in order. The second
  half reads the abstract session of an open connection off the server's queues and
  buffers.
\<close>

subsection \<open>Runs of a system with input and output\<close>

inductive io_run ::
  "('s \<Rightarrow> 'b list \<Rightarrow> 'b list \<Rightarrow> 's \<Rightarrow> bool) \<Rightarrow> 's \<Rightarrow> 'b list \<Rightarrow> 'b list \<Rightarrow> 's \<Rightarrow> bool"
  for step where
  start: "io_run step x [] [] x"
| extend: "io_run step x ins outs y \<Longrightarrow> step y i out z \<Longrightarrow> io_run step x (ins @ i) (outs @ out) z"

text \<open>
  A forward simulation: every step of the concrete system is a step, with the same input
  and output, of the abstract one.
\<close>

locale io_simulation =
  fixes cstep :: "'s \<Rightarrow> 'b list \<Rightarrow> 'b list \<Rightarrow> 's \<Rightarrow> bool"
    and astep :: "'a \<Rightarrow> 'b list \<Rightarrow> 'b list \<Rightarrow> 'a \<Rightarrow> bool"
    and rel :: "'s \<Rightarrow> 'a \<Rightarrow> bool"
  assumes step: "rel x a \<Longrightarrow> cstep x i out y \<Longrightarrow> \<exists>a'. astep a i out a' \<and> rel y a'"
begin

lemma runs: "io_run cstep x ins outs y \<Longrightarrow> rel x a \<Longrightarrow> \<exists>a'. io_run astep a ins outs a' \<and> rel y a'"
proof (induction rule: io_run.induct)
  case (extend x ins outs y i out z)
  then obtain a' where a': "io_run astep a ins outs a'" "rel y a'" by blast
  from step [OF a'(2) extend.hyps(2)] obtain a'' where "astep a' i out a''" "rel z a''" by blast
  with a'(1) show ?case by (blast intro: io_run.extend)
qed (blast intro: io_run.start)

end

subsection \<open>The abstract session\<close>

text \<open>
  The bytes of the request that is being received, the requests that wait for their digest
  and the responses that wait to be sent, both with the oldest first, and the bytes still
  to be sent of the response being sent.
\<close>

record session =
  rx_part :: "byte list"
  to_hash :: "byte list list"
  to_send :: "byte list list"
  tx_rest :: "byte list"

definition no_session :: session where
  "no_session = \<lparr>rx_part = [], to_hash = [], to_send = [], tx_rest = []\<rparr>"

text \<open>The response to a request: its id, then the digest of its data.\<close>

definition reply :: "(byte list \<Rightarrow> byte list) \<Rightarrow> byte list \<Rightarrow> byte list" where
  "reply sha1 r = take 4 r @ sha1 (drop 4 r)"

text \<open>
  The steps. Where \<open>late\<close> is true a reading of the clock failed, and the code sends whatever
  the 24 bytes of the response are at that time.
\<close>

inductive session_step ::
  "(byte list \<Rightarrow> byte list) \<Rightarrow> bool \<Rightarrow> session \<Rightarrow> byte list \<Rightarrow> byte list \<Rightarrow> session \<Rightarrow> bool"
  for sha1 late where
  quiet: "session_step sha1 late S [] [] S"
| receive: "length (rx_part S @ bs) < sizeof_request
    \<Longrightarrow> session_step sha1 late S bs [] (S\<lparr>rx_part := rx_part S @ bs\<rparr>)"
| request_done: "length (rx_part S @ bs) = sizeof_request
    \<Longrightarrow> session_step sha1 late S bs [] (S\<lparr>rx_part := [], to_hash := to_hash S @ [rx_part S @ bs]\<rparr>)"
| digest: "to_hash S = r # rs \<Longrightarrow> length a = sizeof_response \<Longrightarrow> (\<not> late \<Longrightarrow> a = reply sha1 r)
    \<Longrightarrow> session_step sha1 late S [] [] (S\<lparr>to_hash := rs, to_send := to_send S @ [a]\<rparr>)"
| transmit: "tx_rest S = bs @ rest \<Longrightarrow> session_step sha1 late S [] bs (S\<lparr>tx_rest := rest\<rparr>)"
| response_next: "tx_rest S = [] \<Longrightarrow> to_send S = (bs @ rest) # as
    \<Longrightarrow> session_step sha1 late S [] bs (S\<lparr>tx_rest := rest, to_send := as\<rparr>)"

text \<open>The next response may become the one being sent before any byte of it is sent.\<close>

definition loaded :: "session \<Rightarrow> session \<Rightarrow> bool" where
  "loaded S S1 \<longleftrightarrow> S1 = S \<or> (\<exists>a as. tx_rest S = [] \<and> to_send S = a # as
     \<and> S1 = S\<lparr>tx_rest := a, to_send := as\<rparr>)"

lemma loaded_transmit:
  assumes "loaded S S1" and "tx_rest S1 = bs @ rest"
  shows "session_step sha1 late S [] bs (S1\<lparr>tx_rest := rest\<rparr>)"
proof (cases "S1 = S")
  case True
  with assms(2) show ?thesis by (simp add: session_step.transmit)
next
  case False
  with assms obtain as where a: "tx_rest S = []" "to_send S = (bs @ rest) # as"
    "S1 = S\<lparr>tx_rest := bs @ rest, to_send := as\<rparr>" by (auto simp: loaded_def)
  then have "S1\<lparr>tx_rest := rest\<rparr> = S\<lparr>tx_rest := rest, to_send := as\<rparr>" by simp
  with session_step.response_next [OF a(1,2)] show ?thesis by metis
qed

text \<open>What a session still owes its client.\<close>

definition owed :: "(byte list \<Rightarrow> byte list) \<Rightarrow> session \<Rightarrow> byte list" where
  "owed sha1 S = tx_rest S @ concat (to_send S) @ concat (map (reply sha1) (to_hash S))"

lemma session_step_owed:
  assumes "session_step sha1 False S i out S'"
  shows "\<exists>rs. rx_part S @ i = concat rs @ rx_part S' \<and> (\<forall>r \<in> set rs. length r = sizeof_request)
    \<and> out @ owed sha1 S' = owed sha1 S @ concat (map (reply sha1) rs)"
  using assms
proof (cases rule: session_step.cases)
  case (request_done)
  then show ?thesis by (intro exI [of _ "[rx_part S @ i]"]) (simp add: owed_def)
qed (auto simp: owed_def intro: exI [of _ "[]"])

lemma session_step_part:
  "session_step sha1 late S i out S' \<Longrightarrow> length (rx_part S) < sizeof_request
    \<Longrightarrow> length (rx_part S') < sizeof_request"
  by (auto elim!: session_step.cases)

text \<open>Over a run: the requests are cut out of the input, and answered in order.\<close>

lemma session_run_owed:
  assumes "io_run (session_step sha1 False) S ins outs S'"
  shows "\<exists>rs. rx_part S @ ins = concat rs @ rx_part S' \<and> (\<forall>r \<in> set rs. length r = sizeof_request)
    \<and> outs @ owed sha1 S' = owed sha1 S @ concat (map (reply sha1) rs)"
  using assms
proof (induction rule: io_run.induct)
  case (start S)
  show ?case by (intro exI [of _ "[]"]) simp
next
  case (extend S ins outs S1 i out S2)
  then obtain rs where rs: "rx_part S @ ins = concat rs @ rx_part S1"
    "\<forall>r \<in> set rs. length r = sizeof_request"
    "outs @ owed sha1 S1 = owed sha1 S @ concat (map (reply sha1) rs)" by blast
  from session_step_owed [OF extend.hyps(2)] obtain qs where qs: "rx_part S1 @ i = concat qs @ rx_part S2"
    "\<forall>r \<in> set qs. length r = sizeof_request"
    "out @ owed sha1 S2 = owed sha1 S1 @ concat (map (reply sha1) qs)" by blast
  have "rx_part S @ ins @ i = concat rs @ rx_part S1 @ i"
    using rs(1) by (metis append_assoc)
  moreover have "outs @ out @ owed sha1 S2 = owed sha1 S @ concat (map (reply sha1) (rs @ qs))"
    unfolding qs(3) using rs(3) by (metis append_assoc concat_append map_append)
  ultimately show ?case
    using rs(2) qs(1,2) by (intro exI [of _ "rs @ qs"]) auto
qed

lemma session_run_part:
  "io_run (session_step sha1 late) S ins outs S' \<Longrightarrow> length (rx_part S) < sizeof_request
    \<Longrightarrow> length (rx_part S') < sizeof_request"
  by (induction rule: io_run.induct) (auto dest: session_step_part)

subsection \<open>The session of a connection\<close>

text \<open>The buffers among the nodes of a queue, and those of connection \<open>c\<close>.\<close>

fun node_bufs :: "node \<Rightarrow> nat list" where
  "node_bufs (BufQ b) = [b]"
| "node_bufs (ConnQ c) = []"
| "node_bufs (Divider r) = []"

definition buf_ids :: "node list \<Rightarrow> nat list" where
  "buf_ids ns = concat (map node_bufs ns)"

lemma buf_ids_simps [simp]:
  "buf_ids [] = []" "buf_ids (BufQ b # ns) = b # buf_ids ns"
  "buf_ids (ns @ ms) = buf_ids ns @ buf_ids ms"
  by (simp_all add: buf_ids_def)

lemma buf_ids_Cons: "buf_ids (n # ns) = node_bufs n @ buf_ids ns"
  by (simp add: buf_ids_def)

lemma mem_buf_ids [simp]: "b \<in> set (buf_ids ns) \<longleftrightarrow> BufQ b \<in> set ns"
proof (induction ns)
  case (Cons n ns)
  then show ?case by (cases n) (auto simp: buf_ids_Cons)
qed simp

lemma buf_ids_removeAll: "buf_ids (removeAll (BufQ b) ns) = removeAll b (buf_ids ns)"
proof (induction ns)
  case (Cons n ns)
  then show ?case by (cases n) (auto simp: buf_ids_Cons)
qed simp

definition msgs_of :: "'w srv \<Rightarrow> nat \<Rightarrow> node list \<Rightarrow> nat list" where
  "msgs_of s c ns = filter (\<lambda>b. conn (bufs s b) = Some c) (buf_ids ns)"

text \<open>The requests of \<open>c\<close> that wait for their digest, and its responses that wait to be sent.\<close>

definition hash_bufs :: "(root_id \<rightharpoonup> node list) \<Rightarrow> 'w srv \<Rightarrow> nat \<Rightarrow> nat list" where
  "hash_bufs Q s c = msgs_of s c (the (Q (cir s (nat (computeidx (conns s c))))))"

definition send_bufs :: "(root_id \<rightharpoonup> node list) \<Rightarrow> 'w srv \<Rightarrow> nat \<Rightarrow> nat list" where
  "send_bufs Q s c = buf_ids (sendq Q c)
     @ msgs_of s c (the (Q (sir s (nat (submitidx (conns s c))))))"

definition part_bytes :: "'w srv \<Rightarrow> nat \<Rightarrow> byte list" where
  "part_bytes s c = (case recvbuf (conns s c) of None \<Rightarrow> []
     | Some b \<Rightarrow> take (ptr (bufs s b)) (msg (bufs s b)))"

definition rest_bytes :: "'w srv \<Rightarrow> nat \<Rightarrow> byte list" where
  "rest_bytes s c = (case sendbuf (conns s c) of None \<Rightarrow> []
     | Some b \<Rightarrow> drop (ptr (bufs s b)) (msg (bufs s b)))"

definition session_of :: "(root_id \<rightharpoonup> node list) \<Rightarrow> 'w srv \<Rightarrow> nat \<Rightarrow> session" where
  "session_of Q s c = \<lparr>rx_part = part_bytes s c,
     to_hash = map (\<lambda>b. req_bytes (msg (bufs s b))) (hash_bufs Q s c),
     to_send = map (\<lambda>b. res_bytes (msg (bufs s b))) (send_bufs Q s c),
     tx_rest = rest_bytes s c\<rparr>"

lemma session_of_sel [simp]:
  "rx_part (session_of Q s c) = part_bytes s c"
  "to_hash (session_of Q s c) = map (\<lambda>b. req_bytes (msg (bufs s b))) (hash_bufs Q s c)"
  "to_send (session_of Q s c) = map (\<lambda>b. res_bytes (msg (bufs s b))) (send_bufs Q s c)"
  "tx_rest (session_of Q s c) = rest_bytes s c"
  by (simp_all add: session_of_def)

text \<open>A session depends on the lists and on what is in the buffers of the connection.\<close>

lemma session_eqI:
  assumes "recvbuf (conns s' c) = recvbuf (conns s c)" "sendbuf (conns s' c) = sendbuf (conns s c)"
    and "hash_bufs Q' s' c = hash_bufs Q s c" "send_bufs Q' s' c = send_bufs Q s c"
    and "\<And>x. x \<in> set (hash_bufs Q s c) \<Longrightarrow> bufs s' x = bufs s x"
      "\<And>x. x \<in> set (send_bufs Q s c) \<Longrightarrow> bufs s' x = bufs s x"
      "\<And>x. recvbuf (conns s c) = Some x \<Longrightarrow> bufs s' x = bufs s x"
      "\<And>x. sendbuf (conns s c) = Some x \<Longrightarrow> bufs s' x = bufs s x"
  shows "session_of Q' s' c = session_of Q s c"
  unfolding session_of_def part_bytes_def rest_bytes_def assms(1-4)
  using assms(5-8) by (auto split: option.splits)

lemma session_cong:
  assumes "same_ctx s s'" and "conns s' = conns s" and "bufs s' = bufs s"
  shows "session_of Q s' c = session_of Q s c"
  by (rule session_eqI) (simp_all add: hash_bufs_def send_bufs_def msgs_of_def
      same_ctx_roots [OF assms(1)] assms(2,3))

end
