(* ===== verification/Server_Moves.thy ===== *)
theory Server_Moves
  imports Session
begin

section \<open>The moves that rounds are made of\<close>

text \<open>
  A round of a worker moves one buffer from one place to another and updates the
  connection the message belongs to. \<open>moves\<close> says what such a change may touch; it keeps
  the structural part of the invariant, so that only the counters of the one connection
  are left to check for each round. Opening, recycling and draining a connection are the
  three other changes.
\<close>

definition srv_core ::
  "nat set \<Rightarrow> nat set \<Rightarrow> (root_id \<rightharpoonup> node list) \<Rightarrow> 'w srv \<Rightarrow> bool" where
  "srv_core B C Q s \<longleftrightarrow>
     finite B \<and> card B < 2 ^ 32 \<and> qrep (qh s) Q \<and> ctx_ok s \<and> queues_ok B C Q s
     \<and> conserved B C Q s \<and> inboxes_ok C Q s \<and> bufs_ok B C Q s"

lemma srv_inv_core: "srv_inv B C Q s \<longleftrightarrow> srv_core B C Q s \<and> conns_ok C Q s"
  by (auto simp: srv_inv_def srv_core_def)

lemma srv_coreD:
  assumes "srv_core B C Q s"
  shows "finite B" "card B < 2 ^ 32" "qrep (qh s) Q" "ctx_ok s" "queues_ok B C Q s"
    "conserved B C Q s" "inboxes_ok C Q s" "bufs_ok B C Q s"
  using assms by (simp_all add: srv_core_def)

definition place_ok ::
  "nat set \<Rightarrow> (root_id \<rightharpoonup> node list) \<Rightarrow> 'w srv \<Rightarrow> 'w srv \<Rightarrow> nat \<Rightarrow> nat \<Rightarrow> place \<Rightarrow> bool" where
  "place_ok C Q s s' c b P \<longleftrightarrow>
     (case P of
        InQueue r \<Rightarrow> r \<noteq> ecr s \<and> (\<forall>d. r = RSend d \<longrightarrow> d = c \<and> is_open C Q s c)
          \<and> (r \<in> inbox_roots s \<longrightarrow> conn (bufs s' b) = Some c)
          \<and> (\<forall>i < n_comp s. r = cir s i \<longrightarrow> computeidx (conns s c) = int i)
          \<and> (\<forall>i < n_sub s. r = sir s i \<longrightarrow> submitidx (conns s c) = int i)
      | AsRecv d \<Rightarrow> d = c \<and> is_open C Q s c \<and> recv_ok (bufs s' b) c
      | AsSend d \<Rightarrow> d = c \<and> is_open C Q s c \<and> send_ok (bufs s' b))"

text \<open>
  The order in the queues: \<open>b\<close> is taken out of whatever queue it was in, and is the last of
  the queue it goes to, if it goes to one.
\<close>

definition shifts ::
  "(root_id \<rightharpoonup> node list) \<Rightarrow> (root_id \<rightharpoonup> node list) \<Rightarrow> nat \<Rightarrow> place \<Rightarrow> bool" where
  "shifts Q Q' b P \<longleftrightarrow> (\<forall>r ns. Q r = Some ns \<longrightarrow>
     Q' r = Some (removeAll (BufQ b) ns @ (if P = InQueue r then [BufQ b] else [])))"

lemma shifts_none: "(\<And>r. \<not> inq Q r (BufQ b)) \<Longrightarrow> (\<And>r. P \<noteq> InQueue r) \<Longrightarrow> shifts Q Q b P"
  by (auto simp: shifts_def inq_def removeAll_id)

lemma shifts_put:
  "(\<And>r. \<not> inq Q r (BufQ b)) \<Longrightarrow> Q r = Some ns \<Longrightarrow> shifts Q (Q(r \<mapsto> ns @ [BufQ b])) b (InQueue r)"
  by (auto simp: shifts_def inq_def removeAll_id)

lemma shifts_between:
  assumes "qrep h Q" and "Q r1 = Some (BufQ b # ns)" and "Q r2 = Some ms" and "r1 \<noteq> r2"
  shows "shifts Q (Q(r1 \<mapsto> ns, r2 \<mapsto> ms @ [BufQ b])) b (InQueue r2)"
proof -
  have "BufQ b \<notin> set ns" using qrep_distinct [OF assms(1,2)] by simp
  moreover have "BufQ b \<notin> set xs" if "Q r = Some xs" "r \<noteq> r1" for r xs
    using qrep_disjoint [OF assms(1) that(1) assms(2), of "BufQ b"] that(2) by auto
  ultimately show ?thesis using assms(2-4) by (auto simp: shifts_def removeAll_id)
qed

lemma shifts_get:
  assumes "qrep h Q" and "Q r1 = Some (BufQ b # ns)" and "\<And>r. P \<noteq> InQueue r"
  shows "shifts Q (Q(r1 \<mapsto> ns)) b P"
proof -
  have "BufQ b \<notin> set ns" using qrep_distinct [OF assms(1,2)] by simp
  moreover have "BufQ b \<notin> set xs" if "Q r = Some xs" "r \<noteq> r1" for r xs
    using qrep_disjoint [OF assms(1) that(1) assms(2), of "BufQ b"] that(2) by auto
  ultimately show ?thesis using assms(2,3) by (auto simp: shifts_def removeAll_id)
qed

definition moves ::
  "nat set \<Rightarrow> nat set \<Rightarrow> (root_id \<rightharpoonup> node list) \<Rightarrow> 'w srv \<Rightarrow> (root_id \<rightharpoonup> node list) \<Rightarrow> 'w srv
    \<Rightarrow> nat \<Rightarrow> nat \<Rightarrow> place \<Rightarrow> bool" where
  "moves B C Q s Q' s' c b P \<longleftrightarrow>
     same_ctx s s' \<and> qrep (qh s') Q' \<and> b \<in> B \<and> is_live C Q s c \<and> dom Q \<subseteq> dom Q'
     \<and> (\<forall>r x. inq Q' r (BufQ x) \<longleftrightarrow> (if x = b then P = InQueue r else inq Q r (BufQ x)))
     \<and> (\<forall>r x. inq Q' r (ConnQ x) \<longleftrightarrow> inq Q r (ConnQ x))
     \<and> (\<forall>r x. \<not> inq Q' r (Divider x))
     \<and> (\<forall>d. d \<noteq> c \<longrightarrow> conns s' d = conns s d \<and> Q' (RSend d) = Q (RSend d))
     \<and> closed (conns s' c) = closed (conns s c)
     \<and> computeidx (conns s' c) = computeidx (conns s c)
     \<and> submitidx (conns s' c) = submitidx (conns s c)
     \<and> (is_open C Q s c \<longrightarrow>
         (\<forall>x. recvbuf (conns s' c) = Some x
            \<longleftrightarrow> (if x = b then P = AsRecv c else recvbuf (conns s c) = Some x))
         \<and> (\<forall>x. sendbuf (conns s' c) = Some x
            \<longleftrightarrow> (if x = b then P = AsSend c else sendbuf (conns s c) = Some x)))
     \<and> (\<forall>x. x \<noteq> b \<longrightarrow> bufs s' x = bufs s x) \<and> length (msg (bufs s' b)) = 1048
     \<and> (\<forall>r \<in> inbox_roots s. inq Q r (BufQ b) \<longrightarrow> conn (bufs s b) = Some c)
     \<and> (\<forall>d. at_place C Q s b (AsRecv d) \<or> at_place C Q s b (AsSend d) \<longrightarrow> d = c)
     \<and> place_ok C Q s s' c b P \<and> shifts Q Q' b P"

lemma moves_ctx:
  assumes "moves B C Q s Q' s' c b P"
  shows "same_ctx s s'" "qrep (qh s') Q'" "b \<in> B" "is_live C Q s c" "dom Q \<subseteq> dom Q'"
  using assms by (simp_all add: moves_def)

lemma moves_nodes:
  assumes "moves B C Q s Q' s' c b P"
  shows "inq Q' r (BufQ x) \<longleftrightarrow> (if x = b then P = InQueue r else inq Q r (BufQ x))"
    "inq Q' r (ConnQ x) \<longleftrightarrow> inq Q r (ConnQ x)"
    "\<not> inq Q' r (Divider rx)"
    "d \<noteq> c \<Longrightarrow> Q' (RSend d) = Q (RSend d)"
  using assms unfolding moves_def by blast+

lemma moves_conns:
  assumes "moves B C Q s Q' s' c b P"
  shows "d \<noteq> c \<Longrightarrow> conns s' d = conns s d"
    "closed (conns s' d) = closed (conns s d)" "computeidx (conns s' d) = computeidx (conns s d)"
    "submitidx (conns s' d) = submitidx (conns s d)"
    "is_open C Q s c \<Longrightarrow> recvbuf (conns s' c) = Some x
       \<longleftrightarrow> (if x = b then P = AsRecv c else recvbuf (conns s c) = Some x)"
    "is_open C Q s c \<Longrightarrow> sendbuf (conns s' c) = Some x
       \<longleftrightarrow> (if x = b then P = AsSend c else sendbuf (conns s c) = Some x)"
proof -
  show other: "d \<noteq> c \<Longrightarrow> conns s' d = conns s d" for d
    using assms unfolding moves_def by blast
  have "closed (conns s' c) = closed (conns s c)"
    "computeidx (conns s' c) = computeidx (conns s c)"
    "submitidx (conns s' c) = submitidx (conns s c)"
    using assms unfolding moves_def by blast+
  then show "closed (conns s' d) = closed (conns s d)"
    "computeidx (conns s' d) = computeidx (conns s d)"
    "submitidx (conns s' d) = submitidx (conns s d)"
    by (cases "d = c"; simp add: other)+
qed (use assms in \<open>unfold moves_def, blast+\<close>)

lemma moves_bufs:
  assumes "moves B C Q s Q' s' c b P"
  shows "x \<noteq> b \<Longrightarrow> bufs s' x = bufs s x" "length (msg (bufs s' b)) = 1048"
    "r \<in> inbox_roots s \<Longrightarrow> inq Q r (BufQ b) \<Longrightarrow> conn (bufs s b) = Some c"
    "at_place C Q s b (AsRecv d) \<Longrightarrow> d = c" "at_place C Q s b (AsSend d) \<Longrightarrow> d = c"
    "place_ok C Q s s' c b P" "shifts Q Q' b P"
  using assms unfolding moves_def by blast+

lemma moves_live:
  assumes "moves B C Q s Q' s' c b P"
  shows "is_live C Q' s' d = is_live C Q s d" "is_open C Q' s' d = is_open C Q s d"
  by (simp_all add: is_open_def is_live_def same_ctx_roots [OF moves_ctx(1) [OF assms]]
      moves_nodes [OF assms] moves_conns(2) [OF assms])

lemma moves_place:
  assumes m: "moves B C Q s Q' s' c b P"
  shows "at_place C Q' s' x p \<longleftrightarrow> (if x \<in> {b} then p = P else at_place C Q s x p)"
proof (cases p)
  case (InQueue r)
  then show ?thesis by (auto simp: moves_nodes(1) [OF m])
next
  case (AsRecv d)
  show ?thesis
  proof (cases "d = c")
    case True
    with moves_conns(5) [OF m, of x] moves_bufs(6) [OF m] AsRecv show ?thesis
      by (auto simp: moves_live [OF m] place_ok_def)
  next
    case False
    with moves_conns(1) [OF m False] moves_bufs(4,6) [OF m] AsRecv show ?thesis
      by (auto simp: moves_live [OF m] place_ok_def)
  qed
next
  case (AsSend d)
  show ?thesis
  proof (cases "d = c")
    case True
    with moves_conns(6) [OF m, of x] moves_bufs(6) [OF m] AsSend show ?thesis
      by (auto simp: moves_live [OF m] place_ok_def)
  next
    case False
    with moves_conns(1) [OF m False] moves_bufs(5,6) [OF m] AsSend show ?thesis
      by (auto simp: moves_live [OF m] place_ok_def)
  qed
qed

lemma moves_inflight:
  assumes m: "moves B C Q s Q' s' c b P"
  shows "d \<noteq> c \<Longrightarrow> inflight Q' s' d = inflight Q s d"
    "inflight Q' s' c = (if \<exists>r \<in> inbox_roots s. P = InQueue r then insert b (inflight Q s c)
       else inflight Q s c - {b})"
proof -
  note r = same_ctx_roots [OF moves_ctx(1) [OF m]]
  have P: "conn (bufs s' b) = Some c" if "r \<in> inbox_roots s" "P = InQueue r" for r
    using moves_bufs(6) [OF m] that by (simp add: place_ok_def)
  have *: "x \<in> inflight Q' s' d \<longleftrightarrow>
      (if x = b then d = c \<and> (\<exists>r \<in> inbox_roots s. P = InQueue r) else x \<in> inflight Q s d)" for x d
    using P moves_bufs(1) [OF m, of x]
    by (auto simp: inflight_def r moves_nodes(1) [OF m])
  have b: "b \<notin> inflight Q s d" if "d \<noteq> c" for d
    using moves_bufs(3) [OF m] that by (auto simp: inflight_def)
  show "d \<noteq> c \<Longrightarrow> inflight Q' s' d = inflight Q s d"
    using b by (auto simp: * split: if_splits)
  show "inflight Q' s' c = (if \<exists>r \<in> inbox_roots s. P = InQueue r then insert b (inflight Q s c)
       else inflight Q s c - {b})"
    by (auto simp: * split: if_splits)
qed

lemma moves_queues_ok:
  assumes m: "moves B C Q s Q' s' c b P" and q: "queues_ok B C Q s"
  shows "queues_ok B C Q' s'"
proof -
  note r = same_ctx_roots [OF moves_ctx(1) [OF m]]
  note P = moves_bufs(6) [OF m] and D = moves_ctx(5) [OF m] and n = moves_nodes(1-3) [OF m]
  have ecr: "n \<in> ConnQ ` C" if "inq Q' (ecr s) n" for n
    using that q n P by (cases n) (auto simp: queues_ok_def place_ok_def split: if_splits)
  have buf: "n \<in> BufQ ` B" if "inq Q' r' n" "r' \<noteq> ecr s" for r' n
  proof (cases n)
    case (BufQ x)
    with that q n(1) moves_ctx(3) [OF m] show ?thesis
      by (auto simp: queues_ok_def split: if_splits)
  qed (use that q n in \<open>auto simp: queues_ok_def\<close>)
  have snd: "is_open C Q s d" if "inq Q' (RSend d) n" for d n
    using that q n P by (cases n) (auto simp: queues_ok_def place_ok_def split: if_splits)
  from q D have "{ecr s, ebr s} \<union> inbox_roots s \<subseteq> dom Q'"
    "\<forall>c. is_live C Q s c \<longrightarrow> RSend c \<in> dom Q'" unfolding queues_ok_def by blast+
  with ecr buf snd show ?thesis
    unfolding queues_ok_def r moves_live [OF m] by blast
qed

lemma moves_inboxes_ok:
  assumes m: "moves B C Q s Q' s' c b P" and i: "inboxes_ok C Q s"
  shows "inboxes_ok C Q' s'"
proof -
  note r = same_ctx_roots [OF moves_ctx(1) [OF m]]
  note P = moves_bufs(6) [OF m] and n = moves_nodes(1) [OF m]
  have "\<exists>d. conn (bufs s' x) = Some d \<and> is_live C Q s d \<and> computeidx (conns s d) = int i"
    if "i < n_comp s" "inq Q' (cir s i) (BufQ x)" for i x
  proof (cases "x = b")
    case True
    with that n P moves_ctx(4) [OF m] show ?thesis
      using inbox_roots_mem(1) [OF that(1)] by (auto simp: place_ok_def)
  next
    case False
    with that n i show ?thesis by (simp add: inboxes_ok_def moves_bufs(1) [OF m])
  qed
  moreover have "\<exists>d. conn (bufs s' x) = Some d \<and> is_live C Q s d \<and> submitidx (conns s d) = int i"
    if "i < n_sub s" "inq Q' (sir s i) (BufQ x)" for i x
  proof (cases "x = b")
    case True
    with that n P moves_ctx(4) [OF m] show ?thesis
      using inbox_roots_mem(2) [OF that(1)] by (auto simp: place_ok_def)
  next
    case False
    with that n i show ?thesis by (simp add: inboxes_ok_def moves_bufs(1) [OF m])
  qed
  ultimately show ?thesis
    by (simp only: inboxes_ok_def r moves_live [OF m] moves_conns(3,4) [OF m]) blast
qed

lemma moves_bufs_ok:
  assumes m: "moves B C Q s Q' s' c b P" and k: "bufs_ok B C Q s"
  shows "bufs_ok B C Q' s'"
proof (rule bufs_ok_step [OF k])
  note o = moves_live(2) [OF m] and pl = moves_place [OF m]
  show "length (msg (bufs s' b)) = 1048" by (rule moves_bufs(2) [OF m])
  show "\<And>d. d \<noteq> b \<Longrightarrow> bufs s' d = bufs s d" by (rule moves_bufs(1) [OF m])
  fix d x
  assume op: "is_open C Q' s' d"
  show "is_open C Q s d \<and> recvbuf (conns s d) = Some x"
    if "recvbuf (conns s' d) = Some x" "x \<noteq> b"
    using pl [of x "AsRecv d"] op that by simp
  show "is_open C Q s d \<and> sendbuf (conns s d) = Some x"
    if "sendbuf (conns s' d) = Some x" "x \<noteq> b"
    using pl [of x "AsSend d"] op that by simp
  show "recv_ok (bufs s' b) d" if "recvbuf (conns s' d) = Some b"
    using pl [of b "AsRecv d"] op that moves_bufs(6) [OF m] by (auto simp: place_ok_def)
  show "send_ok (bufs s' b)" if "sendbuf (conns s' d) = Some b"
    using pl [of b "AsSend d"] op that moves_bufs(6) [OF m] by (auto simp: place_ok_def)
qed

lemma moves_core:
  assumes m: "moves B C Q s Q' s' c b P" and core: "srv_core B C Q s"
  shows "srv_core B C Q' s'"
proof -
  note r = same_ctx_roots [OF moves_ctx(1) [OF m]] and I = srv_coreD [OF core]
  have "conserved B C Q' s'"
    by (rule conserved_move [OF I(6), where M = "{b}" and P = "\<lambda>_. P"])
      (use moves_ctx(3) [OF m] moves_place [OF m] in auto)
  with I(1,2,4) moves_ctx(2) [OF m] moves_queues_ok [OF m I(5)] moves_inboxes_ok [OF m I(7)]
    moves_bufs_ok [OF m I(8)]
  show ?thesis by (simp add: srv_core_def r)
qed

text \<open>With the counters of the one connection checked, the whole invariant.\<close>

lemma moves_inv:
  assumes m: "moves B C Q s Q' s' c b P" and inv: "srv_inv B C Q s"
    and new: "live_ok (readahead (cfg s)) (conns s' c) (card (inflight Q' s' c))
      (length (sendq Q' c))"
  shows "srv_inv B C Q' s'"
proof -
  have core: "srv_core B C Q s" and cok: "conns_ok C Q s"
    using inv by (simp_all add: srv_inv_core)
  have live: "is_live C Q s c" by (rule moves_ctx(4) [OF m])
  have "conns_ok C Q' s'"
  proof (rule conns_ok_step [OF cok moves_ctx(1) [OF m], where c = c])
    show "conns s' d = conns s d \<and> inflight Q' s' d = inflight Q s d
      \<and> Q' (RSend d) = Q (RSend d) \<and> inq Q' (ecr s) (ConnQ d) = inq Q (ecr s) (ConnQ d)"
      if "d \<noteq> c" for d
      using that moves_conns(1) [OF m] moves_inflight(1) [OF m] moves_nodes(2,4) [OF m] by simp
    have "indices_ok s (conns s c)" using cok live by (simp add: conns_ok_def)
    then show "indices_ok s (conns s' c) \<and> live_ok (readahead (cfg s)) (conns s' c)
        (card (inflight Q' s' c)) (length (sendq Q' c))"
      using new by (simp add: indices_ok_def moves_conns(3,4) [OF m])
    show "sendbuf (conns s' c) = None" if "inq Q' (ecr s) (ConnQ c)"
      using that live moves_nodes(2) [OF m] by (simp add: is_live_def)
  qed
  with moves_core [OF m core] show ?thesis by (simp add: srv_inv_core)
qed

subsection \<open>A connection is opened, closed or recycled\<close>

text \<open>The buffers a connection holds: its send queue, and the two in transfer.\<close>

definition held :: "nat set \<Rightarrow> (root_id \<rightharpoonup> node list) \<Rightarrow> 'w srv \<Rightarrow> nat \<Rightarrow> nat set" where
  "held C Q s c = {x. inq Q (RSend c) (BufQ x) \<or> at_place C Q s x (AsRecv c)
     \<or> at_place C Q s x (AsSend c)}"

text \<open>
  \<open>turns\<close>: the status of connection \<open>c\<close> changes and the buffers it held go to the pool;
  if it is open afterwards, it holds none.
\<close>

definition turns ::
  "nat set \<Rightarrow> (root_id \<rightharpoonup> node list) \<Rightarrow> 'w srv \<Rightarrow> (root_id \<rightharpoonup> node list) \<Rightarrow> 'w srv \<Rightarrow> nat \<Rightarrow> bool" where
  "turns C Q s Q' s' c \<longleftrightarrow>
     same_ctx s s' \<and> qrep (qh s') Q' \<and> c \<in> C \<and> dom Q \<subseteq> dom Q' \<and> bufs s' = bufs s
     \<and> (\<forall>r x. inq Q' r (BufQ x)
          \<longleftrightarrow> (if x \<in> held C Q s c then r = ebr s else inq Q r (BufQ x)))
     \<and> (\<forall>r d. d \<noteq> c \<longrightarrow> inq Q' r (ConnQ d) = inq Q r (ConnQ d))
     \<and> (\<forall>r. inq Q' r (ConnQ c) \<longrightarrow> r = ecr s)
     \<and> (\<forall>r x. \<not> inq Q' r (Divider x))
     \<and> (\<forall>d. d \<noteq> c \<longrightarrow> conns s' d = conns s d \<and> Q' (RSend d) = Q (RSend d))
     \<and> (\<forall>r \<in> inbox_roots s. Q' r = Q r)
     \<and> (is_live C Q' s' c \<longrightarrow> RSend c \<in> dom Q')
     \<and> (is_open C Q' s' c \<longrightarrow> recvbuf (conns s' c) = None \<and> sendbuf (conns s' c) = None)
     \<and> (inflight Q s c = {} \<or> is_live C Q' s' c
          \<and> computeidx (conns s' c) = computeidx (conns s c)
          \<and> submitidx (conns s' c) = submitidx (conns s c))"

lemma turns_ctx:
  assumes "turns C Q s Q' s' c"
  shows "same_ctx s s'" "qrep (qh s') Q'" "c \<in> C" "dom Q \<subseteq> dom Q'" "bufs s' = bufs s"
  using assms by (simp_all add: turns_def)

lemma turns_nodes:
  assumes "turns C Q s Q' s' c"
  shows "inq Q' r (BufQ x) \<longleftrightarrow> (if x \<in> held C Q s c then r = ebr s else inq Q r (BufQ x))"
    "d \<noteq> c \<Longrightarrow> inq Q' r (ConnQ d) = inq Q r (ConnQ d)"
    "inq Q' r (ConnQ c) \<Longrightarrow> r = ecr s"
    "\<not> inq Q' r (Divider rx)"
    "d \<noteq> c \<Longrightarrow> Q' (RSend d) = Q (RSend d)" "d \<noteq> c \<Longrightarrow> conns s' d = conns s d"
    "r \<in> inbox_roots s \<Longrightarrow> Q' r = Q r"
  using assms unfolding turns_def by blast+

lemma turns_self:
  assumes "turns C Q s Q' s' c"
  shows "is_live C Q' s' c \<Longrightarrow> RSend c \<in> dom Q'"
    "is_open C Q' s' c \<Longrightarrow> recvbuf (conns s' c) = None \<and> sendbuf (conns s' c) = None"
    "x \<in> inflight Q s c \<Longrightarrow> is_live C Q' s' c
       \<and> computeidx (conns s' c) = computeidx (conns s c)
       \<and> submitidx (conns s' c) = submitidx (conns s c)"
  using assms unfolding turns_def by blast+

lemma turns_live:
  assumes "turns C Q s Q' s' c" and "d \<noteq> c"
  shows "is_live C Q' s' d = is_live C Q s d" "is_open C Q' s' d = is_open C Q s d"
  by (simp_all add: is_open_def is_live_def same_ctx_roots [OF turns_ctx(1) [OF assms(1)]]
      turns_nodes(2,6) [OF assms])

lemma held_places:
  assumes "conserved B C Q s" and "x \<in> held C Q s c" and "at_place C Q s x p"
  shows "x \<in> B" "p \<in> {InQueue (RSend c), AsRecv c, AsSend c}"
proof -
  have "at_place C Q s x (InQueue (RSend c)) \<or> at_place C Q s x (AsRecv c)
      \<or> at_place C Q s x (AsSend c)"
    using assms(2) by (auto simp: held_def)
  then show "x \<in> B" "p \<in> {InQueue (RSend c), AsRecv c, AsSend c}"
    using conservedD [OF assms(1)] assms(3) by blast+
qed

lemma held_sub:
  assumes "conserved B C Q s"
  shows "held C Q s c \<subseteq> B"
proof
  fix x assume "x \<in> held C Q s c"
  then have "at_place C Q s x (InQueue (RSend c)) \<or> at_place C Q s x (AsRecv c)
      \<or> at_place C Q s x (AsSend c)"
    by (simp add: held_def)
  then show "x \<in> B" using conservedD(1) [OF assms] by blast
qed

lemma turns_place:
  assumes t: "turns C Q s Q' s' c" and k: "conserved B C Q s"
  shows "at_place C Q' s' x p \<longleftrightarrow>
    (if x \<in> held C Q s c then p = InQueue (ebr s) else at_place C Q s x p)"
proof (cases p)
  case (InQueue r)
  then show ?thesis by (auto simp: turns_nodes(1) [OF t])
next
  case (AsRecv d)
  show ?thesis
  proof (cases "d = c")
    case True
    with AsRecv turns_self(2) [OF t] show ?thesis by (auto simp: held_def)
  next
    case False
    have "at_place C Q' s' x p = at_place C Q s x p"
      using AsRecv by (simp add: turns_live [OF t False] turns_nodes(6) [OF t False])
    with AsRecv False held_places(2) [OF k, of x c p] show ?thesis by auto
  qed
next
  case (AsSend d)
  show ?thesis
  proof (cases "d = c")
    case True
    with AsSend turns_self(2) [OF t] show ?thesis by (auto simp: held_def)
  next
    case False
    have "at_place C Q' s' x p = at_place C Q s x p"
      using AsSend by (simp add: turns_live [OF t False] turns_nodes(6) [OF t False])
    with AsSend False held_places(2) [OF k, of x c p] show ?thesis by auto
  qed
qed

lemma turns_inflight:
  assumes t: "turns C Q s Q' s' c" and core: "srv_core B C Q s"
  shows "inflight Q' s' d = inflight Q s d"
proof -
  note I = srv_coreD [OF core] and r = same_ctx_roots [OF turns_ctx(1) [OF t]]
  have "\<not> inq Q rr (BufQ x)" if "x \<in> held C Q s c" "rr \<in> inbox_roots s" for x rr
    using held_places(2) [OF I(6) that(1), of "InQueue rr"] that(2) ctx_ok_distinct(1) [OF I(4)]
    by auto
  moreover have "ebr s \<notin> inbox_roots s" by (rule ctx_ok_pools(5) [OF I(4)])
  ultimately have "(\<exists>rr \<in> inbox_roots s. inq Q' rr (BufQ x)) = (\<exists>rr \<in> inbox_roots s. inq Q rr (BufQ x))"
    for x
    by (cases "x \<in> held C Q s c") (auto simp: turns_nodes(1) [OF t])
  then show ?thesis by (simp add: inflight_def r turns_ctx(5) [OF t])
qed

lemma turns_queues_ok:
  assumes t: "turns C Q s Q' s' c" and core: "srv_core B C Q s"
  shows "queues_ok B C Q' s'"
proof -
  note r = same_ctx_roots [OF turns_ctx(1) [OF t]] and D = turns_ctx(4) [OF t]
  note I = srv_coreD [OF core] and n = turns_nodes [OF t]
  note q = I(5) and p = ctx_ok_pools [OF I(4)]
  have held: "held C Q s c \<subseteq> B"
    by (rule held_sub [OF I(6)])
  have ecr: "m \<in> ConnQ ` C" if "inq Q' (ecr s) m" for m
  proof (cases m)
    case (BufQ x)
    with that q n(1) p(3) have "inq Q (ecr s) (BufQ x)" by (auto split: if_splits)
    with q BufQ show ?thesis by (auto simp: queues_ok_def)
  next
    case (ConnQ d)
    with that q n(2) turns_ctx(3) [OF t] show ?thesis
      by (cases "d = c") (auto simp: queues_ok_def)
  qed (use that n(4) in simp)
  have buf: "m \<in> BufQ ` B" if "inq Q' rr m" "rr \<noteq> ecr s" for rr m
  proof (cases m)
    case (BufQ x)
    with that q n(1) held show ?thesis by (auto simp: queues_ok_def split: if_splits)
  next
    case (ConnQ d)
    with that n(3) have "d \<noteq> c" by auto
    with ConnQ that q n(2) show ?thesis by (auto simp: queues_ok_def)
  qed (use that n(4) in simp)
  have snd: "is_open C Q' s' d" if i: "inq Q' (RSend d) m" for d m
  proof -
    have "RSend d \<noteq> ecr s" "RSend d \<noteq> ebr s" using p(6,7) by metis+
    with buf [OF i] i obtain x where x: "m = BufQ x" "x \<notin> held C Q s c" "inq Q (RSend d) (BufQ x)"
      by (auto simp: n(1) split: if_splits)
    then have "d \<noteq> c" by (auto simp: held_def)
    show ?thesis
      unfolding turns_live(2) [OF t \<open>d \<noteq> c\<close>] by (rule queues_okD(7) [OF q x(3)])
  qed
  have "RSend d \<in> dom Q'" if "is_live C Q' s' d" for d
  proof (cases "d = c")
    case True
    with turns_self(1) [OF t] that show ?thesis by simp
  next
    case False
    with turns_live(1) [OF t False] that have "is_live C Q s d" by simp
    with q D show ?thesis unfolding queues_ok_def by blast
  qed
  moreover have "{ecr s, ebr s} \<union> inbox_roots s \<subseteq> dom Q'"
    using q D unfolding queues_ok_def by blast
  ultimately show ?thesis
    using ecr buf snd unfolding queues_ok_def r by blast
qed

lemma turns_inboxes_ok:
  assumes t: "turns C Q s Q' s' c" and core: "srv_core B C Q s"
  shows "inboxes_ok C Q' s'"
proof -
  note r = same_ctx_roots [OF turns_ctx(1) [OF t]] and I = srv_coreD [OF core]
  note n = turns_nodes(1) [OF t] and b = turns_ctx(5) [OF t]
  have old: "inq Q rr (BufQ x)" if "rr \<in> inbox_roots s" "inq Q' rr (BufQ x)" for rr x
    using that n ctx_ok_pools(5) [OF I(4)] by (auto split: if_splits)
  have keep: "is_live C Q' s' d \<and> computeidx (conns s' d) = computeidx (conns s d)
      \<and> submitidx (conns s' d) = submitidx (conns s d)"
    if "rr \<in> inbox_roots s" "inq Q rr (BufQ x)" "conn (bufs s x) = Some d" "is_live C Q s d"
    for rr x d
  proof (cases "d = c")
    case True
    with that have "x \<in> inflight Q s c" by (auto simp: inflight_def)
    with turns_self(3) [OF t] True show ?thesis by simp
  next
    case False
    with that(4) show ?thesis by (simp add: turns_live [OF t False] turns_nodes(6) [OF t False])
  qed
  have "\<exists>d. conn (bufs s x) = Some d \<and> is_live C Q' s' d \<and> computeidx (conns s' d) = int i"
    if i: "i < n_comp s" "inq Q' (cir s i) (BufQ x)" for i x
  proof -
    have mem: "cir s i \<in> inbox_roots s" by (rule inbox_roots_mem(1) [OF i(1)])
    from old [OF mem i(2)] I(7) i(1) obtain d where
      d: "conn (bufs s x) = Some d" "is_live C Q s d" "computeidx (conns s d) = int i"
      unfolding inboxes_ok_def by blast
    with keep [OF mem old [OF mem i(2)] d(1,2)] show ?thesis by auto
  qed
  moreover have "\<exists>d. conn (bufs s x) = Some d \<and> is_live C Q' s' d \<and> submitidx (conns s' d) = int i"
    if i: "i < n_sub s" "inq Q' (sir s i) (BufQ x)" for i x
  proof -
    have mem: "sir s i \<in> inbox_roots s" by (rule inbox_roots_mem(2) [OF i(1)])
    from old [OF mem i(2)] I(7) i(1) obtain d where
      d: "conn (bufs s x) = Some d" "is_live C Q s d" "submitidx (conns s d) = int i"
      unfolding inboxes_ok_def by blast
    with keep [OF mem old [OF mem i(2)] d(1,2)] show ?thesis by auto
  qed
  ultimately show ?thesis unfolding inboxes_ok_def r b by blast
qed

lemma turns_core:
  assumes t: "turns C Q s Q' s' c" and core: "srv_core B C Q s"
  shows "srv_core B C Q' s'"
proof -
  note r = same_ctx_roots [OF turns_ctx(1) [OF t]] and I = srv_coreD [OF core]
  have sub: "held C Q s c \<subseteq> B"
    by (rule held_sub [OF I(6)])
  have cons: "conserved B C Q' s'"
    by (rule conserved_move [OF I(6) sub, where P = "\<lambda>_. InQueue (ebr s)"])
      (rule turns_place [OF t I(6)])
  have "is_open C Q s d \<and> recvbuf (conns s d) = Some x"
    if "is_open C Q' s' d" "recvbuf (conns s' d) = Some x" for d x
    using turns_place [OF t I(6), of x "AsRecv d"] that by (auto split: if_splits)
  moreover have "is_open C Q s d \<and> sendbuf (conns s d) = Some x"
    if "is_open C Q' s' d" "sendbuf (conns s' d) = Some x" for d x
    using turns_place [OF t I(6), of x "AsSend d"] that by (auto split: if_splits)
  ultimately have "bufs_ok B C Q' s'"
    using I(8) unfolding bufs_ok_def turns_ctx(5) [OF t] by blast
  with cons I(1,2,4) turns_ctx(2) [OF t] turns_queues_ok [OF t core] turns_inboxes_ok [OF t core]
  show ?thesis by (simp add: srv_core_def r)
qed

lemma turns_inv:
  assumes t: "turns C Q s Q' s' c" and inv: "srv_inv B C Q s"
    and new: "is_live C Q' s' c \<Longrightarrow> indices_ok s (conns s' c)
      \<and> live_ok (readahead (cfg s)) (conns s' c) (card (inflight Q s c)) (length (sendq Q' c))"
    and pool: "inq Q' (ecr s) (ConnQ c) \<Longrightarrow> sendbuf (conns s' c) = None"
  shows "srv_inv B C Q' s'"
proof -
  have core: "srv_core B C Q s" and cok: "conns_ok C Q s"
    using inv by (simp_all add: srv_inv_core)
  have "conns_ok C Q' s'"
    by (rule conns_ok_step [OF cok turns_ctx(1) [OF t], where c = c])
      (simp_all add: turns_nodes(2,5,6) [OF t] turns_inflight [OF t core] new pool)
  with turns_core [OF t core] show ?thesis by (simp add: srv_inv_core)
qed

lemma same_ctx_trans: "same_ctx s s1 \<Longrightarrow> same_ctx s1 s2 \<Longrightarrow> same_ctx s s2"
  by (simp add: same_ctx_def)

text \<open>A move after which the connection turns.\<close>

lemma moves_turns_inv:
  assumes m: "moves B C Q s Q1 s1 c b P" and t: "turns C Q1 s1 Q2 s2 c"
    and inv: "srv_inv B C Q s"
    and new: "is_live C Q2 s2 c \<Longrightarrow> indices_ok s (conns s2 c)
      \<and> live_ok (readahead (cfg s)) (conns s2 c) (card (inflight Q1 s1 c)) (length (sendq Q2 c))"
    and pool: "inq Q2 (ecr s) (ConnQ c) \<Longrightarrow> sendbuf (conns s2 c) = None"
  shows "srv_inv B C Q2 s2"
proof -
  have core: "srv_core B C Q s" and cok: "conns_ok C Q s"
    using inv by (simp_all add: srv_inv_core)
  note core1 = moves_core [OF m core]
  have ctx: "same_ctx s s2"
    by (rule same_ctx_trans [OF moves_ctx(1) [OF m] turns_ctx(1) [OF t]])
  have "conns_ok C Q2 s2"
    by (rule conns_ok_step [OF cok ctx, where c = c])
      (simp_all add: turns_nodes(2,5,6) [OF t] turns_inflight [OF t core1] new pool
        moves_conns(1) [OF m] moves_inflight(1) [OF m] moves_nodes(2,4) [OF m])
  with turns_core [OF t core1] show ?thesis by (simp add: srv_inv_core)
qed

text \<open>A live connection is in no queue; a closed one without messages goes to the pool.\<close>

lemma live_unqueued:
  assumes "srv_core B C Q s" and "is_live C Q s c"
  shows "\<forall>r. \<not> inq Q r (ConnQ c)" "unqueued (ConnQ c) Q"
proof -
  note I = srv_coreD [OF assms(1)]
  show *: "\<forall>r. \<not> inq Q r (ConnQ c)"
    using queues_okD(6) [OF I(5)] assms(2) unfolding is_live_def by fastforce
  show "unqueued (ConnQ c) Q" by (rule unqueued_inq) (simp_all add: *)
qed

lemma turns_recycle:
  assumes core: "srv_core B C Q s" and live: "is_live C Q s c" and cl: "closed (conns s c) \<noteq> 0"
    and f: "inflight Q s c = {}" and Q: "Q (ecr s) = Some cs"
    and s': "same_ctx s s'" "conns s' = conns s" "bufs s' = bufs s"
    and rep: "qrep (qh s') (Q(ecr s \<mapsto> cs @ [ConnQ c]))"
  shows "turns C Q s (Q(ecr s \<mapsto> cs @ [ConnQ c])) s' c"
    "\<not> is_live C (Q(ecr s \<mapsto> cs @ [ConnQ c])) s' c"
proof -
  let ?Q = "Q(ecr s \<mapsto> cs @ [ConnQ c])"
  note I = srv_coreD [OF core] and r = same_ctx_roots [OF s'(1)]
  note un = live_unqueued [OF core live] and p = ctx_ok_pools(6) [OF I(4)]
  note inq = inq_added [of Q "ConnQ c" "ecr s" cs, OF un(1) Q]
  have no: "\<not> is_open C Q s c" using cl by (simp add: is_open_def)
  then have held: "held C Q s c = {}" using queues_okD(7) [OF I(5)] by (auto simp: held_def)
  have dv: "\<not> inq Q r (Divider x)" for r x
    using qrep_not_divider [OF I(3)] by (force simp: inq_def)
  show dead: "\<not> is_live C ?Q s' c" using inq by (simp add: is_live_def r)
  then have "\<not> is_open C ?Q s' c" by (simp add: is_open_def)
  moreover have "c \<in> C" using live by (simp add: is_live_def)
  moreover have "?Q (RSend d) = Q (RSend d)" for d using p [of d] by simp
  moreover have "?Q r = Q r" if "r \<in> inbox_roots s" for r
    using that ctx_ok_pools(4) [OF I(4)] by auto
  ultimately show "turns C Q s ?Q s' c"
    using rep s' f dead dv by (auto simp: turns_def held inq)
qed

text \<open>A connection that turns twice.\<close>

lemma turns_turns_inv:
  assumes t1: "turns C Q s Q1 s1 c" and t2: "turns C Q1 s1 Q2 s2 c"
    and inv: "srv_inv B C Q s"
    and dead: "\<not> is_live C Q2 s2 c" and pool: "sendbuf (conns s2 c) = None"
  shows "srv_inv B C Q2 s2"
proof -
  have core: "srv_core B C Q s" and cok: "conns_ok C Q s"
    using inv by (simp_all add: srv_inv_core)
  note core1 = turns_core [OF t1 core]
  have ctx: "same_ctx s s2"
    by (rule same_ctx_trans [OF turns_ctx(1) [OF t1] turns_ctx(1) [OF t2]])
  have "conns_ok C Q2 s2"
    by (rule conns_ok_step [OF cok ctx, where c = c])
      (simp_all add: turns_nodes(2,5,6) [OF t2] turns_inflight [OF t2 core1] dead pool
        turns_nodes(2,5,6) [OF t1] turns_inflight [OF t1 core])
  with turns_core [OF t2 core1] show ?thesis by (simp add: srv_inv_core)
qed

text \<open>Closing: what an open connection without a response in transfer holds is freed.\<close>

lemma turns_close:
  assumes core: "srv_core B C Q s" and op: "is_open C Q s c" and sb: "sendbuf (conns s c) = None"
    and Q: "Q (ebr s) = Some es" "Q (RSend c) = Some ns"
    and rb: "rb = (case recvbuf (conns s c) of None \<Rightarrow> [] | Some b \<Rightarrow> [BufQ b])"
    and s': "same_ctx s s'" "bufs s' = bufs s" "\<And>d. d \<noteq> c \<Longrightarrow> conns s' d = conns s d"
      "closed (conns s' c) \<noteq> 0" "computeidx (conns s' c) = computeidx (conns s c)"
      "submitidx (conns s' c) = submitidx (conns s c)"
    and rep: "qrep (qh s') (Q(ebr s \<mapsto> es @ rb @ ns, RSend c \<mapsto> []))"
  shows "turns C Q s (Q(ebr s \<mapsto> es @ rb @ ns, RSend c \<mapsto> [])) s' c"
proof -
  let ?Q = "Q(ebr s \<mapsto> es @ rb @ ns, RSend c \<mapsto> [])"
  note I = srv_coreD [OF core] and r = same_ctx_roots [OF s'(1)]
  note p = ctx_ok_pools(3,6,7) [OF I(4)]
  have kind: "m \<in> BufQ ` B" if "m \<in> set (es @ rb @ ns)" for m
  proof -
    from that consider "inq Q (ebr s) m" | "inq Q (RSend c) m" | "m \<in> set rb"
      using Q by (auto simp: inq_def)
    then show ?thesis
    proof cases
      case 3
      then obtain b where b: "recvbuf (conns s c) = Some b" "m = BufQ b"
        by (cases "recvbuf (conns s c)") (auto simp: rb)
      with op have "at_place C Q s b (AsRecv c)" by simp
      with conservedD(1) [OF I(6)] b show ?thesis by blast
    qed (use queues_okD(6) [OF I(5)] p(1) p(2) [of c] in \<open>force+\<close>)
  qed
  have held: "x \<in> held C Q s c \<longleftrightarrow> BufQ x \<in> set (rb @ ns)" for x
    using Q(2) op sb by (auto simp: held_def rb inq_def split: option.splits)
  have inqb: "inq ?Q r (BufQ x) \<longleftrightarrow>
      (if x \<in> held C Q s c then r = ebr s else inq Q r (BufQ x))" for r x
  proof (cases "r = ebr s \<or> r = RSend c")
    case True
    with p(3) Q held [of x] show ?thesis by (auto simp: inq_def)
  next
    case False
    then have "x \<in> held C Q s c \<Longrightarrow> \<not> inq Q r (BufQ x)"
      using held_places(2) [OF I(6), of x c "InQueue r"] by auto
    with False show ?thesis by (auto simp: inq_def)
  qed
  have inqc: "inq ?Q r m \<longleftrightarrow> inq Q r m" if "m \<notin> range BufQ" for r m
  proof -
    have "m \<notin> set (es @ rb @ ns)" using kind that by blast
    with Q show ?thesis by (auto simp: inq_def)
  qed
  have dv: "\<not> inq ?Q r (Divider x)" for r x
    using qrep_not_divider [OF rep] by (force simp: inq_def)
  have live: "c \<in> C" "\<not> inq Q r (ConnQ c)" for r
    using op live_unqueued(1) [OF core, of c] by (simp_all add: is_open_def is_live_def)
  have live': "is_live C ?Q s' c"
    using live inqc [of "ConnQ c"] by (simp add: is_live_def image_iff)
  have "?Q (RSend d) = Q (RSend d)" if "d \<noteq> c" for d using p(3) [of d] that by auto
  moreover have "?Q r = Q r" if "r \<in> inbox_roots s" for r
    using that ctx_ok_pools(5) [OF I(4)] ctx_ok_distinct(1) [OF I(4), of c] by auto
  ultimately show ?thesis
    unfolding turns_def using rep s' inqb inqc live live' dv
    by (auto simp: is_open_def image_iff)
qed

subsection \<open>What a move does to the sessions\<close>

lemma moves_msgs:
  assumes m: "moves B C Q s Q' s' c b P" and core: "srv_core B C Q s" and r: "r \<in> inbox_roots s"
  shows "d \<noteq> c \<Longrightarrow> msgs_of s' d (the (Q' r)) = msgs_of s d (the (Q r))"
    "msgs_of s' c (the (Q' r)) = removeAll b (msgs_of s c (the (Q r)))
       @ (if P = InQueue r then [b] else [])"
proof -
  from queues_okD(3) [OF srv_coreD(5) [OF core] r] obtain ns where ns: "Q r = Some ns" by blast
  let ?new = "if P = InQueue r then [b] else []"
  have Q': "buf_ids (the (Q' r)) = removeAll b (buf_ids ns) @ ?new"
    using moves_bufs(7) [OF m] ns by (simp add: shifts_def buf_ids_removeAll)
  have old: "conn (bufs s b) = Some c" if "b \<in> set (buf_ids ns)"
    using moves_bufs(3) [OF m r] that ns by (simp add: inq_def)
  have new: "conn (bufs s' b) = Some c" if "P = InQueue r"
    using moves_bufs(6) [OF m] that r by (simp add: place_ok_def)
  have keep: "filter (\<lambda>x. conn (bufs s' x) = Some d) (removeAll b xs)
      = removeAll b (filter (\<lambda>x. conn (bufs s x) = Some d) xs)" for d xs
    using moves_bufs(1) [OF m] by (induction xs) auto
  show "msgs_of s' c (the (Q' r)) = removeAll b (msgs_of s c (the (Q r))) @ ?new"
    using new by (simp add: msgs_of_def Q' keep ns)
  assume d: "d \<noteq> c"
  then have "b \<notin> set (filter (\<lambda>x. conn (bufs s x) = Some d) (buf_ids ns))" using old by auto
  with d new show "msgs_of s' d (the (Q' r)) = msgs_of s d (the (Q r))"
    by (simp add: msgs_of_def Q' keep ns removeAll_id)
qed

lemma inbox_mem:
  assumes "indices_ok s x"
  shows "cir s (nat (computeidx x)) \<in> inbox_roots s" "sir s (nat (submitidx x)) \<in> inbox_roots s"
  using inbox_roots_mem indices_okD(1,3) [OF assms] by blast+

lemma moves_other:
  assumes m: "moves B C Q s Q' s' c b P" and core: "srv_core B C Q s"
    and d: "d \<noteq> c" "is_open C Q s d" "indices_ok s (conns s d)"
  shows "session_of Q' s' d = session_of Q s d"
proof -
  note I = srv_coreD [OF core] and r = same_ctx_roots [OF moves_ctx(1) [OF m]]
  note c = moves_conns(1) [OF m d(1)] and q = moves_nodes(4) [OF m d(1)]
    and in_ = inbox_mem [OF d(3)]
  have hash: "hash_bufs Q' s' d = hash_bufs Q s d"
    by (simp add: hash_bufs_def c r moves_msgs(1) [OF m core in_(1) d(1)])
  have send: "send_bufs Q' s' d = send_bufs Q s d"
    by (simp add: send_bufs_def c r q moves_msgs(1) [OF m core in_(2) d(1)])
  have "b \<notin> set (hash_bufs Q s d)" "b \<notin> set (msgs_of s d (the (Q (sir s (nat (submitidx (conns s d)))))))"
    using moves_bufs(3) [OF m in_(1)] moves_bufs(3) [OF m in_(2)] d(1)
      queues_okD(3) [OF I(5) in_(1)] queues_okD(3) [OF I(5) in_(2)]
    by (auto simp: hash_bufs_def msgs_of_def inq_def)
  moreover have "b \<notin> set (buf_ids (sendq Q d))"
  proof
    assume b: "b \<in> set (buf_ids (sendq Q d))"
    moreover from queues_okD(4) [OF I(5)] d(2) obtain ns where "Q (RSend d) = Some ns"
      by (auto simp: is_open_def)
    ultimately have "inq Q' (RSend d) (BufQ b)" using q by (simp add: inq_def)
    then have "P = InQueue (RSend d)" using moves_nodes(1) [OF m] by simp
    with moves_bufs(6) [OF m] d(1) show False by (simp add: place_ok_def)
  qed
  moreover have "recvbuf (conns s d) \<noteq> Some b" "sendbuf (conns s d) \<noteq> Some b"
    using moves_bufs(4,5) [OF m, of d] d by auto
  ultimately have "x \<noteq> b" if "x \<in> set (hash_bufs Q s d) \<or> x \<in> set (send_bufs Q s d)
      \<or> recvbuf (conns s d) = Some x \<or> sendbuf (conns s d) = Some x" for x
    using that by (auto simp: send_bufs_def)
  then show ?thesis
    using moves_bufs(1) [OF m] by (intro session_eqI) (simp_all add: c hash send)
qed

text \<open>The lists of the connection itself; no other message changes.\<close>

lemma moves_lists:
  assumes m: "moves B C Q s Q' s' c b P" and core: "srv_core B C Q s"
    and c: "is_open C Q s c" "indices_ok s (conns s c)"
  shows "hash_bufs Q' s' c = removeAll b (hash_bufs Q s c)
      @ (if P = InQueue (cir s (nat (computeidx (conns s c)))) then [b] else [])"
    "send_bufs Q' s' c = removeAll b (buf_ids (sendq Q c))
      @ (if P = InQueue (RSend c) then [b] else [])
      @ removeAll b (msgs_of s c (the (Q (sir s (nat (submitidx (conns s c)))))))
      @ (if P = InQueue (sir s (nat (submitidx (conns s c)))) then [b] else [])"
proof -
  note I = srv_coreD [OF core] and r = same_ctx_roots [OF moves_ctx(1) [OF m]]
  note x = moves_conns(3,4) [OF m] and in_ = inbox_mem [OF c(2)]
  show "hash_bufs Q' s' c = removeAll b (hash_bufs Q s c)
      @ (if P = InQueue (cir s (nat (computeidx (conns s c)))) then [b] else [])"
    by (simp add: hash_bufs_def x r moves_msgs(2) [OF m core in_(1)])
  from queues_okD(4) [OF I(5)] c(1) obtain ns where "Q (RSend c) = Some ns"
    by (auto simp: is_open_def)
  then have "buf_ids (sendq Q' c) = removeAll b (buf_ids (sendq Q c))
      @ (if P = InQueue (RSend c) then [b] else [])"
    using moves_bufs(7) [OF m] by (simp add: shifts_def buf_ids_removeAll)
  then show "send_bufs Q' s' c = removeAll b (buf_ids (sendq Q c))
      @ (if P = InQueue (RSend c) then [b] else [])
      @ removeAll b (msgs_of s c (the (Q (sir s (nat (submitidx (conns s c)))))))
      @ (if P = InQueue (sir s (nat (submitidx (conns s c)))) then [b] else [])"
    by (simp add: send_bufs_def x r moves_msgs(2) [OF m core in_(2)])
qed

text \<open>The session of the connection itself, after a move of \<open>b\<close> to \<open>P\<close>.\<close>

abbreviation cq :: "'w srv \<Rightarrow> nat \<Rightarrow> root_id" where
  "cq s c \<equiv> cir s (nat (computeidx (conns s c)))"

abbreviation sq :: "'w srv \<Rightarrow> nat \<Rightarrow> root_id" where
  "sq s c \<equiv> sir s (nat (submitidx (conns s c)))"

lemma moves_session:
  assumes m: "moves B C Q s Q' s' c b P" and core: "srv_core B C Q s"
    and c: "is_open C Q s c" "indices_ok s (conns s c)"
  shows "session_of Q' s' c =
    \<lparr>rx_part = (if P = AsRecv c then take (ptr (bufs s' b)) (msg (bufs s' b))
       else if recvbuf (conns s c) = Some b then [] else part_bytes s c),
     to_hash = map (\<lambda>x. req_bytes (msg (bufs s x))) (removeAll b (hash_bufs Q s c))
       @ (if P = InQueue (cq s c) then [req_bytes (msg (bufs s' b))] else []),
     to_send = map (\<lambda>x. res_bytes (msg (bufs s x))) (removeAll b (buf_ids (sendq Q c)))
       @ (if P = InQueue (RSend c) then [res_bytes (msg (bufs s' b))] else [])
       @ map (\<lambda>x. res_bytes (msg (bufs s x))) (removeAll b (msgs_of s c (the (Q (sq s c)))))
       @ (if P = InQueue (sq s c) then [res_bytes (msg (bufs s' b))] else []),
     tx_rest = (if P = AsSend c then drop (ptr (bufs s' b)) (msg (bufs s' b))
       else if sendbuf (conns s c) = Some b then [] else rest_bytes s c)\<rparr>"
proof -
  note l = moves_lists [OF m core c] and x = moves_conns(5,6) [OF m c(1)]
  have old: "map (\<lambda>x. f (msg (bufs s' x))) (removeAll b xs) = map (\<lambda>x. f (msg (bufs s x))) (removeAll b xs)"
    for f :: "byte list \<Rightarrow> byte list" and xs
    using moves_bufs(1) [OF m] by (induction xs) auto
  have rx: "recvbuf (conns s' c) = (if P = AsRecv c then Some b
      else if recvbuf (conns s c) = Some b then None else recvbuf (conns s c))"
    by (cases "P = AsRecv c", use x(1) [of b] in simp, rule option_eqI) (auto simp: x(1))
  have tx: "sendbuf (conns s' c) = (if P = AsSend c then Some b
      else if sendbuf (conns s c) = Some b then None else sendbuf (conns s c))"
    by (cases "P = AsSend c", use x(2) [of b] in simp, rule option_eqI) (auto simp: x(2))
  have "part_bytes s' c = (if P = AsRecv c then take (ptr (bufs s' b)) (msg (bufs s' b))
       else if recvbuf (conns s c) = Some b then [] else part_bytes s c)"
    using moves_bufs(1) [OF m] by (auto simp: part_bytes_def rx split: option.splits)
  moreover have "rest_bytes s' c = (if P = AsSend c then drop (ptr (bufs s' b)) (msg (bufs s' b))
       else if sendbuf (conns s c) = Some b then [] else rest_bytes s c)"
    using moves_bufs(1) [OF m] by (auto simp: rest_bytes_def tx split: option.splits)
  ultimately show ?thesis
    unfolding session_of_def by (simp add: l old)
qed

text \<open>Where the buffer was before.\<close>

lemma place_lists:
  assumes core: "srv_core B C Q s" and c: "is_open C Q s c" "indices_ok s (conns s c)"
    and at: "at_place C Q s b p"
  shows "b \<in> set (hash_bufs Q s c) \<Longrightarrow> p = InQueue (cq s c)"
    "BufQ b \<in> set (sendq Q c) \<Longrightarrow> p = InQueue (RSend c)"
    "b \<in> set (msgs_of s c (the (Q (sq s c)))) \<Longrightarrow> p = InQueue (sq s c)"
    "recvbuf (conns s c) = Some b \<Longrightarrow> p = AsRecv c"
    "sendbuf (conns s c) = Some b \<Longrightarrow> p = AsSend c"
proof -
  note I = srv_coreD [OF core] and one = conservedD(2) [OF srv_coreD(6) [OF core] at]
  note in_ = inbox_mem [OF c(2)]
  have "inq Q r (BufQ b)" if "BufQ b \<in> set (the (Q r))" "r \<in> inbox_roots s \<or> r = RSend c" for r
    using that queues_okD(3,4) [OF I(5)] c(1) by (fastforce simp: inq_def is_open_def)
  then have q: "p = InQueue r" if "BufQ b \<in> set (the (Q r))" "r \<in> inbox_roots s \<or> r = RSend c" for r
    using one [of "InQueue r"] that by simp
  show "b \<in> set (hash_bufs Q s c) \<Longrightarrow> p = InQueue (cq s c)"
    "BufQ b \<in> set (sendq Q c) \<Longrightarrow> p = InQueue (RSend c)"
    "b \<in> set (msgs_of s c (the (Q (sq s c)))) \<Longrightarrow> p = InQueue (sq s c)"
    using q in_ by (auto simp: hash_bufs_def msgs_of_def)
  show "recvbuf (conns s c) = Some b \<Longrightarrow> p = AsRecv c"
    "sendbuf (conns s c) = Some b \<Longrightarrow> p = AsSend c"
    using one [of "AsRecv c"] one [of "AsSend c"] c(1) by simp_all
qed

lemma turns_other:
  assumes t: "turns C Q s Q' s' c" and d: "d \<noteq> c" "indices_ok s (conns s d)"
  shows "session_of Q' s' d = session_of Q s d"
proof -
  note r = same_ctx_roots [OF turns_ctx(1) [OF t]] and n = turns_nodes(5,6) [OF t d(1)]
  note in_ = inbox_mem [OF d(2), THEN turns_nodes(7) [OF t]]
  show ?thesis
    by (rule session_eqI) (simp_all add: hash_bufs_def send_bufs_def msgs_of_def r n in_ turns_ctx(5) [OF t])
qed

subsection \<open>Which connections are open\<close>

text \<open>
  No step but an accept opens a connection: those open afterwards are those that were and
  have not been closed. A step concerns one connection \<open>c\<close>; the sessions of the others do
  not change.
\<close>

definition goes ::
  "nat \<Rightarrow> nat set \<Rightarrow> (root_id \<rightharpoonup> node list) \<Rightarrow> 'w srv \<Rightarrow> (root_id \<rightharpoonup> node list) \<Rightarrow> 'w srv \<Rightarrow> bool"
  where
  "goes c C Q s Q' s' \<longleftrightarrow> same_ctx s s'
     \<and> (\<forall>d. is_open C Q' s' d \<longleftrightarrow> is_open C Q s d \<and> closed (conns s' d) = 0)
     \<and> (\<forall>d. closed (conns s' d) = 0 \<longrightarrow> closed (conns s d) = 0)
     \<and> (\<forall>d. d \<noteq> c \<longrightarrow> is_open C Q s d \<longrightarrow> indices_ok s (conns s d) \<longrightarrow>
          conns s' d = conns s d \<and> session_of Q' s' d = session_of Q s d)"

lemma goes_ctx: "goes c C Q s Q' s' \<Longrightarrow> same_ctx s s'"
  by (simp add: goes_def)

lemma goes_open:
  "goes c C Q s Q' s' \<Longrightarrow> is_open C Q' s' d \<longleftrightarrow> is_open C Q s d \<and> closed (conns s' d) = 0"
  by (simp add: goes_def)

lemma goes_other:
  "goes c C Q s Q' s' \<Longrightarrow> d \<noteq> c \<Longrightarrow> is_open C Q s d \<Longrightarrow> indices_ok s (conns s d)
    \<Longrightarrow> session_of Q' s' d = session_of Q s d"
  by (simp add: goes_def)

lemma indices_ok_ctx: "same_ctx s s' \<Longrightarrow> indices_ok s' = indices_ok s"
  by (simp add: indices_ok_def same_ctx_roots fun_eq_iff)

lemma goes_trans:
  assumes "goes c C Q s Q1 s1" and "goes c C Q1 s1 Q2 s2"
  shows "goes c C Q s Q2 s2"
proof -
  note i = indices_ok_ctx [OF goes_ctx [OF assms(1)]]
  show ?thesis
    unfolding goes_def
  proof (intro conjI allI impI)
    show "same_ctx s s2" using assms same_ctx_trans unfolding goes_def by blast
    fix d
    show "is_open C Q2 s2 d \<longleftrightarrow> is_open C Q s d \<and> closed (conns s2 d) = 0"
      and "closed (conns s2 d) = 0 \<Longrightarrow> closed (conns s d) = 0"
      using assms unfolding goes_def by blast+
    assume d: "d \<noteq> c" "is_open C Q s d" "indices_ok s (conns s d)"
    then have 1: "conns s1 d = conns s d" "session_of Q1 s1 d = session_of Q s d"
      using assms(1) by (simp_all add: goes_def)
    then have "is_open C Q1 s1 d" "indices_ok s1 (conns s1 d)"
      using goes_open [OF assms(1), of d] d(2,3) by (simp_all add: i) (simp add: is_open_def)
    then show "conns s2 d = conns s d" "session_of Q2 s2 d = session_of Q s d"
      using assms(2) d(1) 1 by (simp_all add: goes_def)
  qed
qed

lemma goes_same:
  "same_ctx s s' \<Longrightarrow> conns s' = conns s \<Longrightarrow> bufs s' = bufs s \<Longrightarrow> goes c C Q s Q s'"
  by (auto simp: goes_def is_open_def is_live_def same_ctx_roots session_cong)

lemma goes_qh: "goes c C Q s Q (s\<lparr>qh := h\<rparr>)"
  by (rule goes_same) (simp_all add: same_ctx_def)

lemma moves_goes:
  assumes m: "moves B C Q s Q' s' c b P" and core: "srv_core B C Q s"
  shows "goes c C Q s Q' s'"
  using moves_ctx(1) [OF m] moves_other [OF m core] moves_conns(1) [OF m]
  by (auto simp: goes_def is_open_def moves_live(1) [OF m] moves_conns(2) [OF m])

lemma turns_goes:
  assumes t: "turns C Q s Q' s' c" and "closed (conns s' c) \<noteq> 0"
  shows "goes c C Q s Q' s'"
  unfolding goes_def
proof (intro conjI allI impI)
  fix d
  show "is_open C Q' s' d \<longleftrightarrow> is_open C Q s d \<and> closed (conns s' d) = 0"
    using assms(2) turns_live(2) [OF t, of d] turns_nodes(6) [OF t, of d]
    by (cases "d = c") (auto simp: is_open_def)
  show "closed (conns s' d) = 0 \<Longrightarrow> closed (conns s d) = 0"
    using assms(2) turns_nodes(6) [OF t, of d] by (cases "d = c") auto
  show "d \<noteq> c \<Longrightarrow> conns s' d = conns s d" by (rule turns_nodes(6) [OF t])
  show "d \<noteq> c \<Longrightarrow> indices_ok s (conns s d) \<Longrightarrow> session_of Q' s' d = session_of Q s d"
    by (rule turns_other [OF t])
qed (rule turns_ctx(1) [OF t])

end
