(* ===== verification/Server_Steps.thy ===== *)
theory Server_Steps
  imports Server_Moves
begin

section \<open>Rounds of the compute, submit and accept workers\<close>

text \<open>
  Each round, started in a state that satisfies the invariant, returns normally and leaves
  the invariant true, for queue contents that the proof gives.
\<close>

text \<open>
  The first message of a queue goes to the end of another, and its connection keeps its
  buffers, its status and its threads.
\<close>

lemma moves_between:
  assumes core: "srv_core B C Q s" and Q: "Q r1 = Some (BufQ b # ns)" "Q r2 = Some ms"
    and Q': "Q' = Q(r1 \<mapsto> ns, r2 \<mapsto> ms @ [BufQ b])" and ne: "r1 \<noteq> r2"
    and rep: "same_ctx s s'" "qrep (qh s') Q'"
    and live: "is_live C Q s c" and b: "b \<in> B" "length (msg (bufs s' b)) = 1048"
    and snd: "\<And>d. r1 = RSend d \<or> r2 = RSend d \<Longrightarrow> d = c"
    and cs: "\<And>d. d \<noteq> c \<Longrightarrow> conns s' d = conns s d" "\<And>x. x \<noteq> b \<Longrightarrow> bufs s' x = bufs s x"
      "closed (conns s' c) = closed (conns s c)" "computeidx (conns s' c) = computeidx (conns s c)"
      "submitidx (conns s' c) = submitidx (conns s c)" "recvbuf (conns s' c) = recvbuf (conns s c)"
      "sendbuf (conns s' c) = sendbuf (conns s c)"
    and inb: "r1 \<in> inbox_roots s \<Longrightarrow> conn (bufs s b) = Some c"
    and P: "place_ok C Q s s' c b (InQueue r2)"
  shows "moves B C Q s Q' s' c b (InQueue r2)"
proof -
  note I = srv_coreD [OF core]
  note inq = inq_moved [of "qh s" Q r1 "BufQ b" ns r2 ms, OF I(3) Q ne]
  have here: "inq Q r1 (BufQ b)" using Q(1) by (simp add: inq_def)
  then have place: "p = InQueue r1" if "at_place C Q s b p" for p
    using conservedD(2) [OF I(6), of b p "InQueue r1"] that by simp
  have dv: "\<not> inq Q r (Divider x)" for r x
    using qrep_not_divider [OF I(3)] by (force simp: inq_def)
  show ?thesis
    unfolding moves_def
  proof (intro conjI)
    show "dom Q \<subseteq> dom Q'" by (auto simp: Q')
    show "\<forall>r x. inq Q' r (BufQ x) \<longleftrightarrow> (if x = b then InQueue r2 = InQueue r else inq Q r (BufQ x))"
      unfolding Q' inq by auto
    show "\<forall>r x. inq Q' r (ConnQ x) \<longleftrightarrow> inq Q r (ConnQ x)" "\<forall>r x. \<not> inq Q' r (Divider x)"
      unfolding Q' inq using dv by auto
    show "\<forall>d. d \<noteq> c \<longrightarrow> conns s' d = conns s d \<and> Q' (RSend d) = Q (RSend d)"
      using cs(1) snd by (auto simp: Q')
    show "is_open C Q s c \<longrightarrow>
         (\<forall>x. recvbuf (conns s' c) = Some x
            \<longleftrightarrow> (if x = b then InQueue r2 = AsRecv c else recvbuf (conns s c) = Some x))
         \<and> (\<forall>x. sendbuf (conns s' c) = Some x
            \<longleftrightarrow> (if x = b then InQueue r2 = AsSend c else sendbuf (conns s c) = Some x))"
      using place [of "AsRecv c"] place [of "AsSend c"] cs(6,7) by auto
    show "\<forall>r \<in> inbox_roots s. inq Q r (BufQ b) \<longrightarrow> conn (bufs s b) = Some c"
      using inb inq_unique [OF I(3) here] by blast
    show "\<forall>d. at_place C Q s b (AsRecv d) \<or> at_place C Q s b (AsSend d) \<longrightarrow> d = c"
      using place by blast
    show "shifts Q Q' b (InQueue r2)" unfolding Q' by (rule shifts_between [OF I(3) Q ne])
  qed (use rep b live cs P in auto)
qed

text \<open>A message at the head of an inbox, and its connection.\<close>

lemma inbox_first:
  assumes core: "srv_core B C Q s" and r: "r \<in> inbox_roots s" and Q: "Q r = Some (n # ns)"
  obtains b where "n = BufQ b" and "b \<in> B" and "length (msg (bufs s b)) = 1048"
proof -
  note I = srv_coreD [OF core]
  have "r \<noteq> ecr s" using r ctx_ok_pools(4) [OF I(4)] by auto
  with queues_okD(6) [OF I(5) inq_first [of Q, OF Q]] obtain b where "b \<in> B" "n = BufQ b" by blast
  with I(8) that show thesis by (auto simp: bufs_ok_def)
qed

text \<open>The places a message may go to.\<close>

lemma place_ok_queue:
  assumes "ctx_ok s"
  shows "j < n_sub s \<Longrightarrow> submitidx (conns s c) = int j \<Longrightarrow> conn (bufs s' b) = Some c
      \<Longrightarrow> place_ok C Q s s' c b (InQueue (sir s j))"
    "i < n_comp s \<Longrightarrow> computeidx (conns s c) = int i \<Longrightarrow> conn (bufs s' b) = Some c
      \<Longrightarrow> place_ok C Q s s' c b (InQueue (cir s i))"
    "place_ok C Q s s' c b (InQueue (ebr s))"
    "is_open C Q s c \<Longrightarrow> place_ok C Q s s' c b (InQueue (RSend c))"
proof -
  note p = ctx_ok_pools(3-7) [OF assms] and d = ctx_ok_distinct [OF assms]
    and m = inbox_roots_mem [of _ s]
  have n: "r \<noteq> ecr s" "r \<noteq> RSend e" if "r \<in> inbox_roots s" for r e
    using that p(2) d(1) by auto
  show "place_ok C Q s s' c b (InQueue (sir s j))"
    if j: "j < n_sub s" "submitidx (conns s c) = int j" "conn (bufs s' b) = Some c"
    unfolding place_ok_def place.case
  proof (intro conjI allI impI)
    show "computeidx (conns s c) = int i" if "i < n_comp s" "sir s j = cir s i" for i
      using d(2) [OF that(1) j(1)] that(2) by simp
    show "submitidx (conns s c) = int i" if "i < n_sub s" "sir s j = sir s i" for i
      using d(4) [OF j(1) that(1)] that(2) j(2) by simp
  qed (use n [OF m(2) [OF j(1)]] j in auto)
  show "place_ok C Q s s' c b (InQueue (cir s i))"
    if i: "i < n_comp s" "computeidx (conns s c) = int i" "conn (bufs s' b) = Some c"
    unfolding place_ok_def place.case
  proof (intro conjI allI impI)
    show "computeidx (conns s c) = int j" if "j < n_comp s" "cir s i = cir s j" for j
      using d(3) [OF i(1) that(1)] that(2) i(2) by simp
    show "submitidx (conns s c) = int j" if "j < n_sub s" "cir s i = sir s j" for j
      using d(2) [OF i(1) that(1)] that(2) by simp
  qed (use n [OF m(1) [OF i(1)]] i in auto)
  show "place_ok C Q s s' c b (InQueue (ebr s))"
    using p m by (auto simp: place_ok_def)
  show "place_ok C Q s s' c b (InQueue (RSend c))" if "is_open C Q s c"
  proof -
    have "cir s i \<noteq> RSend c" if "i < n_comp s" for i by (rule n(2) [OF m(1) [OF that]])
    moreover have "sir s i \<noteq> RSend c" if "i < n_sub s" for i by (rule n(2) [OF m(2) [OF that]])
    ultimately show ?thesis
      using that p(4) [of c] d(1) [of c] by (auto simp: place_ok_def dest: sym)
  qed
qed

subsection \<open>compute\<close>

text \<open>The response after hashing, unless a reading of the clock failed.\<close>

lemma reply_of:
  assumes "length m' = 1048" and "res_id m' = req_id m" and "res_sha m' = sha1 (req_data m)"
  shows "res_bytes m' = reply sha1 (req_bytes m)"
proof -
  have "res_bytes m' = take 4 (res_bytes m') @ drop 4 (res_bytes m')" by simp
  also have "\<dots> = res_id m' @ res_sha m'"
    using assms(1) by (simp add: res_bytes_def res_id_def res_sha_def min_def drop_take)
  finally show ?thesis
    using assms(2,3) by (simp add: reply_def req_id_def req_data_def req_bytes_def min_def drop_take)
qed

lemma compute_message:
  assumes "length m = 1048" and "sha_length sha1" and "clock_advances clock now" and "unat nsec < n"
  obtains m' w' where "compute_request n sha1 clock nsec m w = Inr (m', w')" and "length m' = 1048"
    and "req_bytes m' = req_bytes m"
    and "\<not> clock_failed clock w' \<Longrightarrow> res_bytes m' = reply sha1 (req_bytes m)"
proof -
  from compute_request_total [OF assms] obtain m' w' where
    r: "compute_request n sha1 clock nsec m w = Inr (m', w')" "length m' = 1048"
      "req_bytes m' = req_bytes m"
    and d: "res_id m' = req_id m \<and> res_sha m' = sha1 (req_data m) \<and> uint nsec \<le> now w' - now w
       \<or> (\<exists>v. clock v = (None, w') \<and> now w \<le> now v
            \<and> (\<forall>st w1. clock w = (Some st, w1) \<longrightarrow> now v \<le> now w1 + uint nsec))" by blast
  have "res_bytes m' = reply sha1 (req_bytes m)" if "\<not> clock_failed clock w'"
    using d that reply_of [OF r(2)] unfolding clock_failed_def by blast
  with r that show thesis by blast
qed

lemma compute_moves:
  assumes core: "srv_core B C Q s" and i: "i < n_comp s"
    and Q: "Q (cir s i) = Some (BufQ b # ns)"
    and clk: "sha_length sha1" "clock_advances clock now"
    and n: "unat (compute_dur (cfg s)) < n" and ok: "conns_ok C Q s"
  shows "\<exists>s' Q' c. compute_worker_round n sha1 clock i s = Inr s' \<and> conns s' = conns s
    \<and> conn (bufs s b) = Some c \<and> computeidx (conns s c) = int i
    \<and> moves B C Q s Q' s' c b (InQueue (sq s c)) \<and> Q' (RSend c) = Q (RSend c)
    \<and> (\<not> clock_failed clock (world s')
        \<longrightarrow> res_bytes (msg (bufs s' b)) = reply sha1 (req_bytes (msg (bufs s b))))"
proof -
  note I = srv_coreD [OF core]
  note ctx = ctx_ok_inboxes [OF I(4)] ctx_ok_distinct [OF I(4)]
  note mem = inbox_roots_mem
  obtain c where c: "conn (bufs s b) = Some c" "is_live C Q s c" "computeidx (conns s c) = int i"
    using I(7) i Q by (fastforce simp: inboxes_ok_def inq_def)
  define j where "j = nat (submitidx (conns s c))"
  have j: "j < n_sub s" "submitidx (conns s c) = int j"
    using indices_okD(3,4) [OF conns_okD(1) [OF ok c(2)]] by (simp_all only: j_def)
  from queues_okD(3) [OF I(5) mem(2) [OF j(1)]] obtain ms where ms: "Q (sir s j) = Some ms" by blast
  from inbox_first [OF core mem(1) [OF i] Q] have b: "b \<in> B" "length (msg (bufs s b)) = 1048" by auto
  have ne: "cir s i \<noteq> sir s j" by (rule ctx(6) [OF i j(1)])
  from srv_get_first [OF I(3) Q] obtain h1 where
    g: "srv_get (Some (cir s i)) s = Inr (Ptr (BufQ b), s\<lparr>qh := h1\<rparr>)" "qrep h1 (Q(cir s i \<mapsto> ns))" .
  have "unat (ucast (compute_dur (cfg s)) :: u64) < n"
    using n by (simp add: unat_ucast_u32)
  from compute_message [OF b(2) clk this, of "world s"] obtain m' w' where
    r: "compute_request n sha1 clock (ucast (compute_dur (cfg s))) (msg (bufs s b)) (world s)
      = Inr (m', w')" "length m' = 1048"
    and rep: "\<not> clock_failed clock w' \<Longrightarrow> res_bytes m' = reply sha1 (req_bytes (msg (bufs s b)))"
    by blast
  define s2 where "s2 = (upd_buf b (msg_update (\<lambda>_. m')) (s\<lparr>qh := h1\<rparr>))\<lparr>world := w'\<rparr>"
  have "qrep (qh s2) (Q(cir s i \<mapsto> ns))" "(Q(cir s i \<mapsto> ns)) (sir s j) = Some ms"
    using g(2) ms ne by (simp_all add: s2_def)
  from srv_put_law [OF this unqueued_taken [OF I(3) Q]] obtain h2 where
    p: "srv_put (Ptr (BufQ b)) (Some (sir s j)) s2 = Inr (s2\<lparr>qh := h2\<rparr>)"
      "qrep h2 (Q(cir s i \<mapsto> ns, sir s j \<mapsto> ms @ [BufQ b]))" .
  let ?s = "s2\<lparr>qh := h2\<rparr>" and ?Q = "Q(cir s i \<mapsto> ns, sir s j \<mapsto> ms @ [BufQ b])"
  have "compute_worker_round n sha1 clock i s = Inr ?s"
    using g(1) r(1) c(1) p(1) j ctx(1-4) i
    by (simp add: compute_worker_round_def index_res_def s2_def Let_def)
  moreover have "moves B C Q s ?Q ?s c b (InQueue (sir s j))"
  proof (rule moves_between [OF core Q ms refl ne])
    show "place_ok C Q s ?s c b (InQueue (sir s j))"
      by (rule place_ok_queue(1) [OF I(4) j]) (simp add: s2_def c)
    fix d assume "cir s i = RSend d \<or> sir s j = RSend d"
    then show "d = c" using ctx(5) mem(1) [OF i] mem(2) [OF j(1)] by metis
  qed (use b c r p(2) in \<open>simp_all add: s2_def same_ctx_def\<close>)
  moreover have "?Q (RSend c) = Q (RSend c)"
    using ctx(5) [of c] mem(1) [OF i] mem(2) [OF j(1)] by auto
  moreover have "conns ?s = conns s" by (simp add: s2_def)
  moreover have "world ?s = w'" "msg (bufs ?s b) = m'" by (simp_all add: s2_def)
  ultimately show ?thesis using c(1,3) rep by (intro exI [of _ ?s] exI [of _ ?Q] exI [of _ c]) (simp add: j_def)
qed

text \<open>The oldest request of the session becomes its youngest response.\<close>

lemma compute_session:
  assumes m: "moves B C Q s Q' s' c b (InQueue (sq s c))" and core: "srv_core B C Q s"
    and c: "is_open C Q s c" "indices_ok s (conns s c)"
    and Q: "Q (cq s c) = Some (BufQ b # ns)" and b: "conn (bufs s b) = Some c"
    and rep: "\<not> late \<Longrightarrow> res_bytes (msg (bufs s' b)) = reply sha1 (req_bytes (msg (bufs s b)))"
  shows "session_step sha1 late (session_of Q s c) [] [] (session_of Q' s' c)"
proof -
  note I = srv_coreD [OF core] and in_ = inbox_mem [OF c(2)] and d = ctx_ok_distinct(1) [OF I(4), of c]
  have at: "at_place C Q s b (InQueue (cq s c))" using Q by (simp add: inq_def)
  have ne: "cq s c \<noteq> sq s c" "cq s c \<noteq> RSend c" "sq s c \<noteq> RSend c"
    using ctx_ok_distinct(2) [OF I(4)] indices_okD(1,3) [OF c(2)] d in_ by auto
  have no: "BufQ b \<notin> set (sendq Q c)" "b \<notin> set (msgs_of s c (the (Q (sq s c))))"
    "recvbuf (conns s c) \<noteq> Some b" "sendbuf (conns s c) \<noteq> Some b"
    using place_lists(2-5) [OF core c at] ne by auto
  have "b \<notin> set (msgs_of s c ns)" using qrep_distinct [OF I(3) Q] by (simp add: msgs_of_def)
  then have hb: "hash_bufs Q s c = b # msgs_of s c ns" "removeAll b (hash_bufs Q s c) = msgs_of s c ns"
    using Q b by (simp_all add: hash_bufs_def msgs_of_def removeAll_id)
  have len: "length (res_bytes (msg (bufs s' b))) = sizeof_response"
    using moves_bufs(2) [OF m] by (simp add: res_bytes_def)
  have after: "session_of Q' s' c = session_of Q s c
    \<lparr>to_hash := map (\<lambda>x. req_bytes (msg (bufs s x))) (msgs_of s c ns),
     to_send := to_send (session_of Q s c) @ [res_bytes (msg (bufs s' b))]\<rparr>"
    unfolding moves_session [OF m core c]
    using no ne by (simp add: hb(2) removeAll_id) (simp add: session_of_def send_bufs_def)
  show ?thesis
    unfolding after
    by (rule session_step.digest [OF _ len rep]) (simp_all add: hb(1))
qed

lemma compute_worker_step:
  assumes inv: "srv_inv B C Q s" and i: "i < n_comp s"
    and clk: "sha_length sha1" "clock_advances clock now"
    and n: "unat (compute_dur (cfg s)) < n"
  shows "\<exists>s' Q' c. compute_worker_round n sha1 clock i s = Inr s' \<and> srv_inv B C Q' s'
    \<and> goes c C Q s Q' s' \<and> (is_open C Q s c \<longrightarrow>
      session_step sha1 (clock_failed clock (world s')) (session_of Q s c) [] [] (session_of Q' s' c))"
proof -
  have core: "srv_core B C Q s" and ok: "conns_ok C Q s"
    using inv by (simp_all add: srv_inv_core)
  note I = srv_coreD [OF core] and mem = inbox_roots_mem(1) [OF i]
  from queues_okD(3) [OF I(5) mem] obtain ns0 where Qi: "Q (cir s i) = Some ns0" by blast
  show ?thesis
  proof (cases ns0)
    case Nil
    from srv_get_empty [OF I(3)] Qi Nil obtain h where
      g: "srv_get (Some (cir s i)) s = Inr (Null, s\<lparr>qh := h\<rparr>)" "qrep h Q" by blast
    let ?s = "s\<lparr>qh := h\<rparr>"
    have ctx: "same_ctx s ?s" by (simp add: same_ctx_def)
    have "srv_inv B C Q ?s" by (rule srv_inv_cong [OF inv ctx]) (simp_all add: g)
    moreover have "compute_worker_round n sha1 clock i s = Inr ?s"
      using g(1) ctx_ok_inboxes(1,2) [OF I(4) i]
      by (simp add: compute_worker_round_def index_res_def)
    moreover have "session_of Q ?s c = session_of Q s c" for c
      by (rule session_cong [OF ctx]) simp_all
    ultimately show ?thesis using goes_qh session_step.quiet by metis
  next
    case (Cons n0 ns)
    with Qi have "Q (cir s i) = Some (n0 # ns)" by simp
    moreover from inbox_first [OF core mem this] obtain b where b: "n0 = BufQ b" by blast
    ultimately have Qb: "Q (cir s i) = Some (BufQ b # ns)" by simp
    from compute_moves [OF core i Qb clk n ok] obtain s' Q' c where
      r: "compute_worker_round n sha1 clock i s = Inr s'" "conns s' = conns s"
      and c: "conn (bufs s b) = Some c" "computeidx (conns s c) = int i"
      and m: "moves B C Q s Q' s' c b (InQueue (sq s c))" and q: "Q' (RSend c) = Q (RSend c)"
      and rep: "\<not> clock_failed clock (world s')
        \<Longrightarrow> res_bytes (msg (bufs s' b)) = reply sha1 (req_bytes (msg (bufs s b)))" by blast
    have idx: "indices_ok s (conns s c)" by (rule conns_okD(1) [OF ok moves_ctx(4) [OF m]])
    have "inq Q (cir s i) (BufQ b)" using Qb by (simp add: inq_def)
    with c(1) mem have "b \<in> inflight Q s c" by (auto simp: inflight_def)
    then have "inflight Q' s' c = inflight Q s c"
      using moves_inflight(2) [OF m] inbox_mem(2) [OF idx] by auto
    then have "srv_inv B C Q' s'"
      using moves_inv [OF m inv] conns_okD(2) [OF ok moves_ctx(4) [OF m]] by (simp add: r q)
    moreover have "session_step sha1 (clock_failed clock (world s')) (session_of Q s c) [] []
        (session_of Q' s' c)" if "is_open C Q s c"
      by (rule compute_session [OF m core that idx _ c(1) rep]) (use Qb c(2) in simp_all)
    ultimately show ?thesis using r(1) moves_goes [OF m core] by blast
  qed
qed

subsection \<open>submit\<close>

lemma epoll_bits:
  "(x OR EPOLLOUT) AND EPOLLOUT \<noteq> 0"
  "(x OR EPOLLOUT) AND EPOLLIN = x AND EPOLLIN"
  "(x AND NOT EPOLLOUT) AND EPOLLIN = x AND EPOLLIN"
  "EPOLLOUT \<noteq> 0" "EPOLLIN \<noteq> 0"
  by (simp_all add: linux_consts word_ao_absorbs bit.conj_disj_distrib2 and.assoc)

text \<open>Counting one message off the inboxes.\<close>

lemma inflight_off:
  assumes core: "srv_core B C Q s" and b: "b \<in> inflight Q s c"
    and eq: "received x - processed x = of_nat (card (inflight Q s c))"
  shows "received x - (processed x + 1) = of_nat (card (inflight Q s c - {b}))"
    "processed x + 1 = received x \<longleftrightarrow> inflight Q s c - {b} = {}"
proof -
  note I = srv_coreD [OF core] and f = finite_inflight [OF I(6,1), of c]
  have cd: "card (inflight Q s c) = Suc (card (inflight Q s c - {b}))"
    by (rule card.remove [OF f(1) b])
  show e: "received x - (processed x + 1) = of_nat (card (inflight Q s c - {b}))"
    using eq unfolding cd by (simp add: algebra_simps)
  have lt: "card (inflight Q s c - {b}) < 2 ^ 33"
    by (rule below_33 [OF _ I(2)]) (use f(2) cd in linarith)
  have "processed x + 1 = received x \<longleftrightarrow> received x - (processed x + 1) = 0" by auto
  also have "\<dots> \<longleftrightarrow> card (inflight Q s c - {b}) = 0" unfolding e by (rule count_zero [OF lt])
  also have "\<dots> \<longleftrightarrow> inflight Q s c - {b} = {}" using f(1) by (simp add: card_eq_0_iff)
  finally show "processed x + 1 = received x \<longleftrightarrow> inflight Q s c - {b} = {}" .
qed

text \<open>The state after the message \<open>b\<close> has been taken from inbox \<open>i\<close> and counted.\<close>

definition taken :: "'w srv \<Rightarrow> qheap \<Rightarrow> nat \<Rightarrow> 'w srv" where
  "taken s h c = upd_conn c (processed_update (\<lambda>x. x + 1))
     (upd_conn c (conn_lock_update (\<lambda>_. 1)) (s\<lparr>qh := h\<rparr>))"

lemma taken_simps:
  assumes "conn_lock (conns s c) = 0"
  shows "trylock_conn c (s\<lparr>qh := h\<rparr>) =
      (1, upd_conn c (conn_lock_update (\<lambda>_. 1)) (s\<lparr>qh := h\<rparr>))"
    "conns (taken s h c) = (conns s)(c := processed_update (\<lambda>x. x + 1)
       ((conns s c)\<lparr>conn_lock := 1\<rparr>))"
    "qh (taken s h c) = h" "bufs (taken s h c) = bufs s" "cfg (taken s h c) = cfg s"
    "queues (taken s h c) = queues s" "io (taken s h c) = io s"
  using assms by (simp_all add: taken_def trylock_conn_def trylock_eq split: prod.splits)

text \<open>
  What the round does after a message of connection \<open>c\<close> has been taken, for a free lock.
\<close>

lemma submitter_round_taken:
  assumes "index_res (submitter_inbox (queues s)) i = Inr (Some r)"
    and "srv_get (Some r) s = Inr (Ptr (BufQ b), s\<lparr>qh := h\<rparr>)"
    and "conn (bufs s b) = Some c" and "conn_lock (conns s c) = 0"
  shows "submitter_round k i s =
    (let s = taken s h c in
     if closed (conns s c) \<noteq> 0 then
       bind_res (srv_put (Ptr (BufQ b)) (empty_buffers (queues s)) s) (\<lambda>s.
       let s = unlock_conn c s in
       if processed (conns s c) = received (conns s c) then
         bind_res (srv_put (Ptr (ConnQ c)) (empty_connections (queues s)) s) (\<lambda>s. Inr (0, s))
       else Inr (0, s))
     else
       bind_res (srv_put (Ptr (BufQ b)) (Some (RSend c)) s) (\<lambda>s.
       let (r, s) = epoll_set_conn_state k c (epoll_state (conns s c) OR EPOLLOUT) s;
           err = (if r \<noteq> 0 then -1 else 0)
       in Inr (err, unlock_conn c s)))"
  using assms
  by (simp add: submitter_round_def taken_simps(1) [OF assms(4)])
    (simp add: taken_def Let_def)

lemma submitter_open:
  assumes core: "srv_core B C Q s" and i: "i < n_sub s" and Q: "Q (sir s i) = Some (BufQ b # ns)"
    and c: "conn (bufs s b) = Some c" "is_open C Q s c" "conn_lock (conns s c) = 0"
    and idx: "submitidx (conns s c) = int i" and ms: "Q (RSend c) = Some ms"
  shows "\<exists>err s'. submitter_round k i s = Inr (err, s')
    \<and> moves B C Q s (Q(sir s i \<mapsto> ns, RSend c \<mapsto> ms @ [BufQ b])) s' c b (InQueue (RSend c))
    \<and> conns s' c = conn_lock_update unlock (epoll_state_update (\<lambda>_. epoll_state (conns s c) OR EPOLLOUT)
        (processed_update (\<lambda>x. x + 1) ((conns s c)\<lparr>conn_lock := 1\<rparr>)))
    \<and> bufs s' = bufs s"
proof -
  let ?Q = "Q(sir s i \<mapsto> ns, RSend c \<mapsto> ms @ [BufQ b])"
  note I = srv_coreD [OF core] and t = taken_simps [OF c(3)]
  note mem = inbox_roots_mem(2) [OF i]
  have ne: "sir s i \<noteq> RSend d" for d using ctx_ok_distinct(1) [OF I(4), of d] mem by auto
  have idxr: "index_res (submitter_inbox (queues s)) i = Inr (Some (sir s i))"
    using ctx_ok_inboxes(3,4) [OF I(4) i] by (simp add: index_res_def)
  from inbox_first [OF core mem Q] have b: "b \<in> B" "length (msg (bufs s b)) = 1048" by auto
  from srv_get_first [OF I(3) Q] obtain h1 where
    g: "srv_get (Some (sir s i)) s = Inr (Ptr (BufQ b), s\<lparr>qh := h1\<rparr>)" "qrep h1 (Q(sir s i \<mapsto> ns))" .
  have "qrep (qh (taken s h1 c)) (Q(sir s i \<mapsto> ns))" "(Q(sir s i \<mapsto> ns)) (RSend c) = Some ms"
    using g(2) ms ne [of c] by (simp_all add: t)
  from srv_put_law [OF this unqueued_taken [OF I(3) Q]] obtain h2 where
    p: "srv_put (Ptr (BufQ b)) (Some (RSend c)) (taken s h1 c) = Inr ((taken s h1 c)\<lparr>qh := h2\<rparr>)"
      "qrep h2 ?Q" .
  define s1 where "s1 = (taken s h1 c)\<lparr>qh := h2\<rparr>"
  define s' where "s' = unlock_conn c
    (snd (epoll_set_conn_state k c (epoll_state (conns s1 c) OR EPOLLOUT) s1))"
  have cl: "closed (conns s c) = 0" using c(2) by (simp add: is_open_def)
  have "\<exists>err. submitter_round k i s = Inr (err, s')"
    unfolding submitter_round_taken [OF idxr g(1) c(1,3)] Let_def
    by (simp add: p(1) t cl s'_def s1_def split: prod.splits)
  moreover have cs: "conns s' = (conns s)(c := conn_lock_update unlock
      (epoll_state_update (\<lambda>_. epoll_state (conns s c) OR EPOLLOUT)
        (processed_update (\<lambda>x. x + 1) ((conns s c)\<lparr>conn_lock := 1\<rparr>))))"
    by (simp add: s'_def s1_def t unlock_conn_def)
  moreover have "moves B C Q s ?Q s' c b (InQueue (RSend c))"
  proof (rule moves_between [OF core Q ms refl ne])
    show "place_ok C Q s s' c b (InQueue (RSend c))"
      by (rule place_ok_queue(4) [OF I(4) c(2)])
    show "is_live C Q s c" using c(2) by (simp add: is_open_def)
    show "same_ctx s s'" "qrep (qh s') ?Q"
      using p(2) by (simp_all add: s'_def s1_def t same_ctx_def unlock_conn_def)
    show "\<And>d. sir s i = RSend d \<or> RSend c = RSend d \<Longrightarrow> d = c" using ne by auto
  qed (use b c in \<open>simp_all add: cs, simp_all add: s'_def s1_def t unlock_conn_def\<close>)
  moreover have "bufs s' = bufs s" by (simp add: s'_def s1_def t unlock_conn_def)
  ultimately show ?thesis by auto
qed

lemma submitter_closed:
  assumes core: "srv_core B C Q s" and i: "i < n_sub s" and Q: "Q (sir s i) = Some (BufQ b # ns)"
    and c: "conn (bufs s b) = Some c" "is_live C Q s c" "closed (conns s c) \<noteq> 0"
      "conn_lock (conns s c) = 0"
    and idx: "submitidx (conns s c) = int i" and ms: "Q (ebr s) = Some ms"
  shows "\<exists>s1. moves B C Q s (Q(sir s i \<mapsto> ns, ebr s \<mapsto> ms @ [BufQ b])) s1 c b (InQueue (ebr s))
    \<and> submitter_round k i s =
        (if processed (conns s1 c) = received (conns s1 c) then
           bind_res (srv_put (Ptr (ConnQ c)) (empty_connections (queues s)) s1) (\<lambda>s. Inr (0, s))
         else Inr (0, s1))
    \<and> conns s1 c = conn_lock_update unlock
        (processed_update (\<lambda>x. x + 1) ((conns s c)\<lparr>conn_lock := 1\<rparr>))"
proof -
  let ?Q = "Q(sir s i \<mapsto> ns, ebr s \<mapsto> ms @ [BufQ b])"
  note I = srv_coreD [OF core] and t = taken_simps [OF c(4)] and pools = ctx_ok_pools [OF I(4)]
  note mem = inbox_roots_mem(2) [OF i]
  have ne: "sir s i \<noteq> ebr s" using pools(5) mem by auto
  have idxr: "index_res (submitter_inbox (queues s)) i = Inr (Some (sir s i))"
    using ctx_ok_inboxes(3,4) [OF I(4) i] by (simp add: index_res_def)
  from inbox_first [OF core mem Q] have b: "b \<in> B" "length (msg (bufs s b)) = 1048" by auto
  from srv_get_first [OF I(3) Q] obtain h1 where
    g: "srv_get (Some (sir s i)) s = Inr (Ptr (BufQ b), s\<lparr>qh := h1\<rparr>)" "qrep h1 (Q(sir s i \<mapsto> ns))" .
  have "qrep (qh (taken s h1 c)) (Q(sir s i \<mapsto> ns))" "(Q(sir s i \<mapsto> ns)) (ebr s) = Some ms"
    using g(2) ms ne by (simp_all add: t)
  from srv_put_law [OF this unqueued_taken [OF I(3) Q]] obtain h2 where
    p: "srv_put (Ptr (BufQ b)) (Some (ebr s)) (taken s h1 c) = Inr ((taken s h1 c)\<lparr>qh := h2\<rparr>)"
      "qrep h2 ?Q" .
  define s1 where "s1 = unlock_conn c ((taken s h1 c)\<lparr>qh := h2\<rparr>)"
  have q: "queues s1 = queues s" by (simp add: s1_def unlock_conn_def t)
  have cs: "conns s1 = (conns s)(c := conn_lock_update unlock
        (processed_update (\<lambda>x. x + 1) ((conns s c)\<lparr>conn_lock := 1\<rparr>)))"
    by (simp add: s1_def t unlock_conn_def)
  have "submitter_round k i s =
        (if processed (conns s1 c) = received (conns s1 c) then
           bind_res (srv_put (Ptr (ConnQ c)) (empty_connections (queues s)) s1) (\<lambda>s. Inr (0, s))
         else Inr (0, s1))"
    unfolding submitter_round_taken [OF idxr g(1) c(1,4)] Let_def
    using p(1) pools(2) c(3) by (simp add: t q s1_def [symmetric])
  moreover have "moves B C Q s ?Q s1 c b (InQueue (ebr s))"
  proof (rule moves_between [OF core Q ms refl ne])
    show "place_ok C Q s s1 c b (InQueue (ebr s))" by (rule place_ok_queue(3) [OF I(4)])
    show "same_ctx s s1" "qrep (qh s1) ?Q"
      using p(2) by (simp_all add: s1_def t same_ctx_def unlock_conn_def)
    show "\<And>d. sir s i = RSend d \<or> ebr s = RSend d \<Longrightarrow> d = c"
      using ctx_ok_distinct(1) [OF I(4)] mem pools(7) by metis
  qed (use b c in \<open>simp_all add: cs, simp_all add: s1_def t unlock_conn_def\<close>)
  ultimately show ?thesis using cs by (intro exI [of _ s1]) simp
qed

text \<open>The response goes from the inbox to the send queue: its place in the session is the same.\<close>

lemma submit_session:
  assumes m: "moves B C Q s Q' s' c b (InQueue (RSend c))" and core: "srv_core B C Q s"
    and c: "is_open C Q s c" "indices_ok s (conns s c)"
    and Q: "Q (sq s c) = Some (BufQ b # ns)" and b: "conn (bufs s b) = Some c" "bufs s' = bufs s"
  shows "session_of Q' s' c = session_of Q s c"
proof -
  note I = srv_coreD [OF core] and in_ = inbox_mem [OF c(2)] and d = ctx_ok_distinct(1) [OF I(4), of c]
  have at: "at_place C Q s b (InQueue (sq s c))" using Q by (simp add: inq_def)
  have ne: "cq s c \<noteq> sq s c" "RSend c \<noteq> sq s c" "RSend c \<noteq> cq s c"
    using ctx_ok_distinct(2) [OF I(4)] indices_okD(1,3) [OF c(2)] d in_ by auto
  have no: "BufQ b \<notin> set (sendq Q c)" "b \<notin> set (hash_bufs Q s c)"
    "recvbuf (conns s c) \<noteq> Some b" "sendbuf (conns s c) \<noteq> Some b"
    using place_lists(1,2,4,5) [OF core c at] ne by auto
  have "b \<notin> set (msgs_of s c ns)" using qrep_distinct [OF I(3) Q] by (simp add: msgs_of_def)
  then have sb: "msgs_of s c (the (Q (sq s c))) = b # msgs_of s c ns"
    "removeAll b (msgs_of s c (the (Q (sq s c)))) = msgs_of s c ns"
    using Q b(1) by (simp_all add: msgs_of_def removeAll_id)
  show ?thesis
    unfolding moves_session [OF m core c]
    using no ne by (simp add: sb(2) removeAll_id) (simp add: session_of_def send_bufs_def sb(1) b(2))
qed

text \<open>The message of an open connection is linked into its send queue.\<close>

lemma submitter_step_open:
  assumes inv: "srv_inv B C Q s" and i: "i < n_sub s" and Q: "Q (sir s i) = Some (BufQ b # ns)"
    and c: "conn (bufs s b) = Some c" "is_live C Q s c" "submitidx (conns s c) = int i"
    and op: "closed (conns s c) = 0"
  shows "\<exists>err s' Q'. submitter_round k i s = Inr (err, s') \<and> srv_inv B C Q' s'
    \<and> goes c C Q s Q' s' \<and> session_of Q' s' c = session_of Q s c"
proof -
  have core: "srv_core B C Q s" and ok: "conns_ok C Q s"
    using inv by (simp_all add: srv_inv_core)
  note I = srv_coreD [OF core]
  have L: "live_ok (readahead (cfg s)) (conns s c) (card (inflight Q s c)) (length (sendq Q c))"
    by (rule conns_okD(2) [OF ok c(2)])
  then have lk: "conn_lock (conns s c) = 0"
    and f: "received (conns s c) - processed (conns s c) = of_nat (card (inflight Q s c))"
    by (simp_all add: live_ok_def)
  have "b \<in> inflight Q s c" by (rule inflight_first [of _ s Q, OF inbox_roots_mem(2) [OF i] Q c(1)])
  note off = inflight_off [OF core this f]
  have open': "is_open C Q s c" using c(2) op by (simp add: is_open_def)
  from queues_okD(4) [OF I(5) c(2)] obtain ms where ms: "Q (RSend c) = Some ms" by blast
  let ?Q = "Q(sir s i \<mapsto> ns, RSend c \<mapsto> ms @ [BufQ b])"
  from submitter_open [OF core i Q c(1) open' lk c(3) ms] obtain err s' where
    r: "submitter_round k i s = Inr (err, s')"
    and m: "moves B C Q s ?Q s' c b (InQueue (RSend c))"
    and x: "conns s' c = conn_lock_update unlock
      (epoll_state_update (\<lambda>_. epoll_state (conns s c) OR EPOLLOUT)
      (processed_update (\<lambda>x. x + 1) ((conns s c)\<lparr>conn_lock := 1\<rparr>)))"
    and bf: "bufs s' = bufs s" by blast
  have fl: "inflight ?Q s' c = inflight Q s c - {b}"
    using moves_inflight(2) [OF m] ctx_ok_distinct(1) [OF I(4), of c] by auto
  have oo: "open_ok (readahead (cfg s)) (conns s c) (length ms)"
    using L op ms by (simp add: live_ok_def)
  have "live_ok (readahead (cfg s)) (conns s' c) (card (inflight ?Q s' c)) (length (sendq ?Q c))"
    using oo off(1) op unfolding live_ok_def open_ok_def fl x
    by (auto simp: epoll_bits algebra_simps)
  moreover have "session_of ?Q s' c = session_of Q s c"
    by (rule submit_session [OF m core open' conns_okD(1) [OF ok c(2)] _ c(1) bf]) (use Q c(3) in simp)
  ultimately show ?thesis using moves_inv [OF m inv] r moves_goes [OF m core] by blast
qed

text \<open>
  The message of a closed connection is freed, and the connection too if it was the last.
\<close>

lemma put_recycled:
  assumes core: "srv_core B C Q s" and live: "is_live C Q s c" and cl: "closed (conns s c) \<noteq> 0"
    and f: "inflight Q s c = {}"
  shows "\<exists>s' Q'. srv_put (Ptr (ConnQ c)) (empty_connections (queues s)) s = Inr s'
    \<and> turns C Q s Q' s' c \<and> \<not> is_live C Q' s' c \<and> same_ctx s s' \<and> conns s' = conns s"
proof -
  note I = srv_coreD [OF core]
  from queues_okD(1) [OF I(5)] obtain cs where cs: "Q (ecr s) = Some cs" by blast
  from srv_put_law [OF I(3) cs live_unqueued(2) [OF core live]] obtain h
    where h: "srv_put (Ptr (ConnQ c)) (Some (ecr s)) s = Inr (s\<lparr>qh := h\<rparr>)"
      "qrep h (Q(ecr s \<mapsto> cs @ [ConnQ c]))" .
  have s': "same_ctx s (s\<lparr>qh := h\<rparr>)" "conns (s\<lparr>qh := h\<rparr>) = conns s" "bufs (s\<lparr>qh := h\<rparr>) = bufs s"
    "qrep (qh (s\<lparr>qh := h\<rparr>)) (Q(ecr s \<mapsto> cs @ [ConnQ c]))"
    using h(2) by (simp_all add: same_ctx_def)
  from turns_recycle [OF core live cl f cs s'] h(1) s'(1) ctx_ok_pools(1) [OF I(4)]
  show ?thesis
    by (intro exI [of _ "s\<lparr>qh := h\<rparr>"] exI [of _ "Q(ecr s \<mapsto> cs @ [ConnQ c])"]) simp
qed

lemma submitter_step_closed:
  assumes inv: "srv_inv B C Q s" and i: "i < n_sub s" and Q: "Q (sir s i) = Some (BufQ b # ns)"
    and c: "conn (bufs s b) = Some c" "is_live C Q s c" "submitidx (conns s c) = int i"
    and cl: "closed (conns s c) \<noteq> 0"
  shows "\<exists>err s' Q'. submitter_round k i s = Inr (err, s') \<and> srv_inv B C Q' s'
    \<and> goes c C Q s Q' s'"
proof -
  have core: "srv_core B C Q s" and ok: "conns_ok C Q s"
    using inv by (simp_all add: srv_inv_core)
  note I = srv_coreD [OF core]
  have L: "live_ok (readahead (cfg s)) (conns s c) (card (inflight Q s c)) (length (sendq Q c))"
    by (rule conns_okD(2) [OF ok c(2)])
  then have lk: "conn_lock (conns s c) = 0" and sb: "sendbuf (conns s c) = None"
    and f: "received (conns s c) - processed (conns s c) = of_nat (card (inflight Q s c))"
    using cl by (simp_all add: live_ok_def)
  have "b \<in> inflight Q s c" by (rule inflight_first [of _ s Q, OF inbox_roots_mem(2) [OF i] Q c(1)])
  note off = inflight_off [OF core this f]
  from queues_okD(2) [OF I(5)] obtain ms where ms: "Q (ebr s) = Some ms" by blast
  from submitter_closed [OF core i Q c(1,2) cl lk c(3) ms] obtain s1 Q1 where
    m: "moves B C Q s Q1 s1 c b (InQueue (ebr s))"
    and r: "submitter_round k i s =
      (if processed (conns s1 c) = received (conns s1 c) then
         bind_res (srv_put (Ptr (ConnQ c)) (empty_connections (queues s)) s1) (\<lambda>s. Inr (0, s))
       else Inr (0, s1))"
    and x: "conns s1 c = conn_lock_update unlock
      (processed_update (\<lambda>x. x + 1) ((conns s c)\<lparr>conn_lock := 1\<rparr>))" by blast
  have fl: "inflight Q1 s1 c = inflight Q s c - {b}"
    using moves_inflight(2) [OF m] ctx_ok_pools(5) [OF I(4)] by auto
  note core1 = moves_core [OF m core] and ctx1 = moves_ctx(1) [OF m]
  have live1: "is_live C Q1 s1 c" using c(2) moves_live(1) [OF m, of c] by simp
  show ?thesis
  proof (cases "inflight Q s c - {b} = {}")
    case True
    have "closed (conns s1 c) \<noteq> 0" using cl by (simp add: x)
    from put_recycled [OF core1 live1 this] True obtain s' Q' where
      p: "srv_put (Ptr (ConnQ c)) (empty_connections (queues s1)) s1 = Inr s'"
        "turns C Q1 s1 Q' s' c" "\<not> is_live C Q' s' c" "same_ctx s1 s'" "conns s' = conns s1"
      unfolding fl by blast
    have "srv_inv B C Q' s'"
      using moves_turns_inv [OF m p(2) inv] p(3,5) sb by (simp add: x)
    moreover have "submitter_round k i s = Inr (0, s')"
      using r p(1) off(2) True same_ctx_roots(2) [OF ctx1] by (simp add: x)
    moreover have "goes c C Q1 s1 Q' s'" by (rule turns_goes [OF p(2)]) (simp add: p(5) x cl)
    ultimately show ?thesis using goes_trans [OF moves_goes [OF m core]] by blast
  next
    case False
    have "card (inflight Q s c - {b}) \<noteq> 0"
      using False finite_inflight(1) [OF I(6,1)] by (simp add: card_eq_0_iff)
    then have "live_ok (readahead (cfg s)) (conns s1 c) (card (inflight Q1 s1 c))
        (length (sendq Q1 c))"
      using off(1) cl sb unfolding live_ok_def fl x by simp
    from moves_inv [OF m inv this] have "srv_inv B C Q1 s1" .
    moreover have "submitter_round k i s = Inr (0, s1)" using r off(2) False by (simp add: x)
    ultimately show ?thesis using moves_goes [OF m core] by blast
  qed
qed

lemma submitter_step:
  assumes inv: "srv_inv B C Q s" and i: "i < n_sub s"
  shows "\<exists>err s' Q' c. submitter_round k i s = Inr (err, s') \<and> srv_inv B C Q' s'
    \<and> goes c C Q s Q' s' \<and> (is_open C Q s c \<longrightarrow> session_of Q' s' c = session_of Q s c)"
proof -
  have core: "srv_core B C Q s" using inv by (simp add: srv_inv_core)
  note I = srv_coreD [OF core] and mem = inbox_roots_mem(2) [OF i]
  from queues_okD(3) [OF I(5) mem] obtain ns0 where Qi: "Q (sir s i) = Some ns0" by blast
  show ?thesis
  proof (cases ns0)
    case Nil
    from srv_get_empty [OF I(3)] Qi Nil obtain h where
      g: "srv_get (Some (sir s i)) s = Inr (Null, s\<lparr>qh := h\<rparr>)" "qrep h Q" by blast
    let ?s = "s\<lparr>qh := h\<rparr>"
    have ctx: "same_ctx s ?s" by (simp add: same_ctx_def)
    have "srv_inv B C Q ?s" by (rule srv_inv_cong [OF inv ctx]) (simp_all add: g)
    moreover have "submitter_round k i s = Inr (0, ?s)"
      using g(1) ctx_ok_inboxes(3,4) [OF I(4) i]
      by (simp add: submitter_round_def index_res_def)
    moreover have "session_of Q ?s c = session_of Q s c" for c
      by (rule session_cong [OF ctx]) simp_all
    ultimately show ?thesis using goes_qh by metis
  next
    case (Cons n0 ns)
    with Qi have Q0: "Q (sir s i) = Some (n0 # ns)" by simp
    moreover from inbox_first [OF core mem Q0] obtain b where b: "n0 = BufQ b" by blast
    ultimately have Qb: "Q (sir s i) = Some (BufQ b # ns)" by simp
    then have "inq Q (sir s i) (BufQ b)" by (simp add: inq_def)
    with I(7) i obtain c where c: "conn (bufs s b) = Some c" "is_live C Q s c"
      "submitidx (conns s c) = int i" unfolding inboxes_ok_def by blast
    show ?thesis
      using submitter_step_open [OF inv i Qb c, of k] submitter_step_closed [OF inv i Qb c, of k]
      unfolding is_open_def by blast
  qed
qed

subsection \<open>accept\<close>

lemma mod_index: "unat (n :: 'a :: len word) \<noteq> 0 \<Longrightarrow> nat (uint (x mod n)) < unat n"
  using unat_mod [of x n] by (simp add: unat_eq_nat_uint [symmetric])

lemma assign_threads_ok:
  assumes "nxt \<noteq> 2 ^ 31 - 1" and "0 < unat nr" and "0 < unat ns" and "0 < unat nc"
  shows "\<exists>i j l n'. assign_threads nxt nr ns nc = Inr (i, j, l, n') \<and> nat i < unat nr
    \<and> 0 \<le> j \<and> j < int (unat ns) \<and> 0 \<le> l \<and> l < int (unat nc)"
proof -
  have "nr \<noteq> 0" "ns \<noteq> 0" "nc \<noteq> 0" using assms by auto
  moreover have "uint (x mod ns) < int (unat ns)" "uint (x mod nc) < int (unat nc)" for x
    using mod_index [of ns x] mod_index [of nc x] assms(3,4)
    by (simp_all only: nat_less_iff uint_ge_0)
  ultimately show ?thesis
    using assms(1) mod_index [of nr] assms(2) by (simp add: assign_threads_def Let_def)
qed

text \<open>Whether the \<open>accept\<close> of the handler succeeds.\<close>

definition accepts :: "'w kernel \<Rightarrow> 'w srv \<Rightarrow> bool" where
  "accepts k s \<longleftrightarrow>
     0 \<le> sr_ret (fst (Z_accept4 k (listen_fd (io s)) SOCK_NONBLOCK (errno s) (world s)))"

lemma turns_accept:
  assumes core: "srv_core B C Q s" and Q: "Q (ecr s) = Some (ConnQ c # cs)"
    and s': "same_ctx s s'" "bufs s' = bufs s" "\<And>d. d \<noteq> c \<Longrightarrow> conns s' d = conns s d"
    and new: "recvbuf (conns s' c) = None" "sendbuf (conns s' c) = None"
    and rep: "qrep (qh s') (Q(ecr s \<mapsto> cs, RSend c \<mapsto> []))"
  shows "turns C Q s (Q(ecr s \<mapsto> cs, RSend c \<mapsto> [])) s' c" "inflight Q s c = {}"
proof -
  let ?Q = "Q(ecr s \<mapsto> cs, RSend c \<mapsto> [])"
  note I = srv_coreD [OF core] and r = same_ctx_roots [OF s'(1)]
  note p = ctx_ok_pools(6) [OF I(4)]
  have here: "inq Q (ecr s) (ConnQ c)" using Q by (simp add: inq_def)
  then have no: "\<not> is_live C Q s c" "\<not> is_open C Q s c" by (simp_all add: is_open_def is_live_def)
  show f: "inflight Q s c = {}"
    using inflight_live [OF I(7)] no(1) by blast
  have held: "held C Q s c = {}" using queues_okD(7) [OF I(5)] no by (auto simp: held_def)
  have send: "\<not> inq Q (RSend c) n" for n using queues_okD(7) [OF I(5)] no by blast
  have inq: "inq ?Q r n \<longleftrightarrow> n \<noteq> ConnQ c \<and> inq Q r n" for r n
    using send inq_taken [of "qh s" Q "ecr s" "ConnQ c" cs, OF I(3) Q] by (auto simp: inq_init)
  have dv: "\<not> inq Q r (Divider x)" for r x
    using qrep_not_divider [OF I(3)] by (force simp: inq_def)
  have "c \<in> C" using queues_okD(5) [OF I(5) here] by auto
  moreover have "?Q (RSend d) = Q (RSend d)" if "d \<noteq> c" for d using p [of d] that by simp
  moreover have "?Q r = Q r" if "r \<in> inbox_roots s" for r
    using that ctx_ok_pools(4) [OF I(4)] ctx_ok_distinct(1) [OF I(4), of c] by auto
  ultimately show "turns C Q s ?Q s' c"
    using rep s' f dv new by (auto simp: turns_def held inq)
qed

text \<open>A connection without messages has an empty session.\<close>

lemma no_msgs:
  assumes "inflight Q s c = {}" and "r \<in> inbox_roots s" and "r \<in> dom Q"
  shows "msgs_of s c (the (Q r)) = []"
proof -
  from assms(3) obtain ns where ns: "Q r = Some ns" by blast
  then have "\<not> (conn (bufs s b) = Some c \<and> BufQ b \<in> set ns)" for b
    using assms(1,2) by (auto simp: inflight_def inq_def)
  with ns show ?thesis by (auto simp: msgs_of_def filter_empty_conv)
qed

lemma empty_session:
  assumes "inflight Q s c = {}" and "indices_ok s (conns s c)" and "Q (RSend c) = Some []"
    and "recvbuf (conns s c) = None" and "sendbuf (conns s c) = None"
    and "\<And>r. r \<in> inbox_roots s \<Longrightarrow> r \<in> dom Q"
  shows "session_of Q s c = no_session"
  using assms(3-6) inbox_mem [OF assms(2)]
  by (simp add: session_of_def no_session_def hash_bufs_def send_bufs_def part_bytes_def
      rest_bytes_def no_msgs [OF assms(1)])

lemma accept_step:
  assumes inv: "srv_inv B C Q s" and n: "Q (ecr s) \<noteq> Some [] \<Longrightarrow> next_session (io s) \<noteq> 2 ^ 31 - 1"
  shows "\<exists>ret s'. handle_accept k s = Inr (ret, s') \<and> same_ctx s s'
    \<and> (Q (ecr s) = Some [] \<longrightarrow> (\<exists>Q'. srv_inv B C Q' s' \<and> (\<forall>c. goes c C Q s Q' s')
         \<and> (\<forall>c. session_of Q' s' c = session_of Q s c)))
    \<and> (\<forall>c cs. Q (ecr s) = Some (ConnQ c # cs) \<longrightarrow> accepts k s \<longrightarrow>
         (\<exists>Q'. srv_inv B C Q' s' \<and> (\<forall>d. is_open C Q' s' d \<longleftrightarrow> d = c \<or> is_open C Q s d)
           \<and> session_of Q' s' c = no_session
           \<and> (\<forall>d. is_open C Q s d \<longrightarrow> session_of Q' s' d = session_of Q s d)))"
proof -
  have core: "srv_core B C Q s" and ok: "conns_ok C Q s"
    using inv by (simp_all add: srv_inv_core)
  note I = srv_coreD [OF core] and pools = ctx_ok_pools [OF I(4)]
  from queues_okD(1) [OF I(5)] obtain cs0 where cs0: "Q (ecr s) = Some cs0" by blast
  show ?thesis
  proof (cases cs0)
    case Nil
    from srv_get_empty [OF I(3)] cs0 Nil obtain h where
      g: "srv_get (Some (ecr s)) s = Inr (Null, s\<lparr>qh := h\<rparr>)" "qrep h Q" by blast
    let ?s = "s\<lparr>qh := h\<rparr>"
    have ctx: "same_ctx s ?s" by (simp add: same_ctx_def)
    have "srv_inv B C Q ?s" by (rule srv_inv_cong [OF inv ctx]) (simp_all add: g)
    moreover have "session_of Q ?s c = session_of Q s c" for c
      by (rule session_cong [OF ctx]) simp_all
    ultimately have "\<exists>Q'. srv_inv B C Q' ?s \<and> (\<forall>c. goes c C Q s Q' ?s)
        \<and> (\<forall>c. session_of Q' ?s c = session_of Q s c)" using goes_qh by blast
    with g(1) pools(1) cs0 Nil ctx show ?thesis
      by (intro exI [of _ 0] exI [of _ ?s]) (simp add: handle_accept_def)
  next
    case (Cons n0 cs)
    have "inq Q (ecr s) n0" using cs0 Cons by (simp add: inq_def)
    then obtain c where c: "n0 = ConnQ c" using queues_okD(5) [OF I(5)] by blast
    with cs0 Cons have Q: "Q (ecr s) = Some (ConnQ c # cs)" by simp
    from srv_get_first [OF I(3) Q] obtain h where
      g: "srv_get (Some (ecr s)) s = Inr (Ptr (ConnQ c), s\<lparr>qh := h\<rparr>)" "qrep h (Q(ecr s \<mapsto> cs))" .
    obtain r err w where a:
      "Z_accept4 k (listen_fd (io s)) SOCK_NONBLOCK (errno s) (world s) = (r, err, w)"
      by (cases "Z_accept4 k (listen_fd (io s)) SOCK_NONBLOCK (errno s) (world s)")
    show ?thesis
    proof (cases "sr_ret r < 0")
      case True
      with g(1) pools(1) a Q show ?thesis
        by (simp add: handle_accept_def same_ctx_def sys_def accepts_def)
    next
      case False
      have "Q (ecr s) \<noteq> Some []" using Q by simp
      from assign_threads_ok [OF n [OF this] pools(10,9,8)] obtain i j l n' where
        t: "assign_threads (next_session (io s)) (nr_io (io s)) (threads_submit (cfg s))
            (threads_compute (cfg s)) = Inr (i, j, l, n')"
        and rg: "nat i < unat (nr_io (io s))" "0 \<le> j" "j < int (n_sub s)" "0 \<le> l" "l < int (n_comp s)"
        by blast
      define s1 where "s1 = s\<lparr>qh := h, errno := err, world := w\<rparr>"
      define s2 where "s2 = upd_conn c (\<lambda>x. x\<lparr>processed := 0, received := 0, sent := 0,
          fd := sr_ret r\<rparr>) s1"
      define s3 where "s3 = s2\<lparr>io := (io s2)\<lparr>next_session := n'\<rparr>\<rparr>"
      define s4 where "s4 = upd_conn c (epoll_fd_update (\<lambda>_. epoll_fds (io s3) ! nat i))
        (upd_conn c (\<lambda>x. x\<lparr>ioidx := i, submitidx := j, computeidx := l\<rparr>) s3)"
      define s5 where "s5 = upd_conn c (\<lambda>x. x\<lparr>recvbuf := None, epoll_state := 0, closed := 0,
          conn_lock := lock_init (conn_lock x)\<rparr>) (s4\<lparr>qh := init_queue_root (RSend c) (qh s4)\<rparr>)"
      define s' where "s' = snd (epoll_set_conn_state k c EPOLLIN s5)"
      note ss = s1_def s2_def s3_def s4_def s5_def s'_def
      have ctx: "same_ctx s s'" by (simp add: same_ctx_def ss)
      have "nat i < length (epoll_fds (io s3))" using rg(1) pools(11) by (simp add: ss)
      then have run: "handle_accept k s = Inr (fst (epoll_set_conn_state k c EPOLLIN s5), s')"
        using g(1) pools(1) a False t
        by (simp add: handle_accept_def sys_def index_res_def s1_def [symmetric])
          (simp add: Let_def index_res_def ss)
      have cs: "conns s' d = conns s d" if "d \<noteq> c" for d using that by (simp add: ss)
      have x: "recvbuf (conns s' c) = None" "sendbuf (conns s' c) = sendbuf (conns s c)"
        "closed (conns s' c) = 0" "conn_lock (conns s' c) = 0" "processed (conns s' c) = 0"
        "received (conns s' c) = 0" "sent (conns s' c) = 0" "epoll_state (conns s' c) = EPOLLIN"
        "submitidx (conns s' c) = j" "computeidx (conns s' c) = l"
        by (simp_all add: ss)
      have pool: "sendbuf (conns s c) = None"
        using conns_okD(3) [OF ok] Q by (simp add: inq_def)
      let ?Q = "Q(ecr s \<mapsto> cs, RSend c \<mapsto> [])"
      have rep: "qrep (qh s') ?Q" using dq.init_law [OF g(2)] by (simp add: ss)
      have tu: "turns C Q s ?Q s' c" "inflight Q s c = {}"
        using turns_accept [OF core Q ctx _ cs _ _ rep] x(1,2) pool by (simp_all add: ss)
      have "srv_inv B C ?Q s'"
      proof (rule turns_inv [OF tu(1) inv])
        show "indices_ok s (conns s' c) \<and> live_ok (readahead (cfg s)) (conns s' c)
            (card (inflight Q s c)) (length (sendq ?Q c))"
          using rg(2-5) pool by (simp add: indices_ok_def live_ok_def open_ok_def x tu(2) epoll_bits)
        show "sendbuf (conns s' c) = None" using pool x(2) by simp
      qed
      moreover have "is_open C ?Q s' d \<longleftrightarrow> d = c \<or> is_open C Q s d" for d
      proof (cases "d = c")
        case True
        then show ?thesis
          using turns_ctx(3) [OF tu(1)] x(3) inq_taken [of "qh s" Q "ecr s" "ConnQ c" cs, OF I(3) Q]
          by (simp add: is_open_def is_live_def inq_init same_ctx_roots [OF ctx])
      qed (simp add: turns_live(2) [OF tu(1)])
      moreover have "session_of ?Q s' d = session_of Q s d" if "is_open C Q s d" for d
      proof (rule turns_other [OF tu(1)])
        show "d \<noteq> c" using that Q by (auto simp: is_open_def is_live_def inq_def)
        show "indices_ok s (conns s d)" using conns_okD(1) [OF ok] that by (simp add: is_open_def)
      qed
      moreover have "session_of ?Q s' c = no_session"
      proof (rule empty_session)
        show "inflight ?Q s' c = {}" using turns_inflight [OF tu(1) core] tu(2) by simp
        show "indices_ok s' (conns s' c)"
          using rg(2-5) by (simp add: indices_ok_ctx [OF ctx] indices_ok_def x)
        show "r \<in> dom ?Q" if "r \<in> inbox_roots s'" for r
          using queues_okD(3) [OF I(5), of r] that by (auto simp: same_ctx_roots [OF ctx])
      qed (use pool x in simp_all)
      ultimately show ?thesis using run ctx Q
        by (intro exI [of _ "fst (epoll_set_conn_state k c EPOLLIN s5)"] exI [of _ s'] conjI) auto
    qed
  qed
qed

end
