(* ===== verification/Io_Steps.thy ===== *)
theory Io_Steps
  imports Server_Steps
begin

section \<open>Rounds of the IO worker\<close>

text \<open>
  Tearing a connection down, and the rounds of \<open>handle_request\<close> and \<open>handle_response\<close>,
  from states that satisfy the invariant.
\<close>

subsection \<open>Draining the send queue\<close>

lemma upd_conn_upd:
  "upd_conn c f (upd_conn c g s) = upd_conn c (f \<circ> g) s"
  "(upd_conn c f s)\<lparr>qh := h\<rparr> = upd_conn c f (s\<lparr>qh := h\<rparr>)"
  by (simp_all add: upd_conn_def)

lemma upd_conn_sent_0: "upd_conn c (sent_update (\<lambda>x. x + 0)) s = s"
proof -
  have "sent_update (\<lambda>x. x + 0) (conns s c) = conns s c" by (cases "conns s c") simp
  then have "(conns s)(c := sent_update (\<lambda>x. x + 0) (conns s c)) = conns s"
    by (simp only: fun_upd_triv)
  then show ?thesis by (cases s) (simp add: upd_conn_def)
qed

lemma drain_law:
  assumes "qrep (qh s) Q" and "Q (RSend c) = Some ns" and "Q r = Some es" and "r \<noteq> RSend c"
    and "empty_buffers (queues s) = Some r" and "length ns < n"
  shows "\<exists>h. loop_res n (drain_round c) s =
      Inr ((), upd_conn c (sent_update (\<lambda>x. x + of_nat (length ns))) (s\<lparr>qh := h\<rparr>))
    \<and> qrep h (Q(RSend c \<mapsto> [], r \<mapsto> es @ ns))"
  using assms
proof (induction ns arbitrary: s Q es n)
  case Nil
  then obtain n' where n: "n = Suc n'" by (cases n) auto
  from srv_get_empty [OF Nil.prems(1,2)] obtain h where
    g: "srv_get (Some (RSend c)) s = Inr (Null, s\<lparr>qh := h\<rparr>)" "qrep h Q" .
  have Q: "Q(RSend c \<mapsto> [], r \<mapsto> es @ []) = Q" using Nil.prems(2,3) by auto
  have "loop_res n (drain_round c) s = Inr ((), s\<lparr>qh := h\<rparr>)"
    using g(1) by (simp add: n drain_round_def)
  moreover have "upd_conn c (sent_update (\<lambda>x. x + of_nat (length []))) (s\<lparr>qh := h\<rparr>) = s\<lparr>qh := h\<rparr>"
    by (simp only: list.size semiring_1_class.of_nat_0 upd_conn_sent_0)
  ultimately show ?case using g(2) unfolding Q by (intro exI [of _ h]) simp
next
  case (Cons a ns)
  then obtain n' where n: "n = Suc n'" "length ns < n'" by (cases n) auto
  from srv_get_first [OF Cons.prems(1,2)] obtain h1 where
    g: "srv_get (Some (RSend c)) s = Inr (Ptr a, s\<lparr>qh := h1\<rparr>)" "qrep h1 (Q(RSend c \<mapsto> ns))" .
  define s1 where "s1 = upd_conn c (sent_update (\<lambda>x. x + 1)) (s\<lparr>qh := h1\<rparr>)"
  have "qrep (qh s1) (Q(RSend c \<mapsto> ns))" "(Q(RSend c \<mapsto> ns)) r = Some es"
    using g(2) Cons.prems(3,4) by (simp_all add: s1_def)
  from srv_put_law [OF this unqueued_taken [OF Cons.prems(1,2)]] obtain h2 where
    p: "srv_put (Ptr a) (Some r) s1 = Inr (s1\<lparr>qh := h2\<rparr>)"
      "qrep h2 (Q(RSend c \<mapsto> ns, r \<mapsto> es @ [a]))" .
  let ?s = "s1\<lparr>qh := h2\<rparr>" and ?Q = "Q(RSend c \<mapsto> ns, r \<mapsto> es @ [a])"
  have rd: "drain_round c s = Inr (None, ?s)"
    using g(1) p(1) Cons.prems(5) by (simp add: drain_round_def s1_def Let_def)
  have "?Q(RSend c \<mapsto> [], r \<mapsto> (es @ [a]) @ ns) = Q(RSend c \<mapsto> [], r \<mapsto> es @ a # ns)"
    using Cons.prems(4) by (simp add: fun_upd_twist)
  moreover have "\<exists>h. loop_res n' (drain_round c) ?s =
      Inr ((), upd_conn c (sent_update (\<lambda>x. x + of_nat (length ns))) (?s\<lparr>qh := h\<rparr>))
    \<and> qrep h (?Q(RSend c \<mapsto> [], r \<mapsto> (es @ [a]) @ ns))"
  proof (rule Cons.IH)
    show "qrep (qh ?s) ?Q" using p(2) by (simp add: s1_def del: fun_upd_apply)
  qed (use n(2) Cons.prems(4,5) in \<open>simp_all add: s1_def\<close>)
  ultimately obtain h where
    "loop_res n' (drain_round c) ?s =
      Inr ((), upd_conn c (sent_update (\<lambda>x. x + of_nat (length ns))) (?s\<lparr>qh := h\<rparr>))"
    "qrep h (Q(RSend c \<mapsto> [], r \<mapsto> es @ a # ns))" by auto
  moreover have "upd_conn c (sent_update (\<lambda>x. x + of_nat (length ns))) (?s\<lparr>qh := h\<rparr>) =
      upd_conn c (sent_update (\<lambda>x. x + of_nat (length (a # ns)))) (s\<lparr>qh := h\<rparr>)"
    by (simp add: s1_def upd_conn_upd comp_def) (simp add: upd_conn_def algebra_simps)
  ultimately show ?case
    using rd by (intro exI [of _ h]) (simp add: n(1) del: fun_upd_apply)
qed

subsection \<open>Tearing a connection down\<close>

text \<open>The buffers in transfer, if any, as lists of nodes.\<close>

definition buf_nodes :: "nat option \<Rightarrow> node list" where
  "buf_nodes p = (case p of None \<Rightarrow> [] | Some b \<Rightarrow> [BufQ b])"

lemma buf_nodes_simps [simp]: "buf_nodes None = []" "buf_nodes (Some b) = [BufQ b]"
  by (simp_all add: buf_nodes_def)

lemma release_law:
  assumes "qrep (qh s) Q" and "empty_buffers (queues s) = Some r" and "Q r = Some es"
    and "\<And>b. p = Some b \<Longrightarrow> \<forall>r'. \<not> inq Q r' (BufQ b)"
  shows "\<exists>h. release_buffer p s = Inr (s\<lparr>qh := h\<rparr>) \<and> qrep h (Q(r \<mapsto> es @ buf_nodes p))"
proof (cases p)
  case None
  have "Q(r \<mapsto> es) = Q" using assms(3) by auto
  moreover have "s\<lparr>qh := qh s\<rparr> = s" by simp
  ultimately show ?thesis
    using assms(1) None by (intro exI [of _ "qh s"]) (simp add: release_buffer_def)
next
  case (Some b)
  have "unqueued (BufQ b) Q" using assms(4) [OF Some] by (intro unqueued_inq) simp_all
  from srv_put_law [OF assms(1,3) this] obtain h where
    "srv_put (Ptr (BufQ b)) (Some r) s = Inr (s\<lparr>qh := h\<rparr>)" "qrep h (Q(r \<mapsto> es @ [BufQ b]))" .
  with Some assms(2) show ?thesis by (intro exI [of _ h]) (simp add: release_buffer_def)
qed

text \<open>The place a buffer in transfer is at is its only one.\<close>

lemma transfer_unique:
  assumes "srv_core B C Q s" and "is_open C Q s c"
  shows "recvbuf (conns s c) = Some b \<Longrightarrow> \<not> inq Q r (BufQ b)"
    "sendbuf (conns s c) = Some b \<Longrightarrow> \<not> inq Q r (BufQ b)"
    "recvbuf (conns s c) = Some b \<Longrightarrow> sendbuf (conns s c) \<noteq> Some b"
    "inq Q r (BufQ b) \<Longrightarrow> recvbuf (conns s c) \<noteq> Some b \<and> sendbuf (conns s c) \<noteq> Some b"
  using conservedD(2) [OF srv_coreD(6) [OF assms(1)], of b "AsRecv c"]
    conservedD(2) [OF srv_coreD(6) [OF assms(1)], of b "AsSend c"] assms(2)
  by force+

text \<open>
  The code of \<open>finish_connection\<close> up to the test whether the connection can be recycled.
\<close>

abbreviation freed :: "server_connection_t \<Rightarrow> node list \<Rightarrow> node list" where
  "freed x ns \<equiv> buf_nodes (sendbuf x) @ buf_nodes (recvbuf x) @ ns"

lemma finish_prefix:
  assumes core: "srv_core B C Q s" and op: "is_open C Q s c" and lk: "conn_lock (conns s c) = 0"
    and Q: "Q (ebr s) = Some es" "Q (RSend c) = Some ns" and n: "length ns < n"
  shows "\<exists>s1. qrep (qh s1) (Q(ebr s \<mapsto> es @ freed (conns s c) ns, RSend c \<mapsto> []))
    \<and> same_ctx s s1 \<and> bufs s1 = bufs s \<and> (\<forall>d. d \<noteq> c \<longrightarrow> conns s1 d = conns s d)
    \<and> conns s1 c = closed_update (\<lambda>_. 1) (sent_update (\<lambda>x. x + of_nat (length ns))
        (conn_lock_update (\<lambda>_. 1) (conns s c)))
    \<and> finish_connection n k c s =
        (if sent (conns s1 c) = received (conns s1 c) then
           bind_res (srv_put (Ptr (ConnQ c)) (empty_connections (queues s1)) s1) (\<lambda>s. Inr (0, s))
         else Inr (0, unlock_conn c s1))"
proof -
  note I = srv_coreD [OF core] and pools = ctx_ok_pools [OF I(4)] and tu = transfer_unique [OF core op]
  define s0 where "s0 = upd_conn c (conn_lock_update (\<lambda>_. 1)) s"
  have got: "trylock_conn c s = (1, s0)" using lk by (simp add: trylock_conn_def trylock_eq s0_def)
  have s0: "sendbuf (conns s0 c) = sendbuf (conns s c)" "recvbuf (conns s0 c) = recvbuf (conns s c)"
    "qrep (qh s0) Q" "empty_buffers (queues s0) = Some (ebr s)"
    using I(3) pools(2) by (simp_all add: s0_def)
  let ?Q0 = "Q(ebr s \<mapsto> es @ buf_nodes (sendbuf (conns s c)))"
  from release_law [OF s0(3,4) Q(1), of "sendbuf (conns s c)"] tu(2) obtain h0 where
    h0: "release_buffer (sendbuf (conns s c)) s0 = Inr (s0\<lparr>qh := h0\<rparr>)" "qrep h0 ?Q0" by blast
  have ub: "\<forall>r'. \<not> inq ?Q0 r' (BufQ b)" if "recvbuf (conns s c) = Some b" for b
    using tu(1,3) [OF that] Q(1) by (auto simp: inq_def buf_nodes_def split: option.splits if_splits)
  let ?Q1 = "?Q0(ebr s \<mapsto> (es @ buf_nodes (sendbuf (conns s c))) @ buf_nodes (recvbuf (conns s c)))"
  have "\<exists>h. release_buffer (recvbuf (conns s c)) (s0\<lparr>qh := h0\<rparr>) = Inr (s0\<lparr>qh := h0\<rparr>\<lparr>qh := h\<rparr>)
      \<and> qrep h ?Q1"
    by (rule release_law) (use h0(2) s0(4) ub in simp_all)
  then obtain h1 where
    h1: "release_buffer (recvbuf (conns s c)) (s0\<lparr>qh := h0\<rparr>) = Inr (s0\<lparr>qh := h1\<rparr>)" "qrep h1 ?Q1"
    by auto
  define s2 where "s2 = snd (sys (Z_close k (fd (conns s0 c))) (s0\<lparr>qh := h1\<rparr>))"
  have s2: "qh s2 = h1" "queues s2 = queues s" "conns s2 = conns s0" "bufs s2 = bufs s"
    "cfg s2 = cfg s" "io s2 = io s" by (simp_all add: s2_def s0_def)
  have ne: "ebr s \<noteq> RSend c" by (rule pools(7))
  let ?es = "(es @ buf_nodes (sendbuf (conns s c))) @ buf_nodes (recvbuf (conns s c))"
  have "\<exists>h. loop_res n (drain_round c) s2 =
      Inr ((), upd_conn c (sent_update (\<lambda>x. x + of_nat (length ns))) (s2\<lparr>qh := h\<rparr>))
    \<and> qrep h (?Q1(RSend c \<mapsto> [], ebr s \<mapsto> ?es @ ns))"
    by (rule drain_law [OF _ _ _ ne _ n]) (use h1(2) Q ne pools(2) s2 in simp_all)
  moreover have "?Q1(RSend c \<mapsto> [], ebr s \<mapsto> ?es @ ns) =
      Q(ebr s \<mapsto> es @ freed (conns s c) ns, RSend c \<mapsto> [])"
    using ne by (simp add: fun_upd_twist del: fun_upd_apply)
  ultimately obtain h2 where h2: "loop_res n (drain_round c) s2 =
      Inr ((), upd_conn c (sent_update (\<lambda>x. x + of_nat (length ns))) (s2\<lparr>qh := h2\<rparr>))"
    "qrep h2 (Q(ebr s \<mapsto> es @ freed (conns s c) ns, RSend c \<mapsto> []))" by auto
  define s1 where "s1 = upd_conn c (closed_update (\<lambda>_. 1))
    (upd_conn c (sent_update (\<lambda>x. x + of_nat (length ns))) (s2\<lparr>qh := h2\<rparr>))"
  have "sent (conns s1 c) = sent (conns s2 c) + of_nat (length ns)"
    "received (conns s1 c) = received (conns s2 c)" by (simp_all add: s1_def)
  then have "finish_connection n k c s =
        (if sent (conns s1 c) = received (conns s1 c) then
           bind_res (srv_put (Ptr (ConnQ c)) (empty_connections (queues s1)) s1) (\<lambda>s. Inr (0, s))
         else Inr (0, unlock_conn c s1))"
    unfolding finish_connection_def got
    by (simp add: Let_def split_beta s0(1,2) h0(1) h1(1) s2_def [symmetric] h2(1) s1_def [symmetric])
  then show ?thesis
    using h2(2) by (intro exI [of _ s1])
      (simp add: s1_def s2 s0_def same_ctx_def del: fun_upd_apply, simp)
qed

lemma queue_length:
  assumes core: "srv_core B C Q s" and Q: "Q r = Some ns" and r: "r \<noteq> ecr s"
  shows "length ns \<le> card B"
proof -
  note I = srv_coreD [OF core]
  have "set ns \<subseteq> BufQ ` B"
    using queues_okD(6) [OF I(5), of r] Q r by (force simp: inq_def)
  then have "card (set ns) \<le> card (BufQ ` B)" using I(1) by (intro card_mono) simp_all
  also have "\<dots> = card B" by (rule card_image) (simp add: inj_on_def)
  finally show ?thesis using distinct_card [OF qrep_distinct [OF I(3) Q]] by simp
qed

lemma sendq_length:
  assumes core: "srv_core B C Q s" and Q: "Q (RSend c) = Some ns"
  shows "length ns \<le> card B"
  using queue_length [OF assms] ctx_ok_pools(6) [OF srv_coreD(4) [OF core], of c] by auto

lemma finish_step:
  assumes inv: "srv_inv B C Q s" and op: "is_open C Q s c"
    and sb: "sendbuf (conns s c) = None" and n: "card B < n"
  shows "\<exists>s' Q'. finish_connection n k c s = Inr (0, s') \<and> srv_inv B C Q' s' \<and> goes c C Q s Q' s'
    \<and> closed (conns s' c) = 1"
proof -
  have core: "srv_core B C Q s" and ok: "conns_ok C Q s"
    using inv by (simp_all add: srv_inv_core)
  note I = srv_coreD [OF core]
  have live: "is_live C Q s c" and cl: "closed (conns s c) = 0"
    using op by (simp_all add: is_open_def)
  from queues_okD(2) [OF I(5)] queues_okD(4) [OF I(5) live] obtain es ns where
    Q: "Q (ebr s) = Some es" "Q (RSend c) = Some ns" by blast
  have L: "live_ok (readahead (cfg s)) (conns s c) (card (inflight Q s c)) (length ns)"
    using conns_okD(2) [OF ok live] Q(2) by simp
  then have lk: "conn_lock (conns s c) = 0"
    and f: "received (conns s c) - processed (conns s c) = of_nat (card (inflight Q s c))"
    and g: "processed (conns s c) - sent (conns s c) = of_nat (length ns)"
    using cl sb by (simp_all add: live_ok_def open_ok_def)
  have "length ns < n" using sendq_length [OF core Q(2)] n by simp
  from finish_prefix [OF core op lk Q this, of k] sb obtain s1 Q1 where
    Q1: "Q1 = Q(ebr s \<mapsto> es @ buf_nodes (recvbuf (conns s c)) @ ns, RSend c \<mapsto> [])"
    and s1: "qrep (qh s1) Q1" "same_ctx s s1" "bufs s1 = bufs s"
      "\<And>d. d \<noteq> c \<Longrightarrow> conns s1 d = conns s d"
    and x: "conns s1 c = closed_update (\<lambda>_. 1) (sent_update (\<lambda>x. x + of_nat (length ns))
        (conn_lock_update (\<lambda>_. 1) (conns s c)))"
    and run: "finish_connection n k c s =
        (if sent (conns s1 c) = received (conns s1 c) then
           bind_res (srv_put (Ptr (ConnQ c)) (empty_connections (queues s1)) s1) (\<lambda>s. Inr (0, s))
         else Inr (0, unlock_conn c s1))" by auto
  have tu: "turns C Q s Q1 s' c" if "same_ctx s s'" "bufs s' = bufs s"
    "\<And>d. d \<noteq> c \<Longrightarrow> conns s' d = conns s d" "closed (conns s' c) = 1"
    "computeidx (conns s' c) = computeidx (conns s c)"
    "submitidx (conns s' c) = submitidx (conns s c)" "qrep (qh s') Q1" for s'
    unfolding Q1
    by (rule turns_close [OF core op sb Q buf_nodes_def that(1-3) _ that(5,6)])
      (use that(4,7) Q1 in simp_all)
  have live1: "is_live C Q1 s' c" if "turns C Q s Q1 s' c" for s'
    using live Q1 ctx_ok_pools(3,6) [OF I(4)] live_unqueued(1) [OF core live]
    by (auto simp: is_live_def inq_def same_ctx_roots [OF turns_ctx(1) [OF that]])
  have diff: "received (conns s1 c) - sent (conns s1 c) = of_nat (card (inflight Q s c))"
    using f g by (simp add: x algebra_simps)
  have cnt: "sent (conns s1 c) = received (conns s1 c) \<longleftrightarrow> card (inflight Q s c) = 0"
    using diff count_zero [OF below_33 [OF finite_inflight(2) [OF I(6,1)] I(2)], of c]
    by (metis eq_iff_diff_eq_0)
  show ?thesis
  proof (cases "card (inflight Q s c) = 0")
    case True
    have t1: "turns C Q s Q1 s1 c" by (rule tu) (use s1 in \<open>simp_all add: x\<close>)
    note core1 = turns_core [OF t1 core]
    have "inflight Q1 s1 c = {}"
      using True finite_inflight(1) [OF I(6,1), of c] by (simp add: turns_inflight [OF t1 core])
    from put_recycled [OF core1 live1 [OF t1] _ this] obtain s' Q' where
      p: "srv_put (Ptr (ConnQ c)) (empty_connections (queues s1)) s1 = Inr s'"
        "turns C Q1 s1 Q' s' c" "\<not> is_live C Q' s' c" "same_ctx s1 s'" "conns s' = conns s1"
      by (auto simp: x)
    have "srv_inv B C Q' s'"
      by (rule turns_turns_inv [OF t1 p(2) inv p(3)]) (simp add: p(5) x sb)
    moreover have "goes c C Q s Q1 s1" by (rule turns_goes [OF t1]) (simp add: x)
    moreover have "goes c C Q1 s1 Q' s'" by (rule turns_goes [OF p(2)]) (simp add: x p(5))
    moreover have "finish_connection n k c s = Inr (0, s')" using run cnt True p(1) by simp
    moreover have "closed (conns s' c) = 1" by (simp add: x p(5))
    ultimately show ?thesis using goes_trans by blast
  next
    case False
    let ?s = "unlock_conn c s1"
    have y: "conns ?s c = conn_lock_update unlock (conns s1 c)" by (simp add: unlock_conn_def)
    have c': "same_ctx s ?s" using s1(2) by (simp add: same_ctx_def unlock_conn_def)
    have t1: "turns C Q s Q1 ?s c"
      by (rule tu [OF c']) (use s1 in \<open>simp_all add: y x\<close>, simp_all add: unlock_conn_def)
    have "srv_inv B C Q1 ?s"
    proof (rule turns_inv [OF t1 inv])
      show "indices_ok s (conns ?s c) \<and> live_ok (readahead (cfg s)) (conns ?s c)
          (card (inflight Q s c)) (length (sendq Q1 c))"
        using conns_okD(1) [OF ok live] f sb False by (simp add: indices_ok_def live_ok_def y x)
      show "sendbuf (conns ?s c) = None" by (simp add: y x sb)
    qed
    moreover have "goes c C Q s Q1 ?s" by (rule turns_goes [OF t1]) (simp add: y x)
    moreover have "finish_connection n k c s = Inr (0, ?s)" using run cnt False by simp
    moreover have "closed (conns ?s c) = 1" by (simp add: y x)
    ultimately show ?thesis by blast
  qed
qed

text \<open>Tearing down returns normally in every case.\<close>

lemma freed_bufs: "set ns \<subseteq> range BufQ \<Longrightarrow> ConnQ c \<notin> set (freed x ns)"
  by (auto simp: buf_nodes_def split: option.splits)

lemma sendq_bufs:
  assumes "srv_core B C Q s" and "Q (RSend c) = Some ns"
  shows "set ns \<subseteq> range BufQ"
  using queues_okD(6) [OF srv_coreD(5) [OF assms(1)], of "RSend c"]
    ctx_ok_pools(6) [OF srv_coreD(4) [OF assms(1)], of c] assms(2)
  by (force simp: inq_def)

lemma finish_returns:
  assumes inv: "srv_inv B C Q s" and op: "is_open C Q s c" and n: "card B < n"
  shows "\<exists>s'. finish_connection n k c s = Inr (0, s')"
proof -
  have core: "srv_core B C Q s" and ok: "conns_ok C Q s"
    using inv by (simp_all add: srv_inv_core)
  note I = srv_coreD [OF core]
  have live: "is_live C Q s c" using op by (simp add: is_open_def)
  from queues_okD(2) [OF I(5)] queues_okD(4) [OF I(5) live] obtain es ns where
    Q: "Q (ebr s) = Some es" "Q (RSend c) = Some ns" by blast
  have lk: "conn_lock (conns s c) = 0" using conns_okD(2) [OF ok live] by (simp add: live_ok_def)
  have "length ns < n" using sendq_length [OF core Q(2)] n by simp
  from finish_prefix [OF core op lk Q this, of k] obtain s1 where
    r: "qrep (qh s1) (Q(ebr s \<mapsto> es @ freed (conns s c) ns, RSend c \<mapsto> []))" "same_ctx s s1"
    and run: "finish_connection n k c s =
        (if sent (conns s1 c) = received (conns s1 c) then
           bind_res (srv_put (Ptr (ConnQ c)) (empty_connections (queues s1)) s1) (\<lambda>s. Inr (0, s))
         else Inr (0, unlock_conn c s1))" by blast
  let ?Q = "Q(ebr s \<mapsto> es @ freed (conns s c) ns, RSend c \<mapsto> [])"
  have "ConnQ c \<notin> set es" using live_unqueued(1) [OF core live] Q(1) by (auto simp: inq_def)
  then have "\<forall>r. \<not> inq ?Q r (ConnQ c)"
    using live_unqueued(1) [OF core live] freed_bufs [OF sendq_bufs [OF core Q(2)]]
    by (auto simp: inq_def)
  then have un: "unqueued (ConnQ c) ?Q" by (intro unqueued_inq) simp_all
  obtain cs where cs: "?Q (ecr s) = Some cs"
    using queues_okD(1) [OF I(5)] ctx_ok_pools(3,6) [OF I(4)] by auto
  from srv_put_law [OF r(1) cs un] obtain h where
    "srv_put (Ptr (ConnQ c)) (Some (ecr s)) s1 = Inr (s1\<lparr>qh := h\<rparr>)" .
  then show ?thesis
    using run ctx_ok_pools(1) [OF I(4)] same_ctx_roots(2) [OF r(2)] by auto
qed

subsection \<open>Moves of the IO worker\<close>

text \<open>
  The four places between which the IO worker moves a buffer of connection \<open>c\<close>; none is
  an inbox.
\<close>

lemma not_inflight:
  assumes core: "srv_core B C Q s"
    and at: "at_place C Q s b p" "p \<in> {InQueue (ebr s), InQueue (RSend c), AsRecv c, AsSend c}"
  shows "b \<notin> inflight Q s d"
proof
  assume "b \<in> inflight Q s d"
  then obtain r where r: "r \<in> inbox_roots s" "inq Q r (BufQ b)" by (auto simp: inflight_def)
  note I = srv_coreD [OF core]
  have "p = InQueue r" using conservedD(2) [OF I(6) at(1)] r(2) by simp
  with at(2) r(1) ctx_ok_pools(5) [OF I(4)] ctx_ok_distinct(1) [OF I(4), of c]
  show False by auto
qed

lemma moves_io:
  assumes core: "srv_core B C Q s" and op: "is_open C Q s c"
    and at: "at_place C Q s b p" "p \<in> {InQueue (ebr s), InQueue (RSend c), AsRecv c, AsSend c}"
    and s': "same_ctx s s'" "qrep (qh s') Q'" "length (msg (bufs s' b)) = 1048"
    and Q': "\<And>r n. inq Q' r n \<longleftrightarrow> (if n = BufQ b then P = InQueue r else inq Q r n)"
      "dom Q \<subseteq> dom Q'" "\<And>d. d \<noteq> c \<Longrightarrow> Q' (RSend d) = Q (RSend d)"
    and cs: "\<And>d. d \<noteq> c \<Longrightarrow> conns s' d = conns s d" "\<And>x. x \<noteq> b \<Longrightarrow> bufs s' x = bufs s x"
      "closed (conns s' c) = closed (conns s c)" "computeidx (conns s' c) = computeidx (conns s c)"
      "submitidx (conns s' c) = submitidx (conns s c)"
      "\<And>x. recvbuf (conns s' c) = Some x
        \<longleftrightarrow> (if x = b then P = AsRecv c else recvbuf (conns s c) = Some x)"
      "\<And>x. sendbuf (conns s' c) = Some x
        \<longleftrightarrow> (if x = b then P = AsSend c else sendbuf (conns s c) = Some x)"
    and P: "place_ok C Q s s' c b P" "shifts Q Q' b P"
  shows "moves B C Q s Q' s' c b P"
proof -
  note I = srv_coreD [OF core]
  note one = conservedD(2) [OF I(6) at(1)]
  have dv: "\<not> inq Q r (Divider x)" for r x
    using qrep_not_divider [OF I(3)] by (force simp: inq_def)
  have no: "\<not> inq Q r (BufQ b)" if "r \<in> inbox_roots s" for r
    using one [of "InQueue r"] at(2) that ctx_ok_pools(5) [OF I(4)]
      ctx_ok_distinct(1) [OF I(4), of c] by auto
  have own: "d = c" if "at_place C Q s b (AsRecv d) \<or> at_place C Q s b (AsSend d)" for d
    using one [of "AsRecv d"] one [of "AsSend d"] that at(2) by auto
  have "is_live C Q s c" using op by (simp add: is_open_def)
  moreover have "b \<in> B" using conservedD(1) [OF I(6)] at(1) by blast
  ultimately show ?thesis
    unfolding moves_def using s' Q' cs P dv no own by simp
qed

subsection \<open>handle_request\<close>

text \<open>The bytes a round of \<open>handle_request\<close> receives: what its call of \<open>recv\<close> returns.\<close>

definition request_input :: "'w kernel \<Rightarrow> nat \<Rightarrow> 'w srv \<Rightarrow> byte list" where
  "request_input k c s =
     (case request_buffer c s of
        Inr (Some b, s) \<Rightarrow>
          let io_size = min_size (left (bufs s b)) (max_io_size (cfg s));
              r = fst (sys (Z_recv k (fd (conns s c)) (unat io_size) MSG_DONTWAIT) s)
          in if sr_ret r < 0 then [] else sr_bytes r
      | _ \<Rightarrow> [])"

text \<open>
  What bounds the loop of \<open>handle_request\<close>: every round receives at least one byte, and
  only the buffers of the pool can be filled.
\<close>

definition req_measure :: "(root_id \<rightharpoonup> node list) \<Rightarrow> 'w srv \<Rightarrow> nat \<Rightarrow> nat" where
  "req_measure Q s c = 1025 * length (the (Q (ebr s)))
     + (case recvbuf (conns s c) of None \<Rightarrow> 0 | Some b \<Rightarrow> unat (left (bufs s b)))"

text \<open>A buffer of the pool is in no list of a session, and neither is one in transfer.\<close>

lemma pool_lists:
  assumes core: "srv_core B C Q s" and c: "is_open C Q s c" "indices_ok s (conns s c)"
    and here: "inq Q (ebr s) (BufQ b)"
  shows "b \<notin> set (hash_bufs Q s c)" "BufQ b \<notin> set (sendq Q c)"
    "b \<notin> set (msgs_of s c (the (Q (sq s c))))"
    "recvbuf (conns s c) \<noteq> Some b" "sendbuf (conns s c) \<noteq> Some b"
proof -
  have at: "at_place C Q s b (InQueue (ebr s))" using here by simp
  note p = ctx_ok_pools(5,7) [OF srv_coreD(4) [OF core]] and in_ = inbox_mem [OF c(2)]
  show "b \<notin> set (hash_bufs Q s c)" "BufQ b \<notin> set (sendq Q c)"
    "b \<notin> set (msgs_of s c (the (Q (sq s c))))"
    "recvbuf (conns s c) \<noteq> Some b" "sendbuf (conns s c) \<noteq> Some b"
    using place_lists [OF core c at] p in_ by auto
qed

lemma transfer_lists:
  assumes core: "srv_core B C Q s" and c: "is_open C Q s c" "indices_ok s (conns s c)"
    and b: "recvbuf (conns s c) = Some b \<or> sendbuf (conns s c) = Some b"
  shows "b \<notin> set (hash_bufs Q s c)" "BufQ b \<notin> set (sendq Q c)"
    "b \<notin> set (msgs_of s c (the (Q (sq s c))))"
    "\<not> (recvbuf (conns s c) = Some b \<and> sendbuf (conns s c) = Some b)"
proof -
  have at: "at_place C Q s b (AsRecv c) \<or> at_place C Q s b (AsSend c)" using b c(1) by simp
  then show "b \<notin> set (hash_bufs Q s c)" "BufQ b \<notin> set (sendq Q c)"
    "b \<notin> set (msgs_of s c (the (Q (sq s c))))"
    using place_lists(1-3) [OF core c, of b] by blast+
  show "\<not> (recvbuf (conns s c) = Some b \<and> sendbuf (conns s c) = Some b)"
    using place_lists(4,5) [OF core c, of b] at by blast
qed

lemma request_buffer_step:
  assumes inv: "srv_inv B C Q s" and op: "is_open C Q s c"
  shows "\<exists>r s' Q'. request_buffer c s = Inr (r, s') \<and> srv_inv B C Q' s' \<and> goes c C Q s Q' s'
    \<and> is_open C Q' s' c \<and> (\<forall>b. r = Some b \<longrightarrow> recvbuf (conns s' c) = Some b)
    \<and> sendbuf (conns s' c) = sendbuf (conns s c) \<and> req_measure Q' s' c \<le> req_measure Q s c
    \<and> session_of Q' s' c = session_of Q s c"
proof -
  have core: "srv_core B C Q s" and ok: "conns_ok C Q s"
    using inv by (simp_all add: srv_inv_core)
  note I = srv_coreD [OF core] and pools = ctx_ok_pools [OF I(4)]
  have live: "is_live C Q s c" and cl: "closed (conns s c) = 0"
    using op by (simp_all add: is_open_def)
  have stay: ?thesis if "request_buffer c s = Inr (r, s\<lparr>qh := h\<rparr>)" "qrep h Q"
    "\<forall>b. r = Some b \<longrightarrow> recvbuf (conns s c) = Some b" for r h
  proof -
    have s: "same_ctx s (s\<lparr>qh := h\<rparr>)" by (simp add: same_ctx_def)
    have "srv_inv B C Q (s\<lparr>qh := h\<rparr>)" by (rule srv_inv_cong [OF inv s]) (simp_all add: that(2))
    moreover have "session_of Q (s\<lparr>qh := h\<rparr>) c = session_of Q s c"
      by (rule session_cong [OF s]) simp_all
    ultimately show ?thesis using that goes_qh [of c C Q s h] op
      by (intro exI [of _ r] exI [of _ "s\<lparr>qh := h\<rparr>"] exI [of _ Q])
        (simp add: is_open_def is_live_def req_measure_def split: option.splits)
  qed
  show ?thesis
  proof (cases "recvbuf (conns s c)")
    case (Some b)
    then show ?thesis using stay [of "Some b" "qh s"] I(3) by (simp add: request_buffer_def)
  next
    case None
    show ?thesis
    proof (cases "received (conns s c) - sent (conns s c) > ucast (readahead (cfg s))")
      case True
      then show ?thesis using stay [of None "qh s"] I(3) None by (simp add: request_buffer_def)
    next
      case within: False
      from queues_okD(2) [OF I(5)] obtain es where es: "Q (ebr s) = Some es" by blast
      show ?thesis
      proof (cases es)
        case Nil
        with srv_get_empty [OF I(3)] es obtain h where
          "srv_get (Some (ebr s)) s = Inr (Null, s\<lparr>qh := h\<rparr>)" "qrep h Q" by blast
        then show ?thesis using stay [of None h] within None pools(2)
          by (simp add: request_buffer_def)
      next
        case (Cons n ns)
        have "inq Q (ebr s) n" using es Cons by (simp add: inq_def)
        with queues_okD(6) [OF I(5)] pools(3) obtain b where b: "n = BufQ b" "b \<in> B" by metis
        with es Cons have Q: "Q (ebr s) = Some (BufQ b # ns)" by simp
        from srv_get_first [OF I(3) Q] obtain h where
          g: "srv_get (Some (ebr s)) s = Inr (Ptr (BufQ b), s\<lparr>qh := h\<rparr>)"
            "qrep h (Q(ebr s \<mapsto> ns))" .
        define s' where "s' = upd_conn c (recvbuf_update (\<lambda>_. Some b))
          (upd_buf b (\<lambda>x. x\<lparr>conn := Some c, left := of_nat sizeof_request, ptr := req_off\<rparr>)
            (s\<lparr>qh := h\<rparr>))"
        let ?Q = "Q(ebr s \<mapsto> ns)"
        have run: "request_buffer c s = Inr (Some b, s')"
          using g(1) None within pools(2) by (simp add: request_buffer_def s'_def Let_def)
        have here: "inq Q (ebr s) (BufQ b)" using Q by (simp add: inq_def)
        have m: "moves B C Q s ?Q s' c b (AsRecv c)"
        proof (rule moves_io [OF core op, of b "InQueue (ebr s)"])
          show "inq ?Q r n \<longleftrightarrow> (if n = BufQ b then AsRecv c = InQueue r else inq Q r n)" for r n
            using inq_taken [of "qh s" Q "ebr s" "BufQ b" ns, OF I(3) Q] by simp
          show "length (msg (bufs s' b)) = 1048" using I(8) b by (simp add: s'_def bufs_ok_def)
          show "place_ok C Q s s' c b (AsRecv c)"
            using op by (simp add: place_ok_def recv_ok_def s'_def)
          show "sendbuf (conns s' c) = Some x
            \<longleftrightarrow> (if x = b then AsRecv c = AsSend c else sendbuf (conns s c) = Some x)" for x
            using transfer_unique(4) [OF core op here] by (simp add: s'_def)
          show "?Q (RSend d) = Q (RSend d)" for d using pools(7) [of d] by auto
          show "shifts Q ?Q b (AsRecv c)" by (rule shifts_get [OF I(3) Q]) simp
        qed (use g(2) here None in \<open>auto simp: s'_def same_ctx_def\<close>)
        have "b \<notin> inflight Q s c"
          by (rule not_inflight [OF core, where p = "InQueue (ebr s)"]) (simp_all add: here)
        then have fl: "inflight ?Q s' c = inflight Q s c"
          using moves_inflight(2) [OF m] by simp
        have L: "live_ok (readahead (cfg s)) (conns s c) (card (inflight Q s c)) (length (sendq Q c))"
          by (rule conns_okD(2) [OF ok live])
        have sq: "sendq ?Q c = sendq Q c" using pools(7) [of c] by auto
        have "unat (received (conns s c) - sent (conns s c)) \<le> unat (readahead (cfg s))"
          using within by (simp add: not_less word_le_nat_alt unat_ucast_u32)
        then have "live_ok (readahead (cfg s)) (conns s' c) (card (inflight ?Q s' c))
            (length (sendq ?Q c))"
          using L cl unfolding fl sq by (simp add: s'_def live_ok_def open_ok_def)
        from moves_inv [OF m inv this] have "srv_inv B C ?Q s'" .
        moreover have "is_open C ?Q s' c" using op moves_live(2) [OF m] by simp
        moreover have "sendbuf (conns s' c) = sendbuf (conns s c)"
          "recvbuf (conns s' c) = Some b" by (simp_all add: s'_def)
        moreover have "req_measure ?Q s' c \<le> req_measure Q s c"
          using Q None by (simp add: req_measure_def s'_def)
        moreover have "session_of ?Q s' c = session_of Q s c"
          unfolding moves_session [OF m core op conns_okD(1) [OF ok live]]
          using pool_lists [OF core op conns_okD(1) [OF ok live] here] None
          by (simp add: session_of_def send_bufs_def removeAll_id part_bytes_def) (simp add: s'_def)
        ultimately show ?thesis using run moves_goes [OF m core] by blast
      qed
    qed
  qed
qed

text \<open>Bytes are transferred: only the buffer in transfer changes.\<close>

lemma transfer_step:
  assumes inv: "srv_inv B C Q s" and op: "is_open C Q s c"
    and at: "at_place C Q s b p" "p \<in> {AsRecv c, AsSend c}"
    and s': "same_ctx s s'" "qrep (qh s') Q" "conns s' = conns s"
      "\<And>x. x \<noteq> b \<Longrightarrow> bufs s' x = bufs s x" "length (msg (bufs s' b)) = 1048"
    and tr: "p = AsRecv c \<Longrightarrow> recv_ok (bufs s' b) c" "p = AsSend c \<Longrightarrow> send_ok (bufs s' b)"
  shows "srv_inv B C Q s'" "goes c C Q s Q s'"
    "session_of Q s' c = session_of Q s c
      \<lparr>rx_part := (if p = AsRecv c then take (ptr (bufs s' b)) (msg (bufs s' b)) else part_bytes s c),
       tx_rest := (if p = AsSend c then drop (ptr (bufs s' b)) (msg (bufs s' b)) else rest_bytes s c)\<rparr>"
proof -
  have core: "srv_core B C Q s" and ok: "conns_ok C Q s"
    using inv by (simp_all add: srv_inv_core)
  note I = srv_coreD [OF core] and one = conservedD(2) [OF srv_coreD(6) [OF core] at(1)]
  have at': "p \<in> {InQueue (ebr s), InQueue (RSend c), AsRecv c, AsSend c}" using at(2) by blast
  have m: "moves B C Q s Q s' c b p"
  proof (rule moves_io [OF core op at(1) at' s'(1,2,5)])
    show "inq Q r n \<longleftrightarrow> (if n = BufQ b then p = InQueue r else inq Q r n)" for r n
      using one [of "InQueue r"] at(2) by auto
    show "recvbuf (conns s' c) = Some x
      \<longleftrightarrow> (if x = b then p = AsRecv c else recvbuf (conns s c) = Some x)" for x
      using one [of "AsRecv c"] at op s'(3) by auto
    show "sendbuf (conns s' c) = Some x
      \<longleftrightarrow> (if x = b then p = AsSend c else sendbuf (conns s c) = Some x)" for x
      using one [of "AsSend c"] at op s'(3) by auto
    show "place_ok C Q s s' c b p" using at(2) op tr by (auto simp: place_ok_def)
    show "shifts Q Q b p"
      by (rule shifts_none) (use one [of "InQueue r" for r] at(2) in auto)
  qed (use s' in simp_all)
  have "\<not> (\<exists>r \<in> inbox_roots s. p = InQueue r)" using at(2) by auto
  then have "inflight Q s' c = inflight Q s c"
    using moves_inflight(2) [OF m] not_inflight [OF core at(1) at', of c] by simp
  then have "live_ok (readahead (cfg s)) (conns s' c) (card (inflight Q s' c)) (length (sendq Q c))"
    using conns_okD(2) [OF ok, of c] op by (simp add: s'(3) is_open_def)
  from moves_inv [OF m inv this] show "srv_inv B C Q s'" .
  show "goes c C Q s Q s'" by (rule moves_goes [OF m core])
  have idx: "indices_ok s (conns s c)" using conns_okD(1) [OF ok, of c] op by (simp add: is_open_def)
  have b: "recvbuf (conns s c) = Some b \<or> sendbuf (conns s c) = Some b" using at by auto
  show "session_of Q s' c = session_of Q s c
      \<lparr>rx_part := (if p = AsRecv c then take (ptr (bufs s' b)) (msg (bufs s' b)) else part_bytes s c),
       tx_rest := (if p = AsSend c then drop (ptr (bufs s' b)) (msg (bufs s' b)) else rest_bytes s c)\<rparr>"
    unfolding moves_session [OF m core op idx]
    using transfer_lists [OF core op idx b] at
    by (auto simp: session_of_def send_bufs_def removeAll_id)
qed

text \<open>
  Receiving into the buffer: the bytes are stored behind those received before, and the
  session does not see them until they are counted.
\<close>

lemma recv_into_step:
  assumes inv: "srv_inv B C Q s" and op: "is_open C Q s c" and rb: "recvbuf (conns s c) = Some b"
    and io: "unat io_size \<le> unat (left (bufs s b))" and k: "recv_contract k"
  shows "\<exists>len s'. recv_into k c b io_size s = Inr (len, s') \<and> srv_inv B C Q s' \<and> goes c C Q s Q s'
    \<and> session_of Q s' c = session_of Q s c
    \<and> (let r = fst (sys (Z_recv k (fd (conns s c)) (unat io_size) MSG_DONTWAIT) s) in len = sr_ret r
        \<and> (0 \<le> len \<longrightarrow> length (sr_bytes r) = nat len
            \<and> take (nat len) (drop (ptr (bufs s b)) (msg (bufs s' b))) = sr_bytes r))
    \<and> -1 \<le> len \<and> len \<le> int (unat io_size) \<and> conns s' = conns s
    \<and> (\<forall>x. conn (bufs s' x) = conn (bufs s x) \<and> left (bufs s' x) = left (bufs s x)
          \<and> ptr (bufs s' x) = ptr (bufs s x))"
proof -
  note I = srv_invD [OF inv]
  obtain r err w where z:
    "Z_recv k (fd (conns s c)) (unat io_size) MSG_DONTWAIT (errno s) (world s) = (r, err, w)"
    by (cases "Z_recv k (fd (conns s c)) (unat io_size) MSG_DONTWAIT (errno s) (world s)")
  note rc = recv_contractD [OF k z]
  let ?s = "s\<lparr>errno := err, world := w\<rparr>"
  have sys: "sys (Z_recv k (fd (conns s c)) (unat io_size) MSG_DONTWAIT) s = (r, ?s)"
    by (simp add: sys_def z)
  have at: "at_place C Q s b (AsRecv c)" using op rb by simp
  have b: "recv_ok (bufs s b) c" "length (msg (bufs s b)) = 1048"
    using I(8) op rb conservedD(1) [OF I(6) at] by (auto simp: bufs_ok_def)
  show ?thesis
  proof (cases "sr_ret r < 0")
    case True
    have ctx: "same_ctx s ?s" by (simp add: same_ctx_def)
    have "srv_inv B C Q ?s" by (rule srv_inv_cong [OF inv ctx]) (simp_all add: I(3))
    moreover have "session_of Q ?s c = session_of Q s c" by (rule session_cong [OF ctx]) simp_all
    moreover have "goes c C Q s Q ?s" by (rule goes_same [OF ctx]) simp_all
    ultimately show ?thesis using True rc by (simp add: recv_into_def sys)
  next
    case False
    then have len: "int (length (sr_bytes r)) = sr_ret r" using rc(3) by simp
    then have "length (sr_bytes r) \<le> unat io_size" using rc(2) by linarith
    with io b have fits: "ptr (bufs s b) + length (sr_bytes r) \<le> 1048" by (simp add: recv_ok_def)
    define m where "m = take (ptr (bufs s b)) (msg (bufs s b)) @ sr_bytes r
      @ drop (ptr (bufs s b) + length (sr_bytes r)) (msg (bufs s b))"
    have m: "store_bytes (ptr (bufs s b)) (sr_bytes r) (msg (bufs s b)) = Inr m"
      using fits b(2) by (simp add: store_bytes_def m_def)
    let ?s' = "upd_buf b (msg_update (\<lambda>_. m)) ?s"
    have ctx: "same_ctx s ?s'" by (simp add: same_ctx_def)
    have t: "srv_inv B C Q ?s'" "goes c C Q s Q ?s'" "session_of Q ?s' c = session_of Q s c
        \<lparr>rx_part := (if AsRecv c = AsRecv c then take (ptr (bufs ?s' b)) (msg (bufs ?s' b)) else part_bytes s c),
         tx_rest := (if AsRecv c = AsSend c then drop (ptr (bufs ?s' b)) (msg (bufs ?s' b)) else rest_bytes s c)\<rparr>"
      by (rule transfer_step [OF inv op at _ ctx];
        use b I(3) store_bytes_length [OF m] in \<open>simp add: recv_ok_def\<close>)+
    have "session_of Q ?s' c = session_of Q s c"
      unfolding t(3) using rb fits b(2) by (simp add: session_of_def part_bytes_def m_def)
    moreover have "take (length (sr_bytes r)) (drop (ptr (bufs s b)) m) = sr_bytes r"
      using fits b(2) by (simp add: m_def)
    moreover have "recv_into k c b io_size s = Inr (sr_ret r, ?s')"
      using False m by (simp add: recv_into_def sys)
    ultimately show ?thesis
      using False rc(2) t(1,2) len [symmetric] by (intro exI [of _ "sr_ret r"] exI [of _ ?s']) (simp add: sys Let_def)
  qed
qed

text \<open>Counting bytes off a buffer.\<close>

lemma left_off:
  assumes "0 \<le> len" and "nat len \<le> unat l"
  shows "unat (of_int len :: u64) = nat len" "unat (l - of_int len :: u64) = unat l - nat len"
proof -
  have len: "of_int len = (of_nat (nat len) :: u64)" using assms(1) by simp
  have "nat len < 2 ^ LENGTH(64)"
    using assms(2) unsigned_less [of l, where ?'a = nat] by simp
  then show u: "unat (of_int len :: u64) = nat len"
    unfolding len by (simp only: unat_of_nat mod_less)
  then have "(of_int len :: u64) \<le> l" using assms(2) by (simp only: word_le_nat_alt)
  then show "unat (l - of_int len :: u64) = unat l - nat len" using u by (simp only: unat_sub)
qed

lemma unat_suc_le: "unat (x + 1 :: 'a :: len word) \<le> unat x + 1"
  by (simp add: unat_word_ariths)

text \<open>A complete request goes to the inbox of the connection's compute thread.\<close>

lemma request_complete_step:
  assumes inv: "srv_inv B C Q s" and op: "is_open C Q s c" and rb: "recvbuf (conns s c) = Some b"
    and s2: "same_ctx s s2" "qh s2 = qh s" "conns s2 = conns s" "\<And>x. x \<noteq> b \<Longrightarrow> bufs s2 x = bufs s x"
      "conn (bufs s2 b) = Some c" "length (msg (bufs s2 b)) = 1048"
  shows "\<exists>s' Q'. request_complete c b s2 = Inr s' \<and> srv_inv B C Q' s' \<and> goes c C Q s Q' s'
    \<and> is_open C Q' s' c \<and> sendbuf (conns s' c) = sendbuf (conns s c)
    \<and> recvbuf (conns s' c) = None \<and> Q' (ebr s) = Q (ebr s)
    \<and> session_of Q' s' c = session_of Q s c
        \<lparr>rx_part := [], to_hash := to_hash (session_of Q s c) @ [req_bytes (msg (bufs s2 b))]\<rparr>"
proof -
  have core: "srv_core B C Q s" and ok: "conns_ok C Q s"
    using inv by (simp_all add: srv_inv_core)
  note I = srv_coreD [OF core] and ctx = same_ctx_roots [OF s2(1)]
  have live: "is_live C Q s c" and cl: "closed (conns s c) = 0"
    using op by (simp_all add: is_open_def)
  have L: "live_ok (readahead (cfg s)) (conns s c) (card (inflight Q s c)) (length (sendq Q c))"
    by (rule conns_okD(2) [OF ok live])
  then have lk: "conn_lock (conns s c) = 0" by (simp add: live_ok_def)
  define i where "i = nat (computeidx (conns s c))"
  have i: "i < n_comp s" "computeidx (conns s c) = int i"
    using indices_okD(1,2) [OF conns_okD(1) [OF ok live]] by (simp_all only: i_def)
  note mem = inbox_roots_mem(1) [OF i(1)]
  have idx: "index_res (compute_inbox (queues s)) i = Inr (Some (cir s i))"
    using ctx_ok_inboxes(1,2) [OF I(4) i(1)] by (simp add: index_res_def)
  from queues_okD(3) [OF I(5) mem] obtain ms where ms: "Q (cir s i) = Some ms" by blast
  have ne: "cir s i \<noteq> RSend d" "cir s i \<noteq> ebr s" for d
    using ctx_ok_distinct(1) [OF I(4), of d] ctx_ok_pools(5) [OF I(4)] mem by auto
  have at: "at_place C Q s b (AsRecv c)" using op rb by simp
  note tu = transfer_unique [OF core op]
  define s3 where "s3 = upd_conn c (\<lambda>x. x\<lparr>received := received x + 1, recvbuf := None\<rparr>)
    (upd_conn c (conn_lock_update (\<lambda>_. 1)) s2)"
  have "unqueued (BufQ b) Q" using tu(1) [OF rb] by (intro unqueued_inq) simp_all
  with srv_put_law [of s3 Q "cir s i" ms "BufQ b"] I(3) ms obtain h where
    h: "srv_put (Ptr (BufQ b)) (Some (cir s i)) s3 = Inr (s3\<lparr>qh := h\<rparr>)"
      "qrep h (Q(cir s i \<mapsto> ms @ [BufQ b]))" by (auto simp: s3_def s2(2))
  define s' where "s' = unlock_conn c (s3\<lparr>qh := h\<rparr>)"
  let ?Q = "Q(cir s i \<mapsto> ms @ [BufQ b])"
  have lc: "lock_conn c s2 = Inr (upd_conn c (conn_lock_update (\<lambda>_. 1)) s2)"
    using lk by (simp add: lock_conn_def lock_eq s2(3))
  have "computeidx (conns s3 c) = computeidx (conns s c)" "queues s3 = queues s"
    by (simp_all add: s3_def s2(3) ctx(2))
  then have run: "request_complete c b s2 = Inr s'"
    using idx i_def h(1) by (simp add: request_complete_def lc s3_def [symmetric] s'_def Let_def
        s2(3) ctx(2))
  have m: "moves B C Q s ?Q s' c b (InQueue (cir s i))"
  proof (rule moves_io [OF core op at])
    show "inq ?Q r n \<longleftrightarrow> (if n = BufQ b then InQueue (cir s i) = InQueue r else inq Q r n)" for r n
      using inq_added [of Q "BufQ b" "cir s i" ms] tu(1) [OF rb] ms by auto
    show "place_ok C Q s s' c b (InQueue (cir s i))"
      by (rule place_ok_queue(2) [OF I(4) i]) (simp add: s'_def s3_def unlock_conn_def s2(5))
    show "same_ctx s s'" "qrep (qh s') ?Q"
      using s2(1) h(2) by (simp_all add: s'_def s3_def same_ctx_def unlock_conn_def)
    show "?Q (RSend d) = Q (RSend d)" for d using ne(1) [of d] by auto
    show "sendbuf (conns s' c) = Some x \<longleftrightarrow> (if x = b then InQueue (cir s i) = AsSend c
        else sendbuf (conns s c) = Some x)" for x
      using tu(3) [OF rb] by (simp add: s'_def s3_def unlock_conn_def s2(3))
    show "shifts Q ?Q b (InQueue (cir s i))" by (rule shifts_put [OF tu(1) [OF rb] ms])
  qed (use s2 rb in \<open>auto simp: s'_def s3_def unlock_conn_def\<close>)
  have nb: "b \<notin> inflight Q s c" by (rule not_inflight [OF core at]) simp
  then have card: "card (inflight ?Q s' c) = Suc (card (inflight Q s c))"
    using moves_inflight(2) [OF m] mem finite_inflight(1) [OF I(6,1), of c] by auto
  have sq: "sendq ?Q c = sendq Q c" using ne(1) [of c] by auto
  have x: "conn_lock (conns s' c) = 0" "received (conns s' c) = received (conns s c) + 1"
    "recvbuf (conns s' c) = None" "processed (conns s' c) = processed (conns s c)"
    "sent (conns s' c) = sent (conns s c)" "sendbuf (conns s' c) = sendbuf (conns s c)"
    "epoll_state (conns s' c) = epoll_state (conns s c)" "closed (conns s' c) = 0"
    using cl by (simp_all add: s'_def s3_def unlock_conn_def s2(3))
  have "unat (received (conns s c) - sent (conns s c) + 1) \<le> unat (readahead (cfg s)) + 1"
    using L cl rb unat_suc_le [of "received (conns s c) - sent (conns s c)"]
    by (simp add: live_ok_def open_ok_def)
  then have "live_ok (readahead (cfg s)) (conns s' c) (card (inflight ?Q s' c)) (length (sendq ?Q c))"
    using L cl unfolding card sq live_ok_def open_ok_def x by (auto simp: algebra_simps)
  from moves_inv [OF m inv this] have "srv_inv B C ?Q s'" .
  moreover have "?Q (ebr s) = Q (ebr s)" using ne(2) by auto
  moreover have "is_open C ?Q s' c" using op moves_live(2) [OF m] by simp
  moreover have "session_of ?Q s' c = session_of Q s c
      \<lparr>rx_part := [], to_hash := to_hash (session_of Q s c) @ [req_bytes (msg (bufs s2 b))]\<rparr>"
  proof -
    note idx = conns_okD(1) [OF ok live]
    have ci: "cir s i = cq s c" by (simp add: i_def)
    have "cq s c \<noteq> sq s c" using ctx_ok_distinct(2) [OF I(4)] indices_okD(1,3) [OF idx] by simp
    moreover have "bufs s' b = bufs s2 b" by (simp add: s'_def s3_def unlock_conn_def)
    ultimately show ?thesis
      unfolding moves_session [OF m core op idx]
      using transfer_lists [OF core op idx disjI1 [OF rb]] rb ne(1) [of c]
      by (simp add: session_of_def send_bufs_def removeAll_id ci)
  qed
  ultimately show ?thesis using run moves_goes [OF m core] x(3,6) by blast
qed

text \<open>
  A round ends by returning or going on with the invariant true, or it tears down a
  connection that is in the middle of sending a response.
\<close>

lemma request_bytes_step:
  assumes inv: "srv_inv B C Q s" and op: "is_open C Q s c" and rb: "recvbuf (conns s c) = Some b"
    and len: "1 \<le> len" "nat len \<le> unat (left (bufs s b))"
  shows "\<exists>s' Q'. (let s = upd_buf b (\<lambda>x. x\<lparr>left := left x - of_int len, ptr := ptr x + nat len\<rparr>) s in
       if left (bufs s b) = 0 then bind_res (request_complete c b s) (\<lambda>s. Inr (None, s))
       else Inr (None, s)) = Inr (None :: int option, s')
    \<and> srv_inv B C Q' s' \<and> goes c C Q s Q' s' \<and> is_open C Q' s' c
    \<and> sendbuf (conns s' c) = sendbuf (conns s c) \<and> req_measure Q' s' c < req_measure Q s c
    \<and> session_step sha1 late (session_of Q s c)
        (take (nat len) (drop (ptr (bufs s b)) (msg (bufs s b)))) [] (session_of Q' s' c)"
proof -
  note I = srv_invD [OF inv]
  have at: "at_place C Q s b (AsRecv c)" using op rb by simp
  have b: "recv_ok (bufs s b) c" "length (msg (bufs s b)) = 1048"
    using I(8) op rb conservedD(1) [OF I(6) at] by (auto simp: bufs_ok_def)
  define s2 where "s2 = upd_buf b (\<lambda>x. x\<lparr>left := left x - of_int len, ptr := ptr x + nat len\<rparr>) s"
  have lf: "unat (left (bufs s2 b)) = unat (left (bufs s b)) - nat len"
    using left_off(2) [of len "left (bufs s b)"] len by (simp add: s2_def)
  have ctx: "same_ctx s s2" by (simp add: s2_def same_ctx_def)
  let ?bs = "take (nat len) (drop (ptr (bufs s b)) (msg (bufs s b)))"
  have grow: "part_bytes s c @ ?bs = take (ptr (bufs s b) + nat len) (msg (bufs s b))"
    using rb by (simp add: part_bytes_def take_add)
  show ?thesis
  proof (cases "left (bufs s2 b) = 0")
    case True
    from request_complete_step [OF inv op rb ctx] b obtain s' Q' where
      r: "request_complete c b s2 = Inr s'" "srv_inv B C Q' s'" "goes c C Q s Q' s'" "is_open C Q' s' c"
        "sendbuf (conns s' c) = sendbuf (conns s c)" "recvbuf (conns s' c) = None"
        "Q' (ebr s) = Q (ebr s)"
      and se: "session_of Q' s' c = session_of Q s c
        \<lparr>rx_part := [], to_hash := to_hash (session_of Q s c) @ [req_bytes (msg (bufs s2 b))]\<rparr>"
      by (auto simp: s2_def recv_ok_def)
    have "req_measure Q' s' c < req_measure Q s c"
      using rb b(1) r(6,7) same_ctx_roots(2) [OF goes_ctx [OF r(3)]]
      by (simp add: req_measure_def recv_ok_def)
    moreover have "session_step sha1 late (session_of Q s c) ?bs [] (session_of Q' s' c)"
    proof -
      have "nat len = unat (left (bufs s b))" using True lf len by simp
      then have "ptr (bufs s b) + nat len = 1024" using b(1) by (simp add: recv_ok_def)
      then have "part_bytes s c @ ?bs = req_bytes (msg (bufs s2 b))" "length (req_bytes (msg (bufs s2 b))) = 1024"
        using grow b(2) by (simp_all add: req_bytes_def s2_def)
      then show ?thesis unfolding se
        using session_step.request_done [of "session_of Q s c" ?bs sha1 late] by simp
    qed
    ultimately show ?thesis using True r unfolding Let_def s2_def [symmetric] by auto
  next
    case False
    then have "0 < unat (left (bufs s2 b))" by (simp add: unat_gt_0)
    then have rok: "recv_ok (bufs s2 b) c" using b(1) lf len by (simp add: recv_ok_def s2_def)
    have t: "srv_inv B C Q s2" "goes c C Q s Q s2" "session_of Q s2 c = session_of Q s c
        \<lparr>rx_part := (if AsRecv c = AsRecv c then take (ptr (bufs s2 b)) (msg (bufs s2 b)) else part_bytes s c),
         tx_rest := (if AsRecv c = AsSend c then drop (ptr (bufs s2 b)) (msg (bufs s2 b)) else rest_bytes s c)\<rparr>"
      by (rule transfer_step [OF inv op at _ ctx]; use rok b I(3) in \<open>simp add: s2_def\<close>)+
    have "session_step sha1 late (session_of Q s c) ?bs [] (session_of Q s2 c)"
    proof -
      have "take (ptr (bufs s2 b)) (msg (bufs s2 b)) = part_bytes s c @ ?bs"
        using grow by (simp add: s2_def)
      then have "session_of Q s2 c = session_of Q s c\<lparr>rx_part := part_bytes s c @ ?bs\<rparr>"
        unfolding t(3) by (simp add: session_of_def)
      moreover have "length (part_bytes s c @ ?bs) < 1024"
        using rok b unfolding grow by (simp add: recv_ok_def s2_def)
      ultimately show ?thesis
        using session_step.receive [of "session_of Q s c" ?bs sha1 late] by simp
    qed
    moreover have "req_measure Q s2 c < req_measure Q s c"
      using rb lf len b(1) by (simp add: req_measure_def recv_ok_def) (simp add: s2_def)
    moreover have "is_open C Q s2 c" "sendbuf (conns s2 c) = sendbuf (conns s c)"
      using op by (simp_all add: s2_def is_open_def is_live_def)
    ultimately show ?thesis using False t(1,2) unfolding Let_def s2_def [symmetric] by auto
  qed
qed

lemma request_round_step:
  assumes inv: "srv_inv B C Q s" and op: "is_open C Q s c" and k: "recv_contract k"
    and n: "card B < n"
  shows "(\<exists>out s' Q'. handle_request_round n k c s = Inr (out, s') \<and> srv_inv B C Q' s'
      \<and> goes c C Q s Q' s' \<and> (out = None \<longrightarrow> is_open C Q' s' c
          \<and> sendbuf (conns s' c) = sendbuf (conns s c) \<and> req_measure Q' s' c < req_measure Q s c)
      \<and> (\<forall>r. out = Some r \<longrightarrow> r = 0)
      \<and> (is_open C Q' s' c \<longrightarrow>
          session_step sha1 late (session_of Q s c) (request_input k c s) [] (session_of Q' s' c)))
    \<or> (sendbuf (conns s c) \<noteq> None \<and> (\<exists>s' Q'. srv_inv B C Q' s' \<and> is_open C Q' s' c
        \<and> handle_request_round n k c s =
            bind_res (finish_connection n k c s') (\<lambda>(r, s). Inr (Some r, s))))"
    (is "?A \<or> ?B")
proof -
  from request_buffer_step [OF inv op] obtain r s1 Q1 where
    rq: "request_buffer c s = Inr (r, s1)" and inv1: "srv_inv B C Q1 s1" and c1: "goes c C Q s Q1 s1"
    and op1: "is_open C Q1 s1 c" and rb: "\<forall>b. r = Some b \<longrightarrow> recvbuf (conns s1 c) = Some b"
    and sb: "sendbuf (conns s1 c) = sendbuf (conns s c)"
    and me: "req_measure Q1 s1 c \<le> req_measure Q s c"
    and se1: "session_of Q1 s1 c = session_of Q s c" by blast
  show ?thesis
  proof (cases r)
    case None
    then have "handle_request_round n k c s = Inr (Some 0, s1)" "request_input k c s = []"
      using rq by (simp_all add: handle_request_round_def request_input_def)
    with inv1 c1 show ?thesis using session_step.quiet [of sha1 late] se1 by fastforce
  next
    case (Some b)
    with rb have rb1: "recvbuf (conns s1 c) = Some b" by simp
    define io_size where "io_size = min_size (left (bufs s1 b)) (max_io_size (cfg s1))"
    have "unat io_size \<le> unat (left (bufs s1 b))"
      by (simp add: io_size_def unat_min_size)
    from recv_into_step [OF inv1 op1 rb1 this k] obtain len s2 where
      rv: "recv_into k c b io_size s1 = Inr (len, s2)" and inv2: "srv_inv B C Q1 s2"
      and g2: "goes c C Q1 s1 Q1 s2" and se2: "session_of Q1 s2 c = session_of Q1 s1 c"
      and obs: "let r = fst (sys (Z_recv k (fd (conns s1 c)) (unat io_size) MSG_DONTWAIT) s1) in len = sr_ret r
        \<and> (0 \<le> len \<longrightarrow> length (sr_bytes r) = nat len
            \<and> take (nat len) (drop (ptr (bufs s1 b)) (msg (bufs s2 b))) = sr_bytes r)"
      and len: "-1 \<le> len" "len \<le> int (unat io_size)"
      and cs: "conns s2 = conns s1"
      and bf: "\<And>x. left (bufs s2 x) = left (bufs s1 x)" "\<And>x. ptr (bufs s2 x) = ptr (bufs s1 x)" by blast
    note ctx = goes_trans [OF c1 g2] and c2 = goes_ctx [OF g2]
    have in_: "request_input k c s
        = (if len < 0 then [] else take (nat len) (drop (ptr (bufs s2 b)) (msg (bufs s2 b))))"
      using obs rq Some by (auto simp: request_input_def Let_def bf(2) io_size_def)
    have op2: "is_open C Q1 s2 c"
      using op1 by (simp add: is_open_def is_live_def cs same_ctx_roots [OF c2])
    have rb2: "recvbuf (conns s2 c) = Some b" using rb1 cs by simp
    have round: "handle_request_round n k c s =
      (if len = -1 \<and> errno s2 = EAGAIN then Inr (Some 0, s2)
       else if len \<le> 0 then bind_res (finish_connection n k c s2) (\<lambda>(r, s). Inr (Some r, s))
       else let s = upd_buf b (\<lambda>x. x\<lparr>left := left x - of_int len, ptr := ptr x + nat len\<rparr>) s2 in
         if left (bufs s b) = 0 then bind_res (request_complete c b s) (\<lambda>s. Inr (None, s))
         else Inr (None, s))"
      using rq rv Some by (simp add: handle_request_round_def io_size_def Let_def)
    consider "len = -1 \<and> errno s2 = EAGAIN" | "len \<le> 0" "\<not> (len = -1 \<and> errno s2 = EAGAIN)"
      | "1 \<le> len" by linarith
    then show ?thesis
    proof cases
      case 1
      then have "handle_request_round n k c s = Inr (Some 0, s2)" "request_input k c s = []"
        using round in_ by simp_all
      with inv2 ctx show ?thesis using session_step.quiet [of sha1 late] se1 se2 by fastforce
    next
      case 2
      then have fin: "handle_request_round n k c s =
        bind_res (finish_connection n k c s2) (\<lambda>(r, s). Inr (Some r, s))" using round by auto
      show ?thesis
      proof (cases "sendbuf (conns s c) = None")
        case True
        with sb cs have "sendbuf (conns s2 c) = None" by simp
        from finish_step [OF inv2 op2 this n] obtain s' Q' where
          "finish_connection n k c s2 = Inr (0, s')" "srv_inv B C Q' s'" "goes c C Q1 s2 Q' s'"
          "closed (conns s' c) = 1" by blast
        moreover from this have "\<not> is_open C Q' s' c" by (simp add: is_open_def)
        ultimately show ?thesis using fin goes_trans [OF ctx] by auto
      next
        case False
        with fin inv2 op2 show ?thesis by blast
      qed
    next
      case 3
      have "nat len \<le> unat (left (bufs s2 b))"
        using len(2) 3 bf by (simp add: io_size_def unat_min_size)
      from request_bytes_step [OF inv2 op2 rb2 3 this, of sha1 late] obtain s' Q' where
        s': "handle_request_round n k c s = Inr (None, s')" "srv_inv B C Q' s'" "goes c C Q1 s2 Q' s'"
          "is_open C Q' s' c" "sendbuf (conns s' c) = sendbuf (conns s2 c)"
          "req_measure Q' s' c < req_measure Q1 s2 c"
        and st: "session_step sha1 late (session_of Q1 s2 c) (request_input k c s) [] (session_of Q' s' c)"
        unfolding round in_ using 3 by auto
      have "req_measure Q1 s2 c = req_measure Q1 s1 c"
        by (simp add: req_measure_def cs bf same_ctx_roots(2) [OF c2] split: option.splits)
      with s' me sb cs goes_trans [OF ctx s'(3)] st se1 se2 show ?thesis
        by (intro disjI1 exI [of _ None] exI [of _ s'] exI [of _ Q']) simp
    qed
  qed
qed

subsection \<open>handle_response\<close>

text \<open>The bytes a round of \<open>handle_response\<close> sends: those its call of \<open>send\<close> accepts.\<close>

definition response_output :: "'w kernel \<Rightarrow> nat \<Rightarrow> 'w srv \<Rightarrow> byte list" where
  "response_output k c s =
     (case response_buffer c s of
        Inr (Some b, s) \<Rightarrow>
          let io_size = min_size (left (bufs s b)) (max_io_size (cfg s));
              bs = take (unat io_size) (drop (ptr (bufs s b)) (msg (bufs s b)));
              r = fst (sys (Z_send k (fd (conns s c)) bs MSG_DONTWAIT) s)
          in take (nat (sr_ret r)) bs
      | _ \<Rightarrow> [])"

text \<open>
  What bounds the loop of \<open>handle_response\<close>: a round that goes on has sent all it tried
  to, at least one byte.
\<close>

definition res_measure :: "(root_id \<rightharpoonup> node list) \<Rightarrow> 'w srv \<Rightarrow> nat \<Rightarrow> nat" where
  "res_measure Q s c = 25 * length (sendq Q c)
     + (case sendbuf (conns s c) of None \<Rightarrow> 0 | Some b \<Rightarrow> unat (left (bufs s b)))"

lemma response_buffer_step:
  assumes inv: "srv_inv B C Q s" and op: "is_open C Q s c"
  shows "\<exists>r s' Q'. response_buffer c s = Inr (r, s') \<and> srv_inv B C Q' s' \<and> goes c C Q s Q' s'
    \<and> is_open C Q' s' c \<and> (\<forall>b. r = Some b \<longrightarrow> sendbuf (conns s' c) = Some b)
    \<and> res_measure Q' s' c \<le> res_measure Q s c \<and> loaded (session_of Q s c) (session_of Q' s' c)
    \<and> (r = None \<longrightarrow> session_of Q' s' c = session_of Q s c)"
proof -
  have core: "srv_core B C Q s" and ok: "conns_ok C Q s"
    using inv by (simp_all add: srv_inv_core)
  note I = srv_coreD [OF core] and pools = ctx_ok_pools [OF I(4)]
  have live: "is_live C Q s c" and cl: "closed (conns s c) = 0"
    using op by (simp_all add: is_open_def)
  have stay: ?thesis if "response_buffer c s = Inr (r, s\<lparr>qh := h\<rparr>)" "qrep h Q"
    "\<forall>b. r = Some b \<longrightarrow> sendbuf (conns s c) = Some b" for r h
  proof -
    have s: "same_ctx s (s\<lparr>qh := h\<rparr>)" by (simp add: same_ctx_def)
    have "srv_inv B C Q (s\<lparr>qh := h\<rparr>)" by (rule srv_inv_cong [OF inv s]) (simp_all add: that(2))
    moreover have "session_of Q (s\<lparr>qh := h\<rparr>) c = session_of Q s c"
      by (rule session_cong [OF s]) simp_all
    ultimately show ?thesis using that goes_qh [of c C Q s h] op
      by (intro exI [of _ r] exI [of _ "s\<lparr>qh := h\<rparr>"] exI [of _ Q])
        (simp add: is_open_def is_live_def res_measure_def loaded_def split: option.splits)
  qed
  from queues_okD(4) [OF I(5) live] obtain ns0 where ns0: "Q (RSend c) = Some ns0" by blast
  show ?thesis
  proof (cases "sendbuf (conns s c)")
    case (Some b)
    then show ?thesis using stay [of "Some b" "qh s"] I(3) by (simp add: response_buffer_def)
  next
    case None
    show ?thesis
    proof (cases ns0)
      case Nil
      with srv_get_empty [OF I(3)] ns0 obtain h where
        "srv_get (Some (RSend c)) s = Inr (Null, s\<lparr>qh := h\<rparr>)" "qrep h Q" by blast
      then show ?thesis using stay [of None h] None by (simp add: response_buffer_def)
    next
      case (Cons n ns)
      have "inq Q (RSend c) n" using ns0 Cons by (simp add: inq_def)
      with queues_okD(6) [OF I(5)] pools(6) obtain b where b: "n = BufQ b" "b \<in> B" by metis
      with ns0 Cons have Q: "Q (RSend c) = Some (BufQ b # ns)" by simp
      from srv_get_first [OF I(3) Q] obtain h where
        g: "srv_get (Some (RSend c)) s = Inr (Ptr (BufQ b), s\<lparr>qh := h\<rparr>)"
          "qrep h (Q(RSend c \<mapsto> ns))" .
      define s' where "s' = upd_conn c (sendbuf_update (\<lambda>_. Some b))
        (upd_buf b (\<lambda>x. x\<lparr>conn := Some c, left := of_nat sizeof_response, ptr := res_off\<rparr>)
          (s\<lparr>qh := h\<rparr>))"
      let ?Q = "Q(RSend c \<mapsto> ns)"
      have run: "response_buffer c s = Inr (Some b, s')"
        using g(1) None by (simp add: response_buffer_def s'_def Let_def)
      have here: "inq Q (RSend c) (BufQ b)" using Q by (simp add: inq_def)
      then have at: "at_place C Q s b (InQueue (RSend c))" by simp
      have m: "moves B C Q s ?Q s' c b (AsSend c)"
      proof (rule moves_io [OF core op at])
        show "inq ?Q r n \<longleftrightarrow> (if n = BufQ b then AsSend c = InQueue r else inq Q r n)" for r n
          using inq_taken [of "qh s" Q "RSend c" "BufQ b" ns, OF I(3) Q] by simp
        show "length (msg (bufs s' b)) = 1048" using I(8) b by (simp add: s'_def bufs_ok_def)
        show "place_ok C Q s s' c b (AsSend c)"
          using op by (simp add: place_ok_def send_ok_def s'_def)
        show "recvbuf (conns s' c) = Some x
          \<longleftrightarrow> (if x = b then AsSend c = AsRecv c else recvbuf (conns s c) = Some x)" for x
          using transfer_unique(4) [OF core op here] by (simp add: s'_def)
        show "?Q (RSend d) = Q (RSend d)" if "d \<noteq> c" for d using that by auto
        show "shifts Q ?Q b (AsSend c)" by (rule shifts_get [OF I(3) Q]) simp
      qed (use g(2) here None in \<open>auto simp: s'_def same_ctx_def\<close>)
      have "b \<notin> inflight Q s c" by (rule not_inflight [OF core at, where c = c]) simp
      then have fl: "inflight ?Q s' c = inflight Q s c" using moves_inflight(2) [OF m] by simp
      have "live_ok (readahead (cfg s)) (conns s c) (card (inflight Q s c)) (length (n # ns))"
        using conns_okD(2) [OF ok live] ns0 Cons by simp
      then have "live_ok (readahead (cfg s)) (conns s' c) (card (inflight ?Q s' c))
          (length (sendq ?Q c))"
        using cl None unfolding fl by (simp add: s'_def live_ok_def open_ok_def)
      from moves_inv [OF m inv this] have "srv_inv B C ?Q s'" .
      moreover have "is_open C ?Q s' c" using op moves_live(2) [OF m] by simp
      moreover have "sendbuf (conns s' c) = Some b" by (simp add: s'_def)
      moreover have "res_measure ?Q s' c \<le> res_measure Q s c"
        using Q None by (simp add: res_measure_def s'_def)
      moreover have "loaded (session_of Q s c) (session_of ?Q s' c)"
      proof -
        note idx = conns_okD(1) [OF ok live]
        have ne: "RSend c \<noteq> cq s c" "RSend c \<noteq> sq s c"
          using ctx_ok_distinct(1) [OF I(4), of c] inbox_mem [OF idx] by auto
        then have no: "b \<notin> set (hash_bufs Q s c)" "b \<notin> set (msgs_of s c (the (Q (sq s c))))"
          "recvbuf (conns s c) \<noteq> Some b"
          using place_lists(1,3,4) [OF core op idx at] by auto
        have "BufQ b \<notin> set ns" using qrep_distinct [OF I(3) Q] by simp
        then have "session_of ?Q s' c = session_of Q s c
          \<lparr>tx_rest := res_bytes (msg (bufs s b)),
           to_send := map (\<lambda>x. res_bytes (msg (bufs s x))) (buf_ids ns @ msgs_of s c (the (Q (sq s c))))\<rparr>"
          unfolding moves_session [OF m core op idx]
          using no Q I(8) b(2) by (simp add: session_of_def removeAll_id)
            (simp add: s'_def res_bytes_def bufs_ok_def)
        moreover have "to_send (session_of Q s c) = res_bytes (msg (bufs s b))
            # map (\<lambda>x. res_bytes (msg (bufs s x))) (buf_ids ns @ msgs_of s c (the (Q (sq s c))))"
          "tx_rest (session_of Q s c) = []"
          using Q None by (simp_all add: send_bufs_def rest_bytes_def)
        ultimately show ?thesis unfolding loaded_def by blast
      qed
      ultimately show ?thesis using run moves_goes [OF m core] by blast
    qed
  qed
qed

text \<open>Sending changes nothing but \<open>errno\<close> and the world.\<close>

lemma send_from_step:
  assumes inv: "srv_inv B C Q s" and op: "is_open C Q s c" and sb: "sendbuf (conns s c) = Some b"
    and io: "unat io_size \<le> unat (left (bufs s b))" and k: "send_contract k"
  shows "\<exists>len s'. send_from k c b io_size s = Inr (len, s') \<and> srv_inv B C Q s' \<and> same_ctx s s'
    \<and> len = sr_ret (fst (sys (Z_send k (fd (conns s c))
        (take (unat io_size) (drop (ptr (bufs s b)) (msg (bufs s b)))) MSG_DONTWAIT) s))
    \<and> -1 \<le> len \<and> len \<le> int (unat io_size) \<and> conns s' = conns s \<and> bufs s' = bufs s"
proof -
  note I = srv_invD [OF inv]
  have at: "at_place C Q s b (AsSend c)" using op sb by simp
  have b: "send_ok (bufs s b)" "length (msg (bufs s b)) = 1048"
    using I(8) op sb conservedD(1) [OF I(6) at] by (auto simp: bufs_ok_def)
  define bs where "bs = take (unat io_size) (drop (ptr (bufs s b)) (msg (bufs s b)))"
  have fits: "ptr (bufs s b) + unat io_size \<le> length (msg (bufs s b))"
    using b io by (simp add: send_ok_def)
  obtain r err w where z:
    "Z_send k (fd (conns s c)) bs MSG_DONTWAIT (errno s) (world s) = (r, err, w)"
    by (cases "Z_send k (fd (conns s c)) bs MSG_DONTWAIT (errno s) (world s)")
  note sc = send_contractD [OF k z]
  have "length bs = unat io_size" using fits by (simp add: bs_def)
  moreover have "send_from k c b io_size s = Inr (sr_ret r, s\<lparr>errno := err, world := w\<rparr>)"
    using fits z by (simp add: send_from_def load_bytes_def sys_def bs_def)
  moreover have ctx: "same_ctx s (s\<lparr>errno := err, world := w\<rparr>)" by (simp add: same_ctx_def)
  moreover have "srv_inv B C Q (s\<lparr>errno := err, world := w\<rparr>)"
    by (rule srv_inv_cong [OF inv ctx]) (simp_all add: I(3))
  ultimately show ?thesis using sc z by (auto simp: sys_def bs_def)
qed

lemma unat_pred_less: "x \<noteq> 0 \<Longrightarrow> unat (x - 1 :: 'a :: len word) < unat x"
  by (metis unat_minus_one diff_less unat_gt_0 zero_less_one)

text \<open>The counters of a connection that has sent one response more.\<close>

lemma open_ok_sent:
  assumes "open_ok ahead x q" and "sendbuf x = Some b" and "received x - processed x = of_nat f"
    and "f < 2 ^ 32" and "q < 2 ^ 32"
    and y: "processed y = processed x" "received y = received x" "sent y = sent x + 1"
      "sendbuf y = None" "recvbuf y = recvbuf x"
      "epoll_state y = (if processed y = sent y then epoll_state x AND NOT EPOLLOUT else epoll_state x)"
  shows "open_ok ahead y q"
proof -
  have g: "processed x - sent x = of_nat (Suc q)" using assms(1,2) by (simp add: open_ok_def)
  have q: "Suc q < 2 ^ 33" "Suc (f + q) < 2 ^ 33" using assms(4,5) by simp_all
  have "received x - sent x = (received x - processed x) + (processed x - sent x)" by simp
  also have "\<dots> = of_nat (Suc (f + q))" unfolding g assms(3) by simp
  finally have "received x - sent x = of_nat (Suc (f + q))" .
  then have nz: "received x - sent x \<noteq> 0" "processed x - sent x \<noteq> 0"
    using count_zero [OF q(1)] count_zero [OF q(2)] g by simp_all
  then have ne: "processed x \<noteq> sent x" by auto
  have "unat (received x - sent x - 1) < unat (received x - sent x)"
    by (rule unat_pred_less [OF nz(1)])
  moreover have "processed x - (sent x + 1) = of_nat q" using g by (simp add: algebra_simps)
  ultimately show ?thesis
    using assms(1) ne y(6) unfolding open_ok_def y(1-5)
    by (auto simp: epoll_bits diff_diff_eq)
qed

lemma response_complete_step:
  assumes inv: "srv_inv B C Q s" and op: "is_open C Q s c" and sb: "sendbuf (conns s c) = Some b"
    and s2: "same_ctx s s2" "qh s2 = qh s" "conns s2 = conns s" "\<And>x. x \<noteq> b \<Longrightarrow> bufs s2 x = bufs s x"
      "length (msg (bufs s2 b)) = 1048"
  shows "\<exists>err s' Q'. response_complete k c b s2 = Inr (err, s') \<and> srv_inv B C Q' s' \<and> goes c C Q s Q' s'
    \<and> is_open C Q' s' c \<and> sendbuf (conns s' c) = None \<and> Q' (RSend c) = Q (RSend c)
    \<and> session_of Q' s' c = session_of Q s c\<lparr>tx_rest := []\<rparr>"
proof -
  have core: "srv_core B C Q s" and ok: "conns_ok C Q s"
    using inv by (simp_all add: srv_inv_core)
  note I = srv_coreD [OF core] and ctx = same_ctx_roots [OF s2(1)] and pools = ctx_ok_pools [OF I(4)]
  have live: "is_live C Q s c" and cl: "closed (conns s c) = 0"
    using op by (simp_all add: is_open_def)
  have L: "live_ok (readahead (cfg s)) (conns s c) (card (inflight Q s c)) (length (sendq Q c))"
    by (rule conns_okD(2) [OF ok live])
  then have lk: "conn_lock (conns s c) = 0" by (simp add: live_ok_def)
  from queues_okD(2) [OF I(5)] obtain es where es: "Q (ebr s) = Some es" by blast
  have at: "at_place C Q s b (AsSend c)" using op sb by simp
  note tu = transfer_unique [OF core op]
  define s3 where "s3 = upd_conn c (\<lambda>x. x\<lparr>sent := sent x + 1, sendbuf := None\<rparr>) s2"
  have "unqueued (BufQ b) Q" using tu(2) [OF sb] by (intro unqueued_inq) simp_all
  with srv_put_law [of s3 Q "ebr s" es "BufQ b"] I(3) es obtain h where
    h: "srv_put (Ptr (BufQ b)) (Some (ebr s)) s3 = Inr (s3\<lparr>qh := h\<rparr>)"
      "qrep h (Q(ebr s \<mapsto> es @ [BufQ b]))" by (auto simp: s3_def s2(2))
  define s4 where "s4 = upd_conn c (conn_lock_update (\<lambda>_. 1)) (s3\<lparr>qh := h\<rparr>)"
  define s5 where "s5 = (if processed (conns s4 c) = sent (conns s4 c)
     then snd (epoll_set_conn_state k c (epoll_state (conns s4 c) AND NOT EPOLLOUT) s4) else s4)"
  define s' where "s' = unlock_conn c s5"
  let ?Q = "Q(ebr s \<mapsto> es @ [BufQ b])"
  have lc: "lock_conn c (s3\<lparr>qh := h\<rparr>) = Inr s4"
    using lk by (simp add: lock_conn_def lock_eq s4_def s3_def s2(3))
  have q3: "queues s3 = queues s" by (simp add: s3_def ctx(2))
  have run: "\<exists>err. response_complete k c b s2 = Inr (err, s')"
    using h(1) pools(2) lc q3
    by (simp add: response_complete_def s3_def [symmetric] Let_def s'_def s5_def split: prod.splits)
  note ss = s'_def s5_def s4_def s3_def unlock_conn_def
  have m: "moves B C Q s ?Q s' c b (InQueue (ebr s))"
  proof (rule moves_io [OF core op at])
    show "inq ?Q r n \<longleftrightarrow> (if n = BufQ b then InQueue (ebr s) = InQueue r else inq Q r n)" for r n
      using inq_added [of Q "BufQ b" "ebr s" es] tu(2) [OF sb] es by auto
    show "place_ok C Q s s' c b (InQueue (ebr s))" by (rule place_ok_queue(3) [OF I(4)])
    show "same_ctx s s'" "qrep (qh s') ?Q"
      using s2(1) h(2) by (simp_all add: ss same_ctx_def)
    show "?Q (RSend d) = Q (RSend d)" for d using pools(7) [of d] by auto
    show "recvbuf (conns s' c) = Some x \<longleftrightarrow> (if x = b then InQueue (ebr s) = AsRecv c
        else recvbuf (conns s c) = Some x)" for x
      using tu(3) [of b] sb by (auto simp: ss s2(3))
    show "shifts Q ?Q b (InQueue (ebr s))" by (rule shifts_put [OF tu(2) [OF sb] es])
  qed (use s2 sb in \<open>auto simp: ss\<close>)
  have "b \<notin> inflight Q s c" by (rule not_inflight [OF core at, where c = c]) simp
  then have fl: "inflight ?Q s' c = inflight Q s c"
    using moves_inflight(2) [OF m] pools(5) by auto
  have sq: "sendq ?Q c = sendq Q c" using pools(7) [of c] by auto
  have x: "conn_lock (conns s' c) = 0" "received (conns s' c) = received (conns s c)"
    "processed (conns s' c) = processed (conns s c)" "closed (conns s' c) = closed (conns s c)"
    by (auto simp: ss s2(3))
  have "open_ok (readahead (cfg s)) (conns s' c) (length (sendq Q c))"
  proof (rule open_ok_sent [where x = "conns s c" and b = b and f = "card (inflight Q s c)"])
    from queues_okD(4) [OF I(5) live] obtain ns where ns: "Q (RSend c) = Some ns" by blast
    show "length (sendq Q c) < 2 ^ 32" using sendq_length [OF core ns] I(2) ns by simp
    show "card (inflight Q s c) < 2 ^ 32" using finite_inflight(2) [OF I(6,1), of c] I(2) by simp
  qed (use L cl sb in \<open>simp_all add: live_ok_def ss s2(3)\<close>)
  then have "live_ok (readahead (cfg s)) (conns s' c) (card (inflight ?Q s' c))
      (length (sendq ?Q c))"
    using L cl unfolding fl sq live_ok_def x by simp
  from moves_inv [OF m inv this] have "srv_inv B C ?Q s'" .
  moreover have "is_open C ?Q s' c" using op moves_live(2) [OF m] by simp
  moreover have "sendbuf (conns s' c) = None" by (simp add: ss)
  moreover have "?Q (RSend c) = Q (RSend c)" using pools(7) [of c] by auto
  moreover have "session_of ?Q s' c = session_of Q s c\<lparr>tx_rest := []\<rparr>"
  proof -
    note idx = conns_okD(1) [OF ok live]
    have "ebr s \<noteq> cq s c" "ebr s \<noteq> sq s c" "ebr s \<noteq> RSend c"
      using pools(5,7) inbox_mem [OF idx] by auto
    then show ?thesis
      unfolding moves_session [OF m core op idx]
      using transfer_lists [OF core op idx disjI2 [OF sb]] sb
      by (simp add: session_of_def send_bufs_def removeAll_id)
  qed
  ultimately show ?thesis using run moves_goes [OF m core] by blast
qed

text \<open>The end of a round, after \<open>len\<close> bytes have been sent.\<close>

lemma response_bytes_step:
  assumes inv: "srv_inv B C Q s" and op: "is_open C Q s c" and sb: "sendbuf (conns s c) = Some b"
    and len: "0 \<le> len" "nat len \<le> unat (left (bufs s b))"
    and io: "of_int len < io_size \<Longrightarrow> nat len < unat (left (bufs s b))"
      "\<not> of_int len < io_size \<Longrightarrow> 0 < nat len"
  shows "\<exists>out s' Q'. (let s = upd_buf b (\<lambda>x. x\<lparr>left := left x - of_int len, ptr := ptr x + nat len\<rparr>) s in
       if of_int len < io_size then Inr (Some 0, s)
       else if left (bufs s b) \<noteq> 0 then Inr (None, s)
       else bind_res (response_complete k c b s) (\<lambda>(err, s).
         if err \<noteq> 0 then Inr (Some err, s) else Inr (None, s))) = Inr (out, s')
    \<and> srv_inv B C Q' s' \<and> goes c C Q s Q' s' \<and> is_open C Q' s' c
    \<and> (out = None \<longrightarrow> res_measure Q' s' c < res_measure Q s c)
    \<and> session_of Q' s' c = session_of Q s c\<lparr>tx_rest := drop (nat len) (rest_bytes s c)\<rparr>"
proof -
  note I = srv_invD [OF inv]
  have at: "at_place C Q s b (AsSend c)" using op sb by simp
  have b: "send_ok (bufs s b)" "length (msg (bufs s b)) = 1048"
    using I(8) op sb conservedD(1) [OF I(6) at] by (auto simp: bufs_ok_def)
  define s2 where "s2 = upd_buf b (\<lambda>x. x\<lparr>left := left x - of_int len, ptr := ptr x + nat len\<rparr>) s"
  have lf: "unat (left (bufs s2 b)) = unat (left (bufs s b)) - nat len"
    using left_off(2) [of len "left (bufs s b)"] len by (simp add: s2_def)
  have ctx: "same_ctx s s2" by (simp add: s2_def same_ctx_def)
  show ?thesis
  proof (cases "left (bufs s2 b) = 0")
    case True
    then have big: "\<not> of_int len < io_size" using io(1) lf by auto
    from response_complete_step [OF inv op sb ctx, of k] b obtain err s' Q' where
      r: "response_complete k c b s2 = Inr (err, s')" "srv_inv B C Q' s'" "goes c C Q s Q' s'"
        "is_open C Q' s' c" "sendbuf (conns s' c) = None" "Q' (RSend c) = Q (RSend c)"
        "session_of Q' s' c = session_of Q s c\<lparr>tx_rest := []\<rparr>"
      by (auto simp: s2_def)
    have "nat len = unat (left (bufs s b))" using True lf len by simp
    then have "drop (nat len) (rest_bytes s c) = []"
      using b sb by (simp add: rest_bytes_def send_ok_def)
    have "res_measure Q' s' c < res_measure Q s c"
      using r sb b(1) by (simp add: res_measure_def send_ok_def)
    with r True big \<open>drop (nat len) (rest_bytes s c) = []\<close> show ?thesis
      unfolding Let_def s2_def [symmetric]
      by (intro exI [of _ "if err \<noteq> 0 then Some err else None"] exI [of _ s'] exI [of _ Q']) simp
  next
    case False
    then have "0 < unat (left (bufs s2 b))" by (simp add: unat_gt_0)
    then have sok: "send_ok (bufs s2 b)" using b(1) lf len by (simp add: send_ok_def s2_def)
    have inv2: "srv_inv B C Q s2" and g2: "goes c C Q s Q s2" and t: "session_of Q s2 c = session_of Q s c
        \<lparr>rx_part := (if AsSend c = AsRecv c then take (ptr (bufs s2 b)) (msg (bufs s2 b)) else part_bytes s c),
         tx_rest := (if AsSend c = AsSend c then drop (ptr (bufs s2 b)) (msg (bufs s2 b)) else rest_bytes s c)\<rparr>"
      by (rule transfer_step [OF inv op at _ ctx]; use sok b I(3) in \<open>simp add: s2_def\<close>)+
    have "session_of Q s2 c = session_of Q s c\<lparr>tx_rest := drop (nat len) (rest_bytes s c)\<rparr>"
      unfolding t using sb by (simp add: session_of_def rest_bytes_def s2_def add.commute)
    moreover have op2: "is_open C Q s2 c" using op by (simp add: s2_def is_open_def is_live_def)
    moreover have "res_measure Q s2 c < res_measure Q s c" if "\<not> of_int len < io_size"
      using sb lf len b(1) io(2) [OF that] by (simp add: res_measure_def send_ok_def) (simp add: s2_def)
    ultimately show ?thesis
      using inv2 g2 op2 False unfolding Let_def s2_def [symmetric]
      by (intro exI [of _ "if of_int len < io_size then Some 0 else None"] exI [of _ s2] exI [of _ Q])
        simp
  qed
qed

lemma response_round_step:
  assumes inv: "srv_inv B C Q s" and op: "is_open C Q s c" and k: "send_contract k"
    and io: "0 < unat (max_io_size (cfg s))"
  shows "(\<exists>out s' Q'. handle_response_round n k c s = Inr (out, s') \<and> srv_inv B C Q' s'
      \<and> goes c C Q s Q' s' \<and> is_open C Q' s' c
      \<and> (out = None \<longrightarrow> res_measure Q' s' c < res_measure Q s c)
      \<and> session_step sha1 late (session_of Q s c) [] (response_output k c s) (session_of Q' s' c))
    \<or> (\<exists>s' Q'. srv_inv B C Q' s' \<and> is_open C Q' s' c \<and> sendbuf (conns s' c) \<noteq> None
        \<and> handle_response_round n k c s =
            bind_res (finish_connection n k c s') (\<lambda>(r, s). Inr (Some r, s)))"
proof -
  from response_buffer_step [OF inv op] obtain r s1 Q1 where
    rq: "response_buffer c s = Inr (r, s1)" and inv1: "srv_inv B C Q1 s1" and c1: "goes c C Q s Q1 s1"
    and op1: "is_open C Q1 s1 c" and sb: "\<forall>b. r = Some b \<longrightarrow> sendbuf (conns s1 c) = Some b"
    and me: "res_measure Q1 s1 c \<le> res_measure Q s c"
    and lo: "loaded (session_of Q s c) (session_of Q1 s1 c)"
    and se1: "r = None \<longrightarrow> session_of Q1 s1 c = session_of Q s c" by blast
  show ?thesis
  proof (cases r)
    case None
    then have "handle_response_round n k c s = Inr (Some 0, s1)" "response_output k c s = []"
      using rq by (simp_all add: handle_response_round_def response_output_def)
    with inv1 c1 op1 show ?thesis using session_step.quiet [of sha1 late] se1 None by fastforce
  next
    case (Some b)
    with sb have sb1: "sendbuf (conns s1 c) = Some b" by simp
    have so: "send_ok (bufs s1 b)"
      using srv_invD(8) [OF inv1] op1 sb1 by (simp add: bufs_ok_def)
    define io_size where "io_size = min_size (left (bufs s1 b)) (max_io_size (cfg s1))"
    have io1: "unat io_size \<le> unat (left (bufs s1 b))" "0 < unat io_size"
      using io so by (simp_all add: io_size_def unat_min_size same_ctx_roots(1) [OF goes_ctx [OF c1]] send_ok_def)
    from send_from_step [OF inv1 op1 sb1 io1(1) k] obtain len s2 where
      rv: "send_from k c b io_size s1 = Inr (len, s2)" and inv2: "srv_inv B C Q1 s2"
      and c2: "same_ctx s1 s2" and len: "-1 \<le> len" "len \<le> int (unat io_size)"
      and obs: "len = sr_ret (fst (sys (Z_send k (fd (conns s1 c))
        (take (unat io_size) (drop (ptr (bufs s1 b)) (msg (bufs s1 b)))) MSG_DONTWAIT) s1))"
      and cs: "conns s2 = conns s1" "bufs s2 = bufs s1" by blast
    note ctx = goes_trans [OF c1 goes_same [OF c2 cs]]
    have rest: "rest_bytes s2 c = drop (ptr (bufs s1 b)) (msg (bufs s1 b))"
      "session_of Q1 s2 c = session_of Q1 s1 c"
      using sb1 cs session_cong [OF c2 cs] by (simp_all add: rest_bytes_def)
    have out: "response_output k c s = take (nat len) (rest_bytes s2 c)"
    proof -
      have "nat len \<le> unat io_size" using len by linarith
      then show ?thesis
        using rq Some unfolding rest
        by (simp add: response_output_def Let_def io_size_def [symmetric] obs [symmetric] min_absorb1)
    qed
    have step: "session_step sha1 late (session_of Q s c) [] (take m (rest_bytes s2 c))
        (session_of Q1 s1 c\<lparr>tx_rest := drop m (rest_bytes s2 c)\<rparr>)" for m
      by (rule loaded_transmit [OF lo]) (simp add: rest(2) [symmetric])
    have op2: "is_open C Q1 s2 c"
      using op1 by (simp add: is_open_def is_live_def cs same_ctx_roots [OF c2])
    have sb2: "sendbuf (conns s2 c) = Some b" using sb1 cs by simp
    have round: "handle_response_round n k c s =
      (if len = -1 then
         (if errno s2 = EAGAIN then Inr (Some 0, s2)
          else bind_res (finish_connection n k c s2) (\<lambda>(r, s). Inr (Some r, s)))
       else let s = upd_buf b (\<lambda>x. x\<lparr>left := left x - of_int len, ptr := ptr x + nat len\<rparr>) s2 in
         if of_int len < io_size then Inr (Some 0, s)
         else if left (bufs s b) \<noteq> 0 then Inr (None, s)
         else bind_res (response_complete k c b s) (\<lambda>(err, s).
           if err \<noteq> 0 then Inr (Some err, s) else Inr (None, s)))"
      using rq rv Some by (simp add: handle_response_round_def io_size_def Let_def)
    consider "len = -1" "errno s2 = EAGAIN" | "len = -1" "errno s2 \<noteq> EAGAIN" | "0 \<le> len"
      using len(1) by linarith
    then show ?thesis
    proof cases
      case 1
      have "session_of Q1 s1 c\<lparr>tx_rest := drop 0 (rest_bytes s2 c)\<rparr> = session_of Q1 s2 c"
        by (simp add: rest(2) [symmetric])
      with step [of 0] out 1 have
        "session_step sha1 late (session_of Q s c) [] (response_output k c s) (session_of Q1 s2 c)"
        by simp
      with 1 round inv2 op2 ctx show ?thesis by auto
    next
      case 2
      with round have "handle_response_round n k c s =
        bind_res (finish_connection n k c s2) (\<lambda>(r, s). Inr (Some r, s))" by simp
      with inv2 op2 sb2 show ?thesis by (intro disjI2 exI [of _ s2] exI [of _ Q1]) simp
    next
      case 3
      have le: "nat len \<le> unat io_size" using len(2) 3 by linarith
      have "unat (of_int len :: u64) = nat len" by (rule left_off(1) [OF 3 le])
      then have lt: "of_int len < io_size \<longleftrightarrow> nat len < unat io_size" by (simp only: word_less_nat_alt)
      have "nat len \<le> unat (left (bufs s2 b))" using le io1 cs by simp
      from response_bytes_step [OF inv2 op2 sb2 3 this, of io_size k] lt le io1 cs
      obtain out s' Q' where
        s': "handle_response_round n k c s = Inr (out, s')" "srv_inv B C Q' s'" "goes c C Q1 s2 Q' s'"
          "is_open C Q' s' c" "out = None \<longrightarrow> res_measure Q' s' c < res_measure Q1 s2 c"
          "session_of Q' s' c = session_of Q1 s2 c\<lparr>tx_rest := drop (nat len) (rest_bytes s2 c)\<rparr>"
        unfolding round using 3 by auto
      have st: "session_step sha1 late (session_of Q s c) [] (response_output k c s) (session_of Q' s' c)"
        using step [of "nat len"] unfolding out s'(6) rest(2) .
      have "res_measure Q1 s2 c = res_measure Q1 s1 c"
        by (simp add: res_measure_def cs split: option.splits)
      with s'(1,2,4,5) me goes_trans [OF ctx s'(3)] st show ?thesis
        by (intro disjI1 exI [of _ out] exI [of _ s'] exI [of _ Q']) auto
    qed
  qed
qed

end
