(* ===== verification/Server.thy ===== *)
theory Server
  imports Io_Steps
begin

section \<open>The server as a transition system\<close>

text \<open>
  The workers of the server take turns: a step is one round of a compute, submit, accept
  or IO worker, or the tear-down after an error event, in any order. The state has one
  ghost component, the set of connections whose descriptor is registered with an epoll
  instance: \<open>accept\<close> registers, and closing the descriptor removes it, so that the kernel
  reports events only for them.

  Two things the code does not handle are excluded by the steps: an \<open>accept\<close> that fails
  after a connection has been taken from the pool, and the end of a connection while one of
  its responses is being sent. Theory \<open>Server_Faults\<close> shows what the code does then.
\<close>

datatype srv_label =
    Compute nat
  | Submit nat
  | Accept
  | Request nat
  | Response nat
  | Error nat

type_synonym 'w srv_sys = "'w srv \<times> nat set"

text \<open>The connections of \<open>R\<close> that are still open in \<open>s\<close>.\<close>

definition still_open :: "nat set \<Rightarrow> 'w srv \<Rightarrow> nat set" where
  "still_open R s = {d \<in> R. closed (conns s d) = 0}"

inductive srv_step ::
  "nat \<Rightarrow> 'w kernel \<Rightarrow> (byte list \<Rightarrow> byte list) \<Rightarrow> 'w clock
    \<Rightarrow> srv_label \<Rightarrow> 'w srv_sys \<Rightarrow> 'w srv_sys \<Rightarrow> bool"
  for n k sha1 clock where
  compute: "i < n_comp s \<Longrightarrow> compute_worker_round n sha1 clock i s = Inr s'
    \<Longrightarrow> srv_step n k sha1 clock (Compute i) (s, R) (s', still_open R s')"
| submit: "i < n_sub s \<Longrightarrow> submitter_round k i s = Inr (err, s')
    \<Longrightarrow> srv_step n k sha1 clock (Submit i) (s, R) (s', still_open R s')"
| accept_idle: "srv_get (empty_connections (queues s)) s = Inr (Null, s0)
    \<Longrightarrow> handle_accept k s = Inr (ret, s')
    \<Longrightarrow> srv_step n k sha1 clock Accept (s, R) (s', still_open R s')"
| accept_new: "srv_get (empty_connections (queues s)) s = Inr (Ptr (ConnQ c), s0)
    \<Longrightarrow> accepts k s \<Longrightarrow> next_session (io s) \<noteq> 2 ^ 31 - 1 \<Longrightarrow> handle_accept k s = Inr (ret, s')
    \<Longrightarrow> srv_step n k sha1 clock Accept (s, R) (s', insert c R)"
| request: "c \<in> R \<Longrightarrow> handle_request_round n k c s = Inr (out, s')
    \<Longrightarrow> closed (conns s' c) = 0 \<or> sendbuf (conns s c) = None
    \<Longrightarrow> srv_step n k sha1 clock (Request c) (s, R) (s', still_open R s')"
| response: "c \<in> R \<Longrightarrow> handle_response_round n k c s = Inr (out, s') \<Longrightarrow> closed (conns s' c) = 0
    \<Longrightarrow> srv_step n k sha1 clock (Response c) (s, R) (s', still_open R s')"
| error: "c \<in> R \<Longrightarrow> sendbuf (conns s c) = None \<Longrightarrow> finish_connection n k c s = Inr (r, s')
    \<Longrightarrow> srv_step n k sha1 clock (Error c) (s, R) (s', still_open R s')"

inductive_cases srv_stepE: "srv_step n k sha1 clock l (s, R) (s', R')"

lemmas srv_step_cases [consumes 1, case_names compute submit accept_idle accept_new request
  response error] = srv_stepE

inductive srv_run ::
  "nat \<Rightarrow> 'w kernel \<Rightarrow> (byte list \<Rightarrow> byte list) \<Rightarrow> 'w clock
    \<Rightarrow> 'w srv_sys \<Rightarrow> srv_label list \<Rightarrow> 'w srv_sys \<Rightarrow> bool"
  for n k sha1 clock where
  none: "srv_run n k sha1 clock x [] x"
| more: "srv_step n k sha1 clock l x y \<Longrightarrow> srv_run n k sha1 clock y ls z
    \<Longrightarrow> srv_run n k sha1 clock x (l # ls) z"

text \<open>
  The state from which the workers start: the pools hold every connection and buffer, the
  inboxes are empty (theory \<open>Server_Main\<close> shows that \<open>create_server\<close> builds it).
\<close>

definition srv_queues0 :: "nat list \<Rightarrow> nat list \<Rightarrow> 'w srv \<Rightarrow> root_id \<rightharpoonup> node list" where
  "srv_queues0 bs cs s = (\<lambda>r. if r = ecr s then Some (map ConnQ cs)
     else if r = ebr s then Some (map BufQ bs)
     else if r \<in> inbox_roots s then Some [] else None)"

definition srv_start :: "nat list \<Rightarrow> nat list \<Rightarrow> 'w srv \<Rightarrow> bool" where
  "srv_start bs cs s \<longleftrightarrow> distinct bs \<and> distinct cs \<and> length bs < 2 ^ 32 \<and> ctx_ok s
     \<and> qrep (qh s) (srv_queues0 bs cs s)
     \<and> (\<forall>b \<in> set bs. length (msg (bufs s b)) = 1048) \<and> (\<forall>c \<in> set cs. sendbuf (conns s c) = None)"

subsection \<open>The environment\<close>

text \<open>What the workers rely on: the kernel's contracts, the clock, the digest, and fuel.\<close>

definition env_ok ::
  "nat \<Rightarrow> nat \<Rightarrow> 'w kernel \<Rightarrow> (byte list \<Rightarrow> byte list) \<Rightarrow> 'w clock \<Rightarrow> ('w \<Rightarrow> int) \<Rightarrow> bool" where
  "env_ok nb n k sha1 clock now \<longleftrightarrow> recv_contract k \<and> send_contract k \<and> sha_length sha1
     \<and> clock_advances clock now \<and> nb < n \<and> 2 ^ 32 < n"

text \<open>The invariant of the system: the server's, with the open connections registered.\<close>

definition sys_inv :: "nat set \<Rightarrow> nat set \<Rightarrow> 'w srv_sys \<Rightarrow> bool" where
  "sys_inv B C x \<longleftrightarrow> (\<exists>Q. srv_inv B C Q (fst x) \<and> snd x = {c. is_open C Q (fst x) c}
     \<and> 0 < unat (max_io_size (cfg (fst x))))"

lemma sys_invI:
  "srv_inv B C Q s \<Longrightarrow> R = {c. is_open C Q s c} \<Longrightarrow> 0 < unat (max_io_size (cfg s))
    \<Longrightarrow> sys_inv B C (s, R)"
  by (auto simp: sys_inv_def)

text \<open>
  The bytes that a step receives from and sends to the client of connection \<open>c\<close>, and what
  the step does to the sessions of the connections that are open before and after it.
\<close>

definition step_in :: "'w kernel \<Rightarrow> srv_label \<Rightarrow> 'w srv \<Rightarrow> nat \<Rightarrow> byte list" where
  "step_in k l s c = (if l = Request c then request_input k c s else [])"

definition step_out :: "'w kernel \<Rightarrow> srv_label \<Rightarrow> 'w srv \<Rightarrow> nat \<Rightarrow> byte list" where
  "step_out k l s c = (if l = Response c then response_output k c s else [])"

text \<open>A request was hashed and a reading of the clock failed.\<close>

definition reading_failed :: "'w clock \<Rightarrow> srv_label \<Rightarrow> 'w srv \<Rightarrow> bool" where
  "reading_failed clock l s' \<longleftrightarrow>
     (case l of Compute i \<Rightarrow> clock_failed clock (world s') | _ \<Rightarrow> False)"

definition serves ::
  "(byte list \<Rightarrow> byte list) \<Rightarrow> bool \<Rightarrow> 'w kernel \<Rightarrow> srv_label \<Rightarrow> nat set
    \<Rightarrow> (root_id \<rightharpoonup> node list) \<Rightarrow> 'w srv \<Rightarrow> (root_id \<rightharpoonup> node list) \<Rightarrow> 'w srv \<Rightarrow> bool" where
  "serves sha1 late k l C Q s Q' s' \<longleftrightarrow> (\<forall>c. is_open C Q s c \<longrightarrow> is_open C Q' s' c \<longrightarrow>
     session_step sha1 late (session_of Q s c) (step_in k l s c) (step_out k l s c)
       (session_of Q' s' c))"

lemma goes_serves:
  assumes "goes c C Q s Q' s'" and "srv_inv B C Q s"
    and "\<And>d. d \<noteq> c \<Longrightarrow> step_in k l s d = [] \<and> step_out k l s d = []"
    and "is_open C Q s c \<Longrightarrow> is_open C Q' s' c \<Longrightarrow>
      session_step sha1 late (session_of Q s c) (step_in k l s c) (step_out k l s c)
        (session_of Q' s' c)"
  shows "serves sha1 late k l C Q s Q' s'"
  unfolding serves_def
proof (intro allI impI)
  fix d
  assume d: "is_open C Q s d" "is_open C Q' s' d"
  show "session_step sha1 late (session_of Q s d) (step_in k l s d) (step_out k l s d)
    (session_of Q' s' d)"
  proof (cases "d = c")
    case False
    have "indices_ok s (conns s d)"
      using conns_okD(1) [OF srv_invD(9) [OF assms(2)]] d(1) by (simp add: is_open_def)
    then show ?thesis
      using goes_other [OF assms(1) False d(1)] assms(3) [OF False] by (simp add: session_step.quiet)
  qed (use assms(4) d in simp)
qed

text \<open>A step that goes keeps the invariant of the system.\<close>

lemma still_open_goes:
  assumes "goes c C Q s Q' s'" and "0 < unat (max_io_size (cfg s))"
  shows "still_open {d. is_open C Q s d} s' = {d. is_open C Q' s' d}"
    "0 < unat (max_io_size (cfg s'))"
  using goes_open [OF assms(1)] same_ctx_roots(1) [OF goes_ctx [OF assms(1)]] assms(2)
  by (auto simp: still_open_def)

text \<open>The first element the pool of connections gives.\<close>

lemma pool_get:
  assumes "srv_inv B C Q s" and "srv_get (empty_connections (queues s)) s = Inr (l, s0)"
  shows "l = Null \<Longrightarrow> Q (ecr s) = Some []"
    "l = Ptr (ConnQ c) \<Longrightarrow> \<exists>cs. Q (ecr s) = Some (ConnQ c # cs)"
proof -
  note I = srv_invD [OF assms(1)]
  from queues_okD(1) [OF I(5)] obtain ns where ns: "Q (ecr s) = Some ns" by blast
  from srv_get_law [OF I(3) ns] have "l = (case ns of [] \<Rightarrow> Null | n # _ \<Rightarrow> Ptr n)"
    using assms(2) ctx_ok_pools(1) [OF I(4)] by auto
  with ns show "l = Null \<Longrightarrow> Q (ecr s) = Some []"
    "l = Ptr (ConnQ c) \<Longrightarrow> \<exists>cs. Q (ecr s) = Some (ConnQ c # cs)"
    by (auto split: list.splits)
qed

text \<open>Tearing down leaves the connection closed, whatever its state.\<close>

lemma finish_closes:
  assumes "finish_connection n k c s = Inr (r, s')" and "conn_lock (conns s c) = 0"
  shows "closed (conns s' c) \<noteq> 0"
proof -
  have put: "conns s2 = conns s1" if "srv_put l p s1 = Inr s2" for l p and s1 s2 :: "'a srv"
    using that by (auto simp: srv_put_def bind_res_Inr_iff)
  from assms show ?thesis
    by (auto simp: finish_connection_def trylock_conn_def trylock_eq bind_res_Inr_iff split_beta
        Let_def unlock_conn_def put split: if_splits)
qed

subsection \<open>Every step keeps the invariant\<close>

lemma u32_fuel: "2 ^ 32 < n \<Longrightarrow> unat (x :: u32) < n"
  using unsigned_less [of x, where ?'a = nat] by simp

lemma finish_then_closed:
  assumes "srv_inv B C Q s" and "is_open C Q s c"
    and "bind_res (finish_connection n k c s) (\<lambda>(r, s). Inr (Some r, s)) = Inr (out, s')"
  shows "closed (conns s' c) \<noteq> 0"
proof -
  have "conn_lock (conns s c) = 0"
    using conns_okD(2) [OF srv_invD(9) [OF assms(1)]] assms(2) by (simp add: live_ok_def is_open_def)
  with assms(3) show ?thesis by (auto simp: bind_res_Inr_iff dest: finish_closes)
qed

lemma request_keeps:
  assumes inv: "srv_inv B C Q s" and op: "is_open C Q s c" and k: "recv_contract k"
    and n: "card B < n" and run: "handle_request_round n k c s = Inr (out, s')"
    and g: "closed (conns s' c) = 0 \<or> sendbuf (conns s c) = None"
  shows "\<exists>Q'. srv_inv B C Q' s' \<and> goes c C Q s Q' s' \<and> (is_open C Q' s' c \<longrightarrow>
    session_step sha1 late (session_of Q s c) (request_input k c s) [] (session_of Q' s' c))"
  using request_round_step [OF inv op k n, of sha1 late]
proof (elim disjE exE conjE)
  fix s1 Q1
  assume 1: "sendbuf (conns s c) \<noteq> None" "srv_inv B C Q1 s1" "is_open C Q1 s1 c"
    "handle_request_round n k c s = bind_res (finish_connection n k c s1) (\<lambda>(r, s). Inr (Some r, s))"
  with finish_then_closed [OF 1(2,3), of n k out s'] run g show ?thesis by simp
qed (use run in auto)

lemma response_keeps:
  assumes inv: "srv_inv B C Q s" and op: "is_open C Q s c" and k: "send_contract k"
    and io: "0 < unat (max_io_size (cfg s))" and run: "handle_response_round n k c s = Inr (out, s')"
    and g: "closed (conns s' c) = 0"
  shows "\<exists>Q'. srv_inv B C Q' s' \<and> goes c C Q s Q' s' \<and>
    session_step sha1 late (session_of Q s c) [] (response_output k c s) (session_of Q' s' c)"
  using response_round_step [OF inv op k io, of n sha1 late]
proof (elim disjE exE conjE)
  fix s1 Q1
  assume 1: "srv_inv B C Q1 s1" "is_open C Q1 s1 c"
    "handle_response_round n k c s = bind_res (finish_connection n k c s1) (\<lambda>(r, s). Inr (Some r, s))"
  with finish_then_closed [OF 1(1,2), of n k out s'] run g show ?thesis by simp
qed (use run in auto)

text \<open>
  The heart of the development: from a state with the invariant, any step of the server
  keeps the invariant, and is a step of the session of every open connection.
\<close>

lemma srv_step_sim:
  assumes "srv_step n k sha1 clock l (s, R) (s', R')" and env: "env_ok (card B) n k sha1 clock now"
    and inv: "srv_inv B C Q s" and R: "R = {c. is_open C Q s c}"
    and io: "0 < unat (max_io_size (cfg s))"
  shows "\<exists>Q'. srv_inv B C Q' s' \<and> R' = {c. is_open C Q' s' c} \<and> 0 < unat (max_io_size (cfg s'))
    \<and> serves sha1 (reading_failed clock l s') k l C Q s Q' s'"
proof -
  let ?late = "reading_failed clock l s'"
  have goal: ?thesis if "srv_inv B C Q' s'" "goes c C Q s Q' s'" "R' = still_open R s'"
    "\<And>d. d \<noteq> c \<Longrightarrow> step_in k l s d = [] \<and> step_out k l s d = []"
    "is_open C Q s c \<Longrightarrow> is_open C Q' s' c \<Longrightarrow>
      session_step sha1 ?late (session_of Q s c) (step_in k l s c) (step_out k l s c) (session_of Q' s' c)"
    for Q' c
    using that(1) still_open_goes [OF that(2) io] that(3) R goes_serves [OF that(2) inv that(4,5)]
    by blast
  have env': "recv_contract k" "send_contract k" "sha_length sha1" "clock_advances clock now"
    "card B < n" "2 ^ 32 < n" using env by (simp_all add: env_ok_def)
  from assms(1) show ?thesis
  proof (cases rule: srv_step_cases)
    case (compute i)
    from compute_worker_step [OF inv compute(3) env'(3,4) u32_fuel [OF env'(6)]] compute(4) obtain Q' c where
      "srv_inv B C Q' s'" "goes c C Q s Q' s'" "is_open C Q s c \<longrightarrow>
        session_step sha1 ?late (session_of Q s c) [] [] (session_of Q' s' c)"
      unfolding compute(1) reading_failed_def by auto
    with goal compute(1,2) show ?thesis by (auto simp: step_in_def step_out_def)
  next
    case (submit i err)
    from submitter_step [OF inv submit(3), of k] submit(4) obtain Q' c where
      "srv_inv B C Q' s'" "goes c C Q s Q' s'"
      "is_open C Q s c \<longrightarrow> session_of Q' s' c = session_of Q s c" by auto
    with goal submit(1,2) session_step.quiet show ?thesis by (auto simp: step_in_def step_out_def)
  next
    case (accept_idle s0 ret)
    from accept_step [OF inv, of k] pool_get(1) [OF inv accept_idle(3)] accept_idle(4) obtain Q' where
      "srv_inv B C Q' s'" "\<forall>c. goes c C Q s Q' s'" "\<forall>c. session_of Q' s' c = session_of Q s c" by auto
    with goal accept_idle(1,2) session_step.quiet show ?thesis by (auto simp: step_in_def step_out_def)
  next
    case (accept_new c s0 ret)
    from pool_get(2) [OF inv accept_new(3)] obtain cs where "Q (ecr s) = Some (ConnQ c # cs)" by blast
    with accept_step [OF inv, of k] accept_new(4-6) obtain Q' where
      Q': "srv_inv B C Q' s'" "same_ctx s s'" "\<forall>d. is_open C Q' s' d \<longleftrightarrow> d = c \<or> is_open C Q s d"
        "\<forall>d. is_open C Q s d \<longrightarrow> session_of Q' s' d = session_of Q s d" by auto
    then have "serves sha1 ?late k l C Q s Q' s'"
      using accept_new(1) session_step.quiet by (auto simp: serves_def step_in_def step_out_def)
    then show ?thesis
      using Q' io R accept_new(2) same_ctx_roots(1) [OF Q'(2)] by (intro exI [of _ Q']) auto
  next
    case (request c out)
    then have "is_open C Q s c" using R by simp
    from request_keeps [OF inv this env'(1,5) request(4,5), of sha1 ?late] obtain Q' where
      Q': "srv_inv B C Q' s'" "goes c C Q s Q' s'" "is_open C Q' s' c \<longrightarrow>
        session_step sha1 ?late (session_of Q s c) (request_input k c s) [] (session_of Q' s' c)"
      by blast
    show ?thesis
      by (rule goal [OF Q'(1,2) request(2)]) (use Q'(3) request(1) in \<open>simp_all add: step_in_def step_out_def\<close>)
  next
    case (response c out)
    then have "is_open C Q s c" using R by simp
    from response_keeps [OF inv this env'(2) io response(4,5), of sha1 ?late] goal response(1,2)
    show ?thesis by (auto simp: step_in_def step_out_def)
  next
    case (error c r)
    then have "is_open C Q s c" using R by simp
    from finish_step [OF inv this error(4) env'(5), of k] error(5) obtain Q' where
      Q': "srv_inv B C Q' s'" "goes c C Q s Q' s'" "closed (conns s' c) = 1" by auto
    then have "\<not> is_open C Q' s' c" by (simp add: is_open_def)
    then show ?thesis
      by (intro goal [OF Q'(1,2) error(2)]) (use error(1) in \<open>simp_all add: step_in_def step_out_def\<close>)
  qed
qed

text \<open>The session of a connection that has just been accepted is empty.\<close>

lemma srv_accept_session:
  assumes step: "srv_step n k sha1 clock Accept (s, R) (s', R')" and inv: "srv_inv B C Q s"
    and R: "R = {c. is_open C Q s c}" "c \<notin> R" "c \<in> R'"
    and io: "0 < unat (max_io_size (cfg s))"
  shows "\<exists>Q'. srv_inv B C Q' s' \<and> R' = {c. is_open C Q' s' c} \<and> 0 < unat (max_io_size (cfg s'))
    \<and> session_of Q' s' c = no_session"
  using step
proof (cases rule: srv_step_cases)
  case (accept_idle s0 ret)
  with R show ?thesis by (simp add: still_open_def)
next
  case (accept_new d s0 ret)
  with R have d: "d = c" by simp
  from pool_get(2) [OF inv accept_new(3)] obtain cs where "Q (ecr s) = Some (ConnQ d # cs)" by blast
  with accept_step [OF inv, of k] accept_new(4-6) obtain Q' where
    Q': "srv_inv B C Q' s'" "same_ctx s s'" "\<forall>e. is_open C Q' s' e \<longleftrightarrow> e = d \<or> is_open C Q s e"
      "session_of Q' s' d = no_session" by auto
  then show ?thesis
    using io R(1) d accept_new(2) same_ctx_roots(1) [OF Q'(2)] by (intro exI [of _ Q']) auto
qed simp_all

lemma srv_step_inv:
  assumes "srv_step n k sha1 clock l x y" and env: "env_ok (card B) n k sha1 clock now"
    and inv: "sys_inv B C x"
  shows "sys_inv B C y"
proof (cases x; cases y)
  fix s R s' R'
  assume x: "x = (s, R)" "y = (s', R')"
  with inv obtain Q where "srv_inv B C Q s" "R = {c. is_open C Q s c}" "0 < unat (max_io_size (cfg s))"
    by (auto simp: sys_inv_def)
  from srv_step_sim [OF assms(1) [unfolded x] env this] show "sys_inv B C y"
    by (auto simp: x sys_inv_def)
qed

lemma srv_run_inv:
  assumes "srv_run n k sha1 clock x ls y" and "env_ok (card B) n k sha1 clock now"
    and "sys_inv B C x"
  shows "sys_inv B C y"
  using assms(1,3) by (induction rule: srv_run.induct) (auto intro: srv_step_inv [OF _ assms(2)])

subsection \<open>The start\<close>

lemma srv_start_inv:
  assumes st: "srv_start bs cs s" and io: "0 < unat (max_io_size (cfg s))"
  shows "sys_inv (set bs) (set cs) (s, {})"
proof -
  let ?Q = "srv_queues0 bs cs s"
  have ctx: "ctx_ok s" and rep: "qrep (qh s) ?Q" using st by (simp_all add: srv_start_def)
  note p = ctx_ok_pools [OF ctx]
  have Q: "?Q (ecr s) = Some (map ConnQ cs)" "?Q (ebr s) = Some (map BufQ bs)"
    using p(3) by (simp_all add: srv_queues0_def)
  have inq: "inq ?Q r n \<longleftrightarrow> r = ecr s \<and> n \<in> ConnQ ` set cs \<or> r = ebr s \<and> n \<in> BufQ ` set bs" for r n
    using p(3) by (auto simp: inq_def srv_queues0_def split: if_splits)
  have live: "\<not> is_live (set cs) ?Q s c" for c using p(3) by (auto simp: is_live_def inq)
  then have no: "\<not> is_open (set cs) ?Q s c" for c by (simp add: is_open_def)
  have "at_place (set cs) ?Q s b q \<longleftrightarrow> b \<in> set bs \<and> q = InQueue (ebr s)" for b q
    by (cases q) (use no in \<open>auto simp: inq\<close>)
  then have "conserved (set bs) (set cs) ?Q s" by (auto simp: conserved_def)
  moreover have "queues_ok (set bs) (set cs) ?Q s"
    unfolding queues_ok_def inq
  proof (intro conjI allI impI)
    show "{ecr s, ebr s} \<union> inbox_roots s \<subseteq> dom ?Q" by (auto simp: srv_queues0_def)
  qed (use live p(3) p(6,7) [THEN not_sym] in auto)
  moreover have "inboxes_ok (set cs) ?Q s"
    using p(4,5) inbox_roots_mem [of _ s] by (fastforce simp: inboxes_ok_def inq)
  moreover have "bufs_ok (set bs) (set cs) ?Q s" "conns_ok (set cs) ?Q s"
    using st no live p(3) by (auto simp: bufs_ok_def conns_ok_def srv_start_def inq)
  moreover have "card (set bs) < 2 ^ 32"
    using st card_length [of bs] unfolding srv_start_def by linarith
  ultimately have "srv_inv (set bs) (set cs) ?Q s" using ctx rep by (simp add: srv_inv_def)
  then show ?thesis using no io by (intro sys_invI) auto
qed

definition srv_reach ::
  "nat \<Rightarrow> 'w kernel \<Rightarrow> (byte list \<Rightarrow> byte list) \<Rightarrow> 'w clock \<Rightarrow> nat list \<Rightarrow> nat list
    \<Rightarrow> 'w srv_sys \<Rightarrow> bool" where
  "srv_reach n k sha1 clock bs cs y \<longleftrightarrow> (\<exists>s ls. srv_start bs cs s
     \<and> 0 < unat (max_io_size (cfg s)) \<and> srv_run n k sha1 clock (s, {}) ls y)"

lemma srv_reach_inv:
  assumes "srv_reach n k sha1 clock bs cs (s, R)" and "env_ok (length bs) n k sha1 clock now"
  obtains Q where "srv_inv (set bs) (set cs) Q s" and "R = {c. is_open (set cs) Q s c}"
    and "0 < unat (max_io_size (cfg s))"
proof -
  from assms(1) obtain s0 ls where 0: "srv_start bs cs s0" "0 < unat (max_io_size (cfg s0))"
    "srv_run n k sha1 clock (s0, {}) ls (s, R)" by (auto simp: srv_reach_def)
  have "env_ok (card (set bs)) n k sha1 clock now"
    using assms(2) card_length [of bs] by (auto simp: env_ok_def)
  from srv_run_inv [OF 0(3) this srv_start_inv [OF 0(1,2)]] that show thesis
    by (auto simp: sys_inv_def)
qed

subsection \<open>The loops of the handlers\<close>

lemma request_loop:
  assumes k: "recv_contract k" and n: "card B < n"
  shows "srv_inv B C Q s \<Longrightarrow> is_open C Q s c \<Longrightarrow> sendbuf (conns s c) = None
    \<Longrightarrow> req_measure Q s c < m
    \<Longrightarrow> \<exists>s' Q'. loop_res m (handle_request_round n k c) s = Inr (0, s') \<and> srv_inv B C Q' s'
      \<and> goes c C Q s Q' s'"
proof (induction m arbitrary: s Q)
  case (Suc m)
  from request_round_step [OF Suc.prems(1,2) k n, where ?sha1.0 = id and late = False] Suc.prems(3) obtain out s1 Q1 where
    r: "handle_request_round n k c s = Inr (out, s1)" "srv_inv B C Q1 s1" "goes c C Q s Q1 s1"
    and go: "out = None \<longrightarrow> is_open C Q1 s1 c
      \<and> sendbuf (conns s1 c) = sendbuf (conns s c) \<and> req_measure Q1 s1 c < req_measure Q s c"
    and ret: "\<forall>r. out = Some r \<longrightarrow> r = 0" by auto
  show ?case
  proof (cases out)
    case None
    with go Suc.prems(3,4) have "is_open C Q1 s1 c" "sendbuf (conns s1 c) = None"
      "req_measure Q1 s1 c < m" by auto
    from Suc.IH [OF r(2) this] r None goes_trans [OF r(3)] show ?thesis by auto
  next
    case (Some v)
    with r ret show ?thesis by auto
  qed
qed simp

lemma response_loop:
  assumes k: "send_contract k"
  shows "srv_inv B C Q s \<Longrightarrow> is_open C Q s c \<Longrightarrow> 0 < unat (max_io_size (cfg s))
    \<Longrightarrow> res_measure Q s c < m
    \<Longrightarrow> (\<exists>r s' Q'. loop_res m (handle_response_round n k c) s = Inr (r, s') \<and> srv_inv B C Q' s'
        \<and> goes c C Q s Q' s' \<and> is_open C Q' s' c)
      \<or> (\<exists>s' Q'. srv_inv B C Q' s' \<and> is_open C Q' s' c \<and> sendbuf (conns s' c) \<noteq> None
        \<and> loop_res m (handle_response_round n k c) s = finish_connection n k c s')"
proof (induction m arbitrary: s Q)
  case (Suc m)
  from response_round_step [OF Suc.prems(1,2) k Suc.prems(3), of n id False] show ?case
  proof (elim disjE exE conjE)
    fix out s1 Q1
    assume r: "handle_response_round n k c s = Inr (out, s1)" "srv_inv B C Q1 s1"
      "goes c C Q s Q1 s1" "is_open C Q1 s1 c" "out = None \<longrightarrow> res_measure Q1 s1 c < res_measure Q s c"
    show ?thesis
    proof (cases out)
      case None
      have io: "0 < unat (max_io_size (cfg s1))"
        using Suc.prems(3) same_ctx_roots(1) [OF goes_ctx [OF r(3)]] by simp
      have "res_measure Q1 s1 c < m" using r(5) None Suc.prems(4) by simp
      from Suc.IH [OF r(2,4) io this] show ?thesis
      proof (elim disjE exE conjE)
        fix v s' Q'
        assume "loop_res m (handle_response_round n k c) s1 = Inr (v, s')" "srv_inv B C Q' s'"
          "goes c C Q1 s1 Q' s'" "is_open C Q' s' c"
        with r(1) None goes_trans [OF r(3)] show ?thesis by auto
      next
        fix s' Q'
        assume 1: "srv_inv B C Q' s'" "is_open C Q' s' c" "sendbuf (conns s' c) \<noteq> None"
          and l: "loop_res m (handle_response_round n k c) s1 = finish_connection n k c s'"
        have "loop_res (Suc m) (handle_response_round n k c) s = finish_connection n k c s'"
          using r(1) None l by simp
        with 1 show ?thesis by blast
      qed
    next
      case (Some v)
      with r show ?thesis by auto
    qed
  next
    fix s1 Q1
    assume 1: "srv_inv B C Q1 s1" "is_open C Q1 s1 c" "sendbuf (conns s1 c) \<noteq> None"
      and h: "handle_response_round n k c s =
        bind_res (finish_connection n k c s1) (\<lambda>(r, s). Inr (Some r, s))"
    have "loop_res (Suc m) (handle_response_round n k c) s = finish_connection n k c s1"
      by (cases "finish_connection n k c s1") (auto simp: h)
    with 1 show ?thesis by blast
  qed
qed simp

lemma measure_bounds:
  assumes inv: "srv_inv B C Q s" and op: "is_open C Q s c"
  shows "req_measure Q s c \<le> 1025 * card B + 1024" "res_measure Q s c \<le> 25 * card B + 24"
proof -
  have core: "srv_core B C Q s" using inv by (simp add: srv_inv_core)
  note I = srv_coreD [OF core]
  from queues_okD(2) [OF I(5)] queues_okD(4) [OF I(5), of c] op obtain es ns where
    Q: "Q (ebr s) = Some es" "Q (RSend c) = Some ns" by (auto simp: is_open_def)
  have l: "length es \<le> card B" "length ns \<le> card B"
    using queue_length [OF core Q(1)] ctx_ok_pools(3) [OF I(4)] sendq_length [OF core Q(2)] by auto
  have "unat (left (bufs s b)) \<le> 1024" if "recvbuf (conns s c) = Some b" for b
    using I(8) op that by (auto simp: bufs_ok_def recv_ok_def)
  then show "req_measure Q s c \<le> 1025 * card B + 1024"
    using l(1) Q(1) by (auto simp: req_measure_def split: option.splits intro: add_mono)
  have "unat (left (bufs s b)) \<le> 24" if "sendbuf (conns s c) = Some b" for b
    using I(8) op that by (auto simp: bufs_ok_def send_ok_def)
  then show "res_measure Q s c \<le> 25 * card B + 24"
    using l(2) Q(2) by (auto simp: res_measure_def split: option.splits intro: add_mono)
qed

end
