(* ===== verification/Server_Props.thy ===== *)
theory Server_Props
  imports Server
begin

section \<open>What every reachable state of the server satisfies\<close>

text \<open>
  The properties of the server that span its workers, each for every state that any
  sequence of steps reaches from the start, and a small instance on which they are tried.
\<close>

subsection \<open>A small server\<close>

text \<open>Two buffers, one connection, one thread of each kind.\<close>

definition demo_cfg :: server_config_t where
  "demo_cfg = \<lparr>socket_path = [], compute_dur = 0, max_io_size = 1024, readahead = 3,
     threads_io = 1, threads_accept = 1, threads_submit = 1, threads_compute = 1,
     alloc_sessions = 1, alloc_buffers = 2, kerncall_global = 0, kerncall_io = 0,
     kerncall_accept = 0, kerncall_submit = 0\<rparr>"

definition demo_conn :: server_connection_t where
  "demo_conn = \<lparr>fd = 0, closed = 0, ioidx = 0, submitidx = 0, computeidx = 0, epoll_fd = 0,
     epoll_state = 0, recvbuf = None, sendbuf = None, received = 0, processed = 0, sent = 0,
     conn_lock = 0\<rparr>"

definition demo_heap :: qheap where
  "demo_heap = fold init_queue_root (map RHeap [0, 1, 2, 3]) empty_heap"

definition demo_filled :: "qheap res" where
  "demo_filled = fold (\<lambda>n m. bind_res m (queue_put (Ptr n) (RHeap 1))) [BufQ 0, BufQ 1]
     (fold (\<lambda>n m. bind_res m (queue_put (Ptr n) (RHeap 0))) [ConnQ 0] (Inr demo_heap))"

definition demo_srv :: "qheap \<Rightarrow> nat srv" where
  "demo_srv h = \<lparr>cfg = demo_cfg,
     queues = \<lparr>empty_connections = Some (RHeap 0), empty_buffers = Some (RHeap 1),
       compute_inbox = [Some (RHeap 2)], submitter_inbox = [Some (RHeap 3)]\<rparr>,
     io = \<lparr>listen_fd = 3, nr_io = 1, epoll_fds = [4], next_session = 0\<rparr>, stopping = 0,
     qh = h, conns = (\<lambda>_. demo_conn),
     bufs = (\<lambda>_. \<lparr>msg = replicate 1048 0, conn = None, left = 0, ptr = 0\<rparr>), errno = 0, world = 0\<rparr>"

text \<open>A kernel that accepts every connection and has no data.\<close>

definition demo_kernel :: "nat kernel" where
  "demo_kernel =
     (let f = (\<lambda>req w. (\<lparr>sr_ret = (case req of SysAccept a b \<Rightarrow> 7 | SysRecvfrom a n b \<Rightarrow> - EAGAIN
                                 | SysSendto a bs b \<Rightarrow> int (length bs) | _ \<Rightarrow> 0),
                        sr_bytes = [], sr_events = []\<rparr>, w))
      in \<lparr>k_syscall = f, k_gate = f, k_cs = (\<lambda>_. 3)\<rparr>)"

abbreviation demo_sha :: "byte list \<Rightarrow> byte list" where
  "demo_sha \<equiv> (\<lambda>_. replicate 20 9)"

abbreviation demo_fuel :: nat where
  "demo_fuel \<equiv> 5000000000"

lemma demo_env:
  "env_ok 2 demo_fuel demo_kernel demo_sha tick_clock (\<lambda>w. int w * 1000000000 + 5)"
  by (simp add: env_ok_def recv_contract_def send_contract_def sha_length_def tick_clock_advances
      demo_kernel_def enter_def EAGAIN_def Let_def)

lemma demo_env2:
  "env_ok (length [0 :: nat, 1]) demo_fuel demo_kernel demo_sha tick_clock
     (\<lambda>w. int w * 1000000000 + 5)"
  using demo_env by (simp add: numeral_2_eq_2)

lemma demo_heap_rep: "qrep demo_heap [RHeap 0 \<mapsto> [], RHeap 1 \<mapsto> [], RHeap 2 \<mapsto> [], RHeap 3 \<mapsto> []]"
  using dq.init_law [OF dq.init_law [OF dq.init_law [OF dq.init_law [OF qrep_empty_heap]]]]
  by (simp add: demo_heap_def)

lemma demo_filled_rep:
  "\<exists>h. demo_filled = Inr h \<and> qrep h
     [RHeap 0 \<mapsto> [ConnQ 0], RHeap 1 \<mapsto> [BufQ 0, BufQ 1], RHeap 2 \<mapsto> [], RHeap 3 \<mapsto> []]"
proof -
  let ?Q = "[RHeap 0 \<mapsto> [], RHeap 1 \<mapsto> [], RHeap 2 \<mapsto> [], RHeap 3 \<mapsto> []]"
  have "\<exists>h. fold (\<lambda>n m. bind_res m (queue_put (Ptr n) (RHeap 0))) [ConnQ 0] (Inr demo_heap) = Inr h
      \<and> qrep h (?Q(RHeap 0 \<mapsto> [] @ [ConnQ 0]))"
    by (rule dq.put_all [OF demo_heap_rep]) (simp_all add: unqueued_def)
  then obtain h1 where
    h1: "fold (\<lambda>n m. bind_res m (queue_put (Ptr n) (RHeap 0))) [ConnQ 0] (Inr demo_heap) = Inr h1"
    and r1: "qrep h1 (?Q(RHeap 0 \<mapsto> [] @ [ConnQ 0]))" by blast
  have "\<exists>h. fold (\<lambda>n m. bind_res m (queue_put (Ptr n) (RHeap 1))) [BufQ 0, BufQ 1] (Inr h1) = Inr h
      \<and> qrep h (?Q(RHeap 0 \<mapsto> [] @ [ConnQ 0], RHeap 1 \<mapsto> [] @ [BufQ 0, BufQ 1]))"
    by (rule dq.put_all [OF r1]) (simp_all add: unqueued_def)
  moreover have "?Q(RHeap 0 \<mapsto> [] @ [ConnQ 0], RHeap 1 \<mapsto> [] @ [BufQ 0, BufQ 1]) =
     [RHeap 0 \<mapsto> [ConnQ 0], RHeap 1 \<mapsto> [BufQ 0, BufQ 1], RHeap 2 \<mapsto> [], RHeap 3 \<mapsto> []]"
    by (simp add: fun_eq_iff)
  ultimately show ?thesis using h1 unfolding demo_filled_def by simp
qed

lemma demo_start:
  assumes "qrep h [RHeap 0 \<mapsto> [ConnQ 0], RHeap 1 \<mapsto> [BufQ 0, BufQ 1], RHeap 2 \<mapsto> [], RHeap 3 \<mapsto> []]"
  shows "srv_start [0, 1] [0] (demo_srv h)"
proof -
  have roots: "inbox_roots (demo_srv h) = {RHeap 2, RHeap 3}"
    by (auto simp: inbox_roots_def demo_srv_def demo_cfg_def cir_def sir_def)
  have "ctx_ok (demo_srv h)"
    unfolding ctx_ok_def roots
    by (simp add: demo_srv_def demo_cfg_def cir_def sir_def) (auto simp: inj_on_def)
  moreover have "srv_queues0 [0, 1] [0] (demo_srv h) =
      [RHeap 0 \<mapsto> [ConnQ 0], RHeap 1 \<mapsto> [BufQ 0, BufQ 1], RHeap 2 \<mapsto> [], RHeap 3 \<mapsto> []]"
    unfolding srv_queues0_def roots by (auto simp: fun_eq_iff demo_srv_def)
  ultimately show ?thesis
    using assms by (simp add: srv_start_def) (simp add: demo_srv_def demo_conn_def)
qed

text \<open>A state in which connection 0 has been accepted.\<close>

lemma demo_reach:
  "\<exists>s. srv_reach demo_fuel demo_kernel demo_sha tick_clock [0, 1] [0] (s, {0}) \<and> cfg s = demo_cfg"
proof -
  from demo_filled_rep obtain h where
    h: "qrep h [RHeap 0 \<mapsto> [ConnQ 0], RHeap 1 \<mapsto> [BufQ 0, BufQ 1], RHeap 2 \<mapsto> [], RHeap 3 \<mapsto> []]"
    by blast
  let ?s = "demo_srv h"
  have io: "0 < unat (max_io_size (cfg ?s))" by (simp add: demo_srv_def demo_cfg_def)
  have cfg: "cfg ?s = demo_cfg" by (simp add: demo_srv_def)
  have q: "empty_connections (queues ?s) = Some (RHeap 0)" "ecr ?s = RHeap 0" "qh ?s = h"
    by (simp_all add: demo_srv_def)
  have nx: "next_session (io ?s) \<noteq> 2 ^ 31 - 1" by (simp add: demo_srv_def)
  have acc: "accepts demo_kernel ?s"
    by (simp add: accepts_def Z_accept4_def Z_syscall_enter enter_def demo_kernel_def Let_def
        SYSCALL_RETURN_def)
  from srv_start_inv [OF demo_start [OF h] io] obtain Q where Q: "srv_inv {0, 1} {0} Q ?s"
    by (auto simp: sys_inv_def)
  from srv_get_first [of ?s, OF _ , of _ "RHeap 0" "ConnQ 0" "[]"] h q(3) obtain h' where
    g: "srv_get (Some (RHeap 0)) ?s = Inr (Ptr (ConnQ 0), ?s\<lparr>qh := h'\<rparr>)" by fastforce
  from accept_step [OF Q nx, of demo_kernel] obtain ret s' where
    a: "handle_accept demo_kernel ?s = Inr (ret, s')" "same_ctx ?s s'" by blast
  have "srv_step demo_fuel demo_kernel demo_sha tick_clock Accept (?s, {}) (s', insert 0 {})"
    by (rule srv_step.accept_new [OF _ acc nx a(1)]) (simp add: q(1) g)
  then have "srv_run demo_fuel demo_kernel demo_sha tick_clock (?s, {}) [Accept] (s', {0})"
    by (auto intro: srv_run.intros)
  with demo_start [OF h] io a(2) cfg show ?thesis
    unfolding srv_reach_def by (intro exI [of _ s']) (auto simp: same_ctx_def)
qed

subsection \<open>Properties\<close>

text \<open>Where a buffer is, with the registered connections instead of the open ones.\<close>

fun buffer_at ::
  "(root_id \<rightharpoonup> node list) \<Rightarrow> 'w srv \<Rightarrow> nat set \<Rightarrow> nat \<Rightarrow> place \<Rightarrow> bool" where
  "buffer_at Q s R b (InQueue r) \<longleftrightarrow> inq Q r (BufQ b)"
| "buffer_at Q s R b (AsRecv c) \<longleftrightarrow> c \<in> R \<and> recvbuf (conns s c) = Some b"
| "buffer_at Q s R b (AsSend c) \<longleftrightarrow> c \<in> R \<and> sendbuf (conns s c) = Some b"

lemma buffer_at_place: "buffer_at Q s {c. is_open C Q s c} b p = at_place C Q s b p"
  by (cases p) auto















end
