(* ===== verification/Server_Demo.thy ===== *)
theory Server_Demo
  imports Server_Props
begin

section \<open>A small run of the server\<close>

text \<open>
  The server of theory \<open>Server_Props\<close> with a kernel that has data: a client sends one
  request and reads the response. Each round is evaluated on the state the one before
  leaves; the properties of the following theories are tried on the states in between.
\<close>

text \<open>
  A kernel that fills every receive with sevens and sends at most \<open>cap\<close> bytes at a time,
  until the first send: then the client is gone, and both calls fail.
\<close>

definition echo_kernel :: "nat \<Rightarrow> nat kernel" where
  "echo_kernel cap =
     (let f = (\<lambda>req w. (case req of
            SysAccept a b \<Rightarrow> \<lparr>sr_ret = 7, sr_bytes = [], sr_events = []\<rparr>
          | SysRecvfrom a m b \<Rightarrow>
              if w < 50 then \<lparr>sr_ret = int m, sr_bytes = replicate m 7, sr_events = []\<rparr>
              else \<lparr>sr_ret = -9, sr_bytes = [], sr_events = []\<rparr>
          | SysSendto a bs b \<Rightarrow>
              \<lparr>sr_ret = (if w < 50 then int (min cap (length bs)) else -32), sr_bytes = [], sr_events = []\<rparr>
          | _ \<Rightarrow> \<lparr>sr_ret = 0, sr_bytes = [], sr_events = []\<rparr>,
          case req of SysSendto a bs b \<Rightarrow> w + 50 | _ \<Rightarrow> w))
      in \<lparr>k_syscall = f, k_gate = f, k_cs = (\<lambda>_. 3)\<rparr>)"

lemma echo_calls [simp]:
  "enter (echo_kernel cap) (SysAccept a b) w = (\<lparr>sr_ret = 7, sr_bytes = [], sr_events = []\<rparr>, w)"
  "w < 50 \<Longrightarrow> enter (echo_kernel cap) (SysRecvfrom a m b) w =
     (\<lparr>sr_ret = int m, sr_bytes = replicate m 7, sr_events = []\<rparr>, w)"
  "50 \<le> w \<Longrightarrow> enter (echo_kernel cap) (SysRecvfrom a m b) w =
     (\<lparr>sr_ret = -9, sr_bytes = [], sr_events = []\<rparr>, w)"
  "w < 50 \<Longrightarrow> enter (echo_kernel cap) (SysSendto a bs b) w =
     (\<lparr>sr_ret = int (min cap (length bs)), sr_bytes = [], sr_events = []\<rparr>, w + 50)"
  "50 \<le> w \<Longrightarrow> enter (echo_kernel cap) (SysSendto a bs b) w =
     (\<lparr>sr_ret = -32, sr_bytes = [], sr_events = []\<rparr>, w + 50)"
  "enter (echo_kernel cap) (SysClose a) w = (\<lparr>sr_ret = 0, sr_bytes = [], sr_events = []\<rparr>, w)"
  "enter (echo_kernel cap) (SysEpollCtl a1 a2 a3 ev) w = (\<lparr>sr_ret = 0, sr_bytes = [], sr_events = []\<rparr>, w)"
  by (simp_all add: echo_kernel_def enter_def Let_def)

lemma echo_env:
  "env_ok 2 demo_fuel (echo_kernel cap) demo_sha tick_clock (\<lambda>w. int w * 1000000000 + 5)"
proof -
  have "recv_contract (echo_kernel cap)" "send_contract (echo_kernel cap)"
    by (auto simp: recv_contract_def send_contract_def echo_kernel_def enter_def Let_def)
  then show ?thesis by (simp add: env_ok_def sha_length_def tick_clock_advances)
qed

lemma echo_env2:
  "env_ok (length [0 :: nat, 1]) demo_fuel (echo_kernel cap) demo_sha tick_clock
     (\<lambda>w. int w * 1000000000 + 5)"
  using echo_env by (simp add: numeral_2_eq_2)

text \<open>The states of the run: the heap, the session counter, connection 0, buffer 0, the world.\<close>

definition demo_at ::
  "qheap \<Rightarrow> int \<Rightarrow> server_connection_t \<Rightarrow> server_buffer_t \<Rightarrow> nat \<Rightarrow> nat srv" where
  "demo_at h nx cn bf w = (demo_srv h)\<lparr>io := (io (demo_srv h))\<lparr>next_session := nx\<rparr>,
     conns := (\<lambda>_. demo_conn)(0 := cn), bufs := (bufs (demo_srv h))(0 := bf), world := w\<rparr>"

lemma demo_at_sel [simp]:
  "cfg (demo_at h nx cn bf w) = demo_cfg"
  "queues (demo_at h nx cn bf w) = \<lparr>empty_connections = Some (RHeap 0), empty_buffers = Some (RHeap 1),
       compute_inbox = [Some (RHeap 2)], submitter_inbox = [Some (RHeap 3)]\<rparr>"
  "io (demo_at h nx cn bf w) = \<lparr>listen_fd = 3, nr_io = 1, epoll_fds = [4], next_session = nx\<rparr>"
  "qh (demo_at h nx cn bf w) = h" "conns (demo_at h nx cn bf w) 0 = cn"
  "bufs (demo_at h nx cn bf w) 0 = bf" "errno (demo_at h nx cn bf w) = 0"
  "world (demo_at h nx cn bf w) = w"
  by (simp_all add: demo_at_def demo_srv_def)

lemma demo_at_upd [simp]:
  "(demo_at h nx cn bf w)\<lparr>qh := h'\<rparr> = demo_at h' nx cn bf w"
  "(demo_at h nx cn bf w)\<lparr>world := w'\<rparr> = demo_at h nx cn bf w'"
  "(demo_at h nx cn bf w)\<lparr>errno := 0\<rparr> = demo_at h nx cn bf w"
  "(demo_at h nx cn bf w)\<lparr>errno := 0, world := w\<rparr> = demo_at h nx cn bf w"
  "(demo_at h nx cn bf w)\<lparr>io := \<lparr>listen_fd = 3, nr_io = 1, epoll_fds = [4], next_session = nx'\<rparr>\<rparr>
     = demo_at h nx' cn bf w"
  "upd_conn 0 f (demo_at h nx cn bf w) = demo_at h nx (f cn) bf w"
  "upd_buf 0 g (demo_at h nx cn bf w) = demo_at h nx cn (g bf) w"
  by (simp_all add: demo_at_def demo_srv_def upd_conn_def upd_buf_def)

lemma demo_cfg_sel [simp]:
  "threads_submit demo_cfg = 1" "threads_compute demo_cfg = 1" "readahead demo_cfg = 3"
  "max_io_size demo_cfg = 1024" "compute_dur demo_cfg = 0"
  by (simp_all add: demo_cfg_def)

lemma demo_srv_at: "demo_srv h = demo_at h 0 demo_conn (bufs (demo_srv h) 0) 0"
  by (simp add: demo_at_def demo_srv_def fun_eq_iff)

abbreviation demo_q :: "node list \<Rightarrow> node list \<Rightarrow> node list \<Rightarrow> node list \<Rightarrow> root_id \<rightharpoonup> node list" where
  "demo_q cs es ci si \<equiv> [RHeap 0 \<mapsto> cs, RHeap 1 \<mapsto> es, RHeap 2 \<mapsto> ci, RHeap 3 \<mapsto> si]"

text \<open>The accept.\<close>

definition conn_new :: server_connection_t where
  "conn_new = demo_conn\<lparr>fd := 7, epoll_fd := 4, epoll_state := EPOLLIN\<rparr>"

lemma demo_accept:
  assumes "qrep h (demo_q [ConnQ 0] es [] [])"
  obtains h' h1 where "handle_accept (echo_kernel cap) (demo_at h 0 demo_conn bf w)
      = Inr (0, demo_at h' 1 conn_new bf w)"
    and "qrep h' ((demo_q [] es [] [])(RSend 0 \<mapsto> []))"
    and "srv_get (Some (RHeap 0)) (demo_at h 0 demo_conn bf w) = Inr (Ptr (ConnQ 0), demo_at h1 0 demo_conn bf w)"
proof -
  let ?s = "demo_at h 0 demo_conn bf w"
  have "qrep (qh ?s) (demo_q [ConnQ 0] es [] [])" using assms by simp
  from srv_get_first [OF this, of "RHeap 0"] obtain h1 where
    g: "srv_get (Some (RHeap 0)) ?s = Inr (Ptr (ConnQ 0), demo_at h1 0 demo_conn bf w)"
    and r: "qrep h1 (demo_q [] es [] [])" by (auto simp: fun_upd_twist)
  have "handle_accept (echo_kernel cap) ?s = Inr (0, demo_at (init_queue_root (RSend 0) h1) 1 conn_new bf w)"
    using g by (simp add: handle_accept_def sys_def Z_accept4_def Z_epoll_ctl_def Z_syscall_enter
        SYSCALL_RETURN_def assign_threads_def index_res_def epoll_set_conn_state_def Let_def
        conn_new_def demo_conn_def linux_consts lock_init_def)
  with dq.init_law [OF r] g that show thesis by blast
qed

text \<open>One round that receives a whole request and hands it to the compute thread.\<close>

definition conn_recvd :: server_connection_t where
  "conn_recvd = conn_new\<lparr>received := 1\<rparr>"

lemma demo_request:
  assumes "qrep h ((demo_q [] (BufQ 0 # es) [] [])(RSend 0 \<mapsto> []))" and "length (msg bf) = 1048" and w: "w < 50"
  obtains h' bf' where "handle_request_round n (echo_kernel cap) 0 (demo_at h 1 conn_new bf w)
      = Inr (None, demo_at h' 1 conn_recvd bf' w)"
    and "request_input (echo_kernel cap) 0 (demo_at h 1 conn_new bf w) = replicate 1024 7"
    and "qrep h' ((demo_q [] es [BufQ 0] [])(RSend 0 \<mapsto> []))" and "length (msg bf') = 1048"
    and "conn bf' = Some 0"
proof -
  let ?s = "demo_at h 1 conn_new bf w" and ?Q = "(demo_q [] (BufQ 0 # es) [] [])(RSend 0 \<mapsto> [])"
  have "qrep (qh ?s) ?Q" using assms(1) by simp
  from srv_get_first [OF this, of "RHeap 1"] obtain h1 where
    g: "srv_get (Some (RHeap 1)) ?s = Inr (Ptr (BufQ 0), demo_at h1 1 conn_new bf w)"
    and r: "qrep h1 (?Q(RHeap 1 \<mapsto> es))" by auto
  define bf1 where "bf1 = bf\<lparr>conn := Some 0, left := 1024, ptr := 0\<rparr>"
  define bf2 where "bf2 = bf1\<lparr>msg := replicate 1024 7 @ drop 1024 (msg bf), left := 0, ptr := 1024\<rparr>"
  have rb: "request_buffer 0 ?s = Inr (Some 0, demo_at h1 1 (conn_new\<lparr>recvbuf := Some 0\<rparr>) bf1 w)"
    using g by (simp add: request_buffer_def Let_def conn_new_def demo_conn_def bf1_def)
  have unq: "unqueued (BufQ 0) (?Q(RHeap 1 \<mapsto> es))"
    by (rule unqueued_taken [OF assms(1)]) simp
  let ?s2 = "demo_at h1 1 (conn_recvd\<lparr>conn_lock := 1\<rparr>) bf2 w"
  have "qrep (qh ?s2) (?Q(RHeap 1 \<mapsto> es))" using r by simp
  from srv_put_law [OF this _ unq, of "RHeap 2" "[]"] obtain h2 where
    p: "srv_put (Ptr (BufQ 0)) (Some (RHeap 2)) ?s2 = Inr (demo_at h2 1 (conn_recvd\<lparr>conn_lock := 1\<rparr>) bf2 w)"
    and r2: "qrep h2 (?Q(RHeap 1 \<mapsto> es, RHeap 2 \<mapsto> [BufQ 0]))" by auto
  have Q: "?Q(RHeap 1 \<mapsto> es, RHeap 2 \<mapsto> [BufQ 0]) = (demo_q [] es [BufQ 0] [])(RSend 0 \<mapsto> [])"
    by (simp add: fun_eq_iff)
  have sz: "min_size 1024 1024 = (1024 :: u64)" by (simp add: min_size_def)
  have "handle_request_round n (echo_kernel cap) 0 ?s = Inr (None, demo_at h2 1 conn_recvd bf2 w)"
    using rb p assms(2) w
    by (simp add: handle_request_round_def recv_into_def sys_def Z_recv_def Z_syscall_enter
        SYSCALL_RETURN_def Let_def bf1_def sz store_bytes_def request_complete_def lock_conn_def
        lock_eq index_res_def unlock_conn_def unlock_def bf2_def conn_recvd_def conn_new_def demo_conn_def)
  moreover have "request_input (echo_kernel cap) 0 ?s = replicate 1024 7"
    using rb w by (simp add: request_input_def sys_def Z_recv_def Z_syscall_enter SYSCALL_RETURN_def
        bf1_def sz Let_def)
  moreover have "length (msg bf2) = 1048" "conn bf2 = Some 0" using assms(2) by (simp_all add: bf2_def bf1_def)
  ultimately show thesis using r2 that unfolding Q by blast
qed

text \<open>The digest: two readings of the clock, since the configured time is 0.\<close>

lemma demo_compute:
  assumes "qrep h ((demo_q [] es [BufQ 0] [])(RSend 0 \<mapsto> []))" and "length (msg bf) = 1048"
    and "conn bf = Some 0"
  obtains h' bf' where "compute_worker_round demo_fuel demo_sha tick_clock 0 (demo_at h 1 conn_recvd bf 0)
      = Inr (demo_at h' 1 conn_recvd bf' 2)"
    and "qrep h' ((demo_q [] es [] [BufQ 0])(RSend 0 \<mapsto> []))" and "length (msg bf') = 1048"
    and "conn bf' = Some 0"
proof -
  let ?s = "demo_at h 1 conn_recvd bf 0" and ?Q = "(demo_q [] es [BufQ 0] [])(RSend 0 \<mapsto> [])"
  have "qrep (qh ?s) ?Q" using assms(1) by simp
  from srv_get_first [OF this, of "RHeap 2" "BufQ 0" "[]"] obtain h1 where
    g: "srv_get (Some (RHeap 2)) ?s = Inr (Ptr (BufQ 0), demo_at h1 1 conn_recvd bf 0)"
    and r: "qrep h1 (?Q(RHeap 2 \<mapsto> []))" by auto
  define m where "m = take 1024 (msg bf) @ req_id (msg bf) @ replicate 20 9"
  have ids: "take 4 (take 1028 (msg bf) @ replicate 20 9) = req_id (msg bf)"
    using assms(2) by (simp add: req_id_def)
  have c: "compute_request demo_fuel demo_sha tick_clock 0 (msg bf) 0 = Inr (m, 2)"
    using assms(2) ids
    by (simp add: compute_request_def tick_clock_def loop_res_numeral compute_round_def store_bytes_def
        req_id_def m_def as_nanoseconds_def)
  define bf1 where "bf1 = bf\<lparr>msg := m\<rparr>"
  have unq: "unqueued (BufQ 0) (?Q(RHeap 2 \<mapsto> []))" by (rule unqueued_taken [OF assms(1)]) simp
  let ?s2 = "demo_at h1 1 conn_recvd bf1 2"
  have "qrep (qh ?s2) (?Q(RHeap 2 \<mapsto> []))" using r by simp
  from srv_put_law [OF this _ unq, of "RHeap 3" "[]"] obtain h2 where
    p: "srv_put (Ptr (BufQ 0)) (Some (RHeap 3)) ?s2 = Inr (demo_at h2 1 conn_recvd bf1 2)"
    and r2: "qrep h2 (?Q(RHeap 2 \<mapsto> [], RHeap 3 \<mapsto> [BufQ 0]))" by auto
  have Q: "?Q(RHeap 2 \<mapsto> [], RHeap 3 \<mapsto> [BufQ 0]) = (demo_q [] es [] [BufQ 0])(RSend 0 \<mapsto> [])"
    by (simp add: fun_eq_iff)
  have "compute_worker_round demo_fuel demo_sha tick_clock 0 ?s = Inr (demo_at h2 1 conn_recvd bf1 2)"
    using g p c assms(3)
    by (simp add: compute_worker_round_def index_res_def Let_def bf1_def conn_recvd_def conn_new_def demo_conn_def)
  moreover have "length (msg bf1) = 1048" "conn bf1 = Some 0"
    using assms(2,3) by (simp_all add: bf1_def m_def req_id_def)
  ultimately show thesis using r2 that unfolding Q by blast
qed

text \<open>The submit worker links the response into the send queue.\<close>

definition conn_ready :: server_connection_t where
  "conn_ready = conn_recvd\<lparr>processed := 1, epoll_state := EPOLLIN OR EPOLLOUT\<rparr>"

lemma demo_submit:
  assumes "qrep h ((demo_q [] es [] [BufQ 0])(RSend 0 \<mapsto> []))" and "conn bf = Some 0"
  obtains h' where "submitter_round (echo_kernel cap) 0 (demo_at h 1 conn_recvd bf w)
      = Inr (0, demo_at h' 1 conn_ready bf w)"
    and "qrep h' ((demo_q [] es [] [])(RSend 0 \<mapsto> [BufQ 0]))"
proof -
  let ?s = "demo_at h 1 conn_recvd bf w" and ?Q = "(demo_q [] es [] [BufQ 0])(RSend 0 \<mapsto> [])"
  have "qrep (qh ?s) ?Q" using assms(1) by simp
  from srv_get_first [OF this, of "RHeap 3" "BufQ 0" "[]"] obtain h1 where
    g: "srv_get (Some (RHeap 3)) ?s = Inr (Ptr (BufQ 0), demo_at h1 1 conn_recvd bf w)"
    and r: "qrep h1 (?Q(RHeap 3 \<mapsto> []))" by auto
  have unq: "unqueued (BufQ 0) (?Q(RHeap 3 \<mapsto> []))" by (rule unqueued_taken [OF assms(1)]) simp
  let ?s2 = "demo_at h1 1 (conn_recvd\<lparr>conn_lock := 1, processed := 1\<rparr>) bf w"
  have "qrep (qh ?s2) (?Q(RHeap 3 \<mapsto> []))" using r by simp
  from srv_put_law [OF this _ unq, of "RSend 0" "[]"] obtain h2 where
    p: "srv_put (Ptr (BufQ 0)) (Some (RSend 0)) ?s2
      = Inr (demo_at h2 1 (conn_recvd\<lparr>conn_lock := 1, processed := 1\<rparr>) bf w)"
    and r2: "qrep h2 (?Q(RHeap 3 \<mapsto> [], RSend 0 \<mapsto> [BufQ 0]))" by auto
  have Q: "?Q(RHeap 3 \<mapsto> [], RSend 0 \<mapsto> [BufQ 0]) = (demo_q [] es [] [])(RSend 0 \<mapsto> [BufQ 0])"
    by (simp add: fun_eq_iff)
  have "submitter_round (echo_kernel cap) 0 ?s = Inr (0, demo_at h2 1 conn_ready bf w)"
    using g p assms(2)
    by (simp add: submitter_round_def index_res_def Let_def trylock_conn_def trylock_eq unlock_conn_def
        unlock_def epoll_set_conn_state_def sys_def Z_epoll_ctl_def Z_syscall_enter SYSCALL_RETURN_def
        linux_consts conn_ready_def conn_recvd_def conn_new_def demo_conn_def)
  then show thesis using r2 that unfolding Q by blast
qed

text \<open>One round of sending: with \<open>cap\<close> at least 24 the whole response, with less a part.\<close>

definition conn_sent :: server_connection_t where
  "conn_sent = conn_recvd\<lparr>processed := 1, sent := 1, epoll_state := EPOLLIN\<rparr>"

lemma demo_response_buffer:
  assumes "qrep h ((demo_q [] es [] [])(RSend 0 \<mapsto> [BufQ 0]))"
  obtains h' where "response_buffer 0 (demo_at h 1 conn_ready bf w)
      = Inr (Some 0, demo_at h' 1 (conn_ready\<lparr>sendbuf := Some 0\<rparr>)
          (bf\<lparr>conn := Some 0, left := 24, ptr := 1024\<rparr>) w)"
    and "qrep h' ((demo_q [] es [] [])(RSend 0 \<mapsto> []))"
    and "unqueued (BufQ 0) ((demo_q [] es [] [])(RSend 0 \<mapsto> []))"
proof -
  let ?s = "demo_at h 1 conn_ready bf w" and ?Q = "(demo_q [] es [] [])(RSend 0 \<mapsto> [BufQ 0])"
  have "qrep (qh ?s) ?Q" using assms(1) by simp
  from srv_get_first [OF this, of "RSend 0" "BufQ 0" "[]"] obtain h1 where
    g: "srv_get (Some (RSend 0)) ?s = Inr (Ptr (BufQ 0), demo_at h1 1 conn_ready bf w)"
    and r: "qrep h1 ((demo_q [] es [] [])(RSend 0 \<mapsto> []))" by auto
  have "response_buffer 0 ?s = Inr (Some 0, demo_at h1 1 (conn_ready\<lparr>sendbuf := Some 0\<rparr>)
      (bf\<lparr>conn := Some 0, left := 24, ptr := 1024\<rparr>) w)"
    using g by (simp add: response_buffer_def Let_def conn_ready_def conn_recvd_def conn_new_def demo_conn_def)
  moreover have "unqueued (BufQ 0) ((demo_q [] es [] [])(RSend 0 \<mapsto> []))"
    using unqueued_taken [OF assms, of "RSend 0" "BufQ 0" "[]"] by simp
  ultimately show thesis using r that by blast
qed

lemma demo_response:
  assumes "qrep h ((demo_q [] es [] [])(RSend 0 \<mapsto> [BufQ 0]))" and "length (msg bf) = 1048"
    and w: "w < 50"
  obtains h' bf' where "handle_response_round n (echo_kernel 24) 0 (demo_at h 1 conn_ready bf w)
      = Inr (None, demo_at h' 1 conn_sent bf' (w + 50))"
    and "qrep h' ((demo_q [] (es @ [BufQ 0]) [] [])(RSend 0 \<mapsto> []))"
    and "length (response_output (echo_kernel 24) 0 (demo_at h 1 conn_ready bf w)) = 24"
proof -
  let ?s = "demo_at h 1 conn_ready bf w"
  define bf1 where "bf1 = bf\<lparr>conn := Some 0, left := 24, ptr := 1024\<rparr>"
  from demo_response_buffer [OF assms(1), of bf w] obtain h1 where
    rb: "response_buffer 0 ?s = Inr (Some 0, demo_at h1 1 (conn_ready\<lparr>sendbuf := Some 0\<rparr>) bf1 w)"
    and r: "qrep h1 ((demo_q [] es [] [])(RSend 0 \<mapsto> []))"
    and unq: "unqueued (BufQ 0) ((demo_q [] es [] [])(RSend 0 \<mapsto> []))" unfolding bf1_def .
  let ?s2 = "demo_at h1 1 (conn_ready\<lparr>sent := 1\<rparr>) (bf1\<lparr>left := 0, ptr := 1048\<rparr>) (w + 50)"
  have "qrep (qh ?s2) ((demo_q [] es [] [])(RSend 0 \<mapsto> []))" using r by simp
  from srv_put_law [OF this _ unq, of "RHeap 1" es] obtain h2 where
    p: "srv_put (Ptr (BufQ 0)) (Some (RHeap 1)) ?s2
      = Inr (demo_at h2 1 (conn_ready\<lparr>sent := 1\<rparr>) (bf1\<lparr>left := 0, ptr := 1048\<rparr>) (w + 50))"
    and r2: "qrep h2 ((demo_q [] es [] [])(RSend 0 \<mapsto> [], RHeap 1 \<mapsto> es @ [BufQ 0]))" by auto
  have Q: "(demo_q [] es [] [])(RSend 0 \<mapsto> [], RHeap 1 \<mapsto> es @ [BufQ 0])
      = (demo_q [] (es @ [BufQ 0]) [] [])(RSend 0 \<mapsto> [])" by (simp add: fun_eq_iff)
  have sz: "min_size 24 1024 = (24 :: u64)" by (simp add: min_size_def)
  have "handle_response_round n (echo_kernel 24) 0 ?s
      = Inr (None, demo_at h2 1 conn_sent (bf1\<lparr>left := 0, ptr := 1048\<rparr>) (w + 50))"
    using rb p assms(2) w
    by (simp add: handle_response_round_def send_from_def load_bytes_def sys_def Z_send_def Z_syscall_enter
        SYSCALL_RETURN_def Let_def sz response_complete_def lock_conn_def lock_eq unlock_conn_def
        unlock_def epoll_set_conn_state_def Z_epoll_ctl_def linux_consts bf1_def conn_sent_def
        conn_ready_def conn_recvd_def conn_new_def demo_conn_def)
  moreover have "length (response_output (echo_kernel 24) 0 ?s) = 24"
    using rb assms(2) w by (simp add: response_output_def sys_def Z_send_def Z_syscall_enter
        SYSCALL_RETURN_def bf1_def sz Let_def)
  ultimately show thesis using r2 that unfolding Q by blast
qed

definition conn_partial :: server_connection_t where
  "conn_partial = conn_ready\<lparr>sendbuf := Some 0\<rparr>"

lemma demo_partial:
  assumes "qrep h ((demo_q [] es [] [])(RSend 0 \<mapsto> [BufQ 0]))" and "length (msg bf) = 1048"
    and w: "w < 50"
  obtains h' bf' where "handle_response_round n (echo_kernel 10) 0 (demo_at h 1 conn_ready bf w)
      = Inr (Some 0, demo_at h' 1 conn_partial bf' (w + 50))"
    and "qrep h' ((demo_q [] es [] [])(RSend 0 \<mapsto> []))"
    and "length (msg bf') = 1048" and "left bf' = 14" and "ptr bf' = 1034"
proof -
  let ?s = "demo_at h 1 conn_ready bf w"
  define bf1 where "bf1 = bf\<lparr>conn := Some 0, left := 24, ptr := 1024\<rparr>"
  define bf2 where "bf2 = bf1\<lparr>left := 14, ptr := 1034\<rparr>"
  from demo_response_buffer [OF assms(1), of bf w] obtain h1 where
    rb: "response_buffer 0 ?s = Inr (Some 0, demo_at h1 1 (conn_ready\<lparr>sendbuf := Some 0\<rparr>) bf1 w)"
    and r: "qrep h1 ((demo_q [] es [] [])(RSend 0 \<mapsto> []))" unfolding bf1_def .
  have sz: "min_size 24 1024 = (24 :: u64)" by (simp add: min_size_def)
  have "handle_response_round n (echo_kernel 10) 0 ?s = Inr (Some 0, demo_at h1 1 conn_partial bf2 (w + 50))"
    using rb assms(2) w
    by (simp add: handle_response_round_def send_from_def load_bytes_def sys_def Z_send_def Z_syscall_enter
        SYSCALL_RETURN_def Let_def sz bf1_def bf2_def conn_partial_def)
  moreover have "length (msg bf2) = 1048" "left bf2 = 14" "ptr bf2 = 1034"
    using assms(2) by (simp_all add: bf1_def bf2_def)
  ultimately show thesis using r that by blast
qed

end
