(* ===== verification/Server_Session.thy ===== *)
theory Server_Session
  imports Server_Demo
begin

section \<open>The server answers its clients\<close>

text \<open>
  The server is a session of theory \<open>Session\<close> for every connection: one theorem for each
  step, and one for the byte streams of a connection from its accept on.
\<close>

subsection \<open>The streams of a connection\<close>

text \<open>A step of the server during which connection \<open>c\<close> stays open and no reading of the clock fails.\<close>

definition session_cstep ::
  "nat \<Rightarrow> 'w kernel \<Rightarrow> (byte list \<Rightarrow> byte list) \<Rightarrow> 'w clock \<Rightarrow> nat
    \<Rightarrow> 'w srv_sys \<Rightarrow> byte list \<Rightarrow> byte list \<Rightarrow> 'w srv_sys \<Rightarrow> bool" where
  "session_cstep n k sha1 clock c x i out y \<longleftrightarrow> (\<exists>l. srv_step n k sha1 clock l x y \<and> c \<in> snd y
     \<and> \<not> reading_failed clock l (fst y) \<and> i = step_in k l (fst x) c \<and> out = step_out k l (fst x) c)"

definition session_rel ::
  "nat \<Rightarrow> 'w kernel \<Rightarrow> (byte list \<Rightarrow> byte list) \<Rightarrow> 'w clock \<Rightarrow> ('w \<Rightarrow> int) \<Rightarrow> nat set \<Rightarrow> nat set \<Rightarrow> nat
    \<Rightarrow> 'w srv_sys \<Rightarrow> session \<Rightarrow> bool" where
  "session_rel n k sha1 clock now B C c x S \<longleftrightarrow> env_ok (card B) n k sha1 clock now \<and> c \<in> snd x
     \<and> (\<exists>Q. srv_inv B C Q (fst x) \<and> snd x = {c. is_open C Q (fst x) c}
          \<and> 0 < unat (max_io_size (cfg (fst x))) \<and> S = session_of Q (fst x) c)"

interpretation served: io_simulation "session_cstep n k sha1 clock c" "session_step sha1 False"
  "session_rel n k sha1 clock now B C c"
proof
  fix x S i out y
  assume "session_rel n k sha1 clock now B C c x S" and "session_cstep n k sha1 clock c x i out y"
  then obtain s R s' R' l Q where xy: "x = (s, R)" "y = (s', R')" and env: "env_ok (card B) n k sha1 clock now"
    and c: "c \<in> R" "c \<in> R'" and Q: "srv_inv B C Q s" "R = {c. is_open C Q s c}"
      "0 < unat (max_io_size (cfg s))" and S: "S = session_of Q s c"
    and st: "srv_step n k sha1 clock l (s, R) (s', R')" "\<not> reading_failed clock l s'"
    and io: "i = step_in k l s c" "out = step_out k l s c"
    by (cases x; cases y) (auto simp: session_rel_def session_cstep_def)
  from srv_step_sim [OF st(1) env Q] obtain Q' where
    Q': "srv_inv B C Q' s'" "R' = {c. is_open C Q' s' c}" "0 < unat (max_io_size (cfg s'))"
      "serves sha1 (reading_failed clock l s') k l C Q s Q' s'" by blast
  then have "session_step sha1 False S i out (session_of Q' s' c)"
    using c Q(2) st(2) unfolding S io by (simp add: serves_def)
  moreover have "session_rel n k sha1 clock now B C c y (session_of Q' s' c)"
    using Q' env c(2) unfolding session_rel_def xy by auto
  ultimately show "\<exists>S'. session_step sha1 False S i out S' \<and> session_rel n k sha1 clock now B C c y S'"
    by blast
qed

text \<open>When everything received has been answered, nothing is owed.\<close>

lemma idle_session:
  assumes inv: "srv_inv B C Q s" and op: "is_open C Q s c"
    and eq: "received (conns s c) = sent (conns s c)"
  shows "owed sha1 (session_of Q s c) = []"
proof -
  note I = srv_invD [OF inv] and core = inv [unfolded srv_inv_core, THEN conjunct1]
  have live: "is_live C Q s c" using op by (simp add: is_open_def)
  from queues_okD(4) [OF I(5) live] obtain ns where ns: "Q (RSend c) = Some ns" by blast
  let ?f = "card (inflight Q s c)"
  define m where "m = length ns + (if sendbuf (conns s c) = None then 0 else 1)"
  have L: "received (conns s c) - processed (conns s c) = of_nat ?f"
    "processed (conns s c) - sent (conns s c) = of_nat m"
    using conns_okD(2) [OF I(9) live] op ns by (simp_all add: live_ok_def open_ok_def is_open_def m_def)
  have "(of_nat (?f + m) :: u64) = received (conns s c) - sent (conns s c)"
    unfolding of_nat_add L [symmetric] by simp
  then have "(of_nat (?f + m) :: u64) = 0" using eq by simp
  moreover have "?f + m < 2 ^ 33"
  proof -
    have "length ns \<le> card B" by (rule sendq_length [OF core ns])
    then have "?f + m \<le> card B + card B + 1"
      using finite_inflight(2) [OF I(6,1), of c] by (auto simp: m_def)
    then show ?thesis using I(2) by simp
  qed
  ultimately have z: "?f + m = 0" using count_zero by blast
  then have q: "ns = []" "sendbuf (conns s c) = None" "inflight Q s c = {}"
    using finite_inflight(1) [OF I(6,1), of c] by (auto simp: m_def split: if_splits)
  have "msgs_of s c (the (Q r)) = []" if r: "r \<in> inbox_roots s" for r
    by (rule no_msgs [OF q(3) r]) (use queues_okD(3) [OF I(5) r] in blast)
  moreover have "indices_ok s (conns s c)" by (rule conns_okD(1) [OF I(9) live])
  ultimately show ?thesis
    using q ns inbox_mem [of s "conns s c"]
    by (simp add: owed_def hash_bufs_def send_bufs_def rest_bytes_def)
qed

subsection \<open>A session of the small server\<close>

abbreviation demo_cstep :: "nat srv_sys \<Rightarrow> byte list \<Rightarrow> byte list \<Rightarrow> nat srv_sys \<Rightarrow> bool" where
  "demo_cstep \<equiv> session_cstep demo_fuel (echo_kernel 24) demo_sha tick_clock 0"

lemma tick_not_failed: "\<not> clock_failed tick_clock 2"
  by (auto simp: clock_failed_def tick_clock_def split: if_splits)

lemma demo_open: "closed cn = 0 \<Longrightarrow> still_open {0} (demo_at h nx cn bf w) = {0}"
  by (auto simp: still_open_def)

lemma demo_closed: "closed conn_new = 0" "closed conn_recvd = 0" "closed conn_ready = 0" "closed conn_sent = 0"
  by (simp_all add: conn_new_def conn_recvd_def conn_ready_def conn_sent_def demo_conn_def)

lemma demo_started:
  obtains s0 h bf where
    "srv_reach demo_fuel (echo_kernel cap) demo_sha tick_clock [0, 1] [0] (s0, {})"
    and "srv_step demo_fuel (echo_kernel cap) demo_sha tick_clock Accept (s0, {}) (demo_at h 1 conn_new bf 0, {0})"
    and "qrep h ((demo_q [] [BufQ 0, BufQ 1] [] [])(RSend 0 \<mapsto> []))" and "length (msg bf) = 1048"
proof -
  from demo_filled_rep obtain h where h: "qrep h (demo_q [ConnQ 0] [BufQ 0, BufQ 1] [] [])" by blast
  obtain bf where s0: "demo_srv h = demo_at h 0 demo_conn bf 0" and bf: "length (msg bf) = 1048"
    using demo_srv_at [of h] that by (simp add: demo_srv_def)
  have reach: "srv_reach demo_fuel (echo_kernel cap) demo_sha tick_clock [0, 1] [0] (demo_srv h, {})"
    unfolding srv_reach_def using demo_start [OF h]
    by (intro exI [of _ "demo_srv h"] exI [of _ "[]"]) (simp add: s0 srv_run.none)
  from demo_accept [OF h, of cap bf 0] obtain ha h1 where
    a: "handle_accept (echo_kernel cap) (demo_at h 0 demo_conn bf 0) = Inr (0, demo_at ha 1 conn_new bf 0)"
      "qrep ha ((demo_q [] [BufQ 0, BufQ 1] [] [])(RSend 0 \<mapsto> []))"
      "srv_get (Some (RHeap 0)) (demo_at h 0 demo_conn bf 0) = Inr (Ptr (ConnQ 0), demo_at h1 0 demo_conn bf 0)" .
  have "srv_step demo_fuel (echo_kernel cap) demo_sha tick_clock Accept (demo_srv h, {}) (demo_at ha 1 conn_new bf 0, {0})"
    unfolding s0
    by (rule srv_step.accept_new [OF _ _ _ a(1)])
      (simp_all add: a(3) accepts_def Z_accept4_def Z_syscall_enter SYSCALL_RETURN_def)
  from that [OF reach this a(2) bf] show thesis .
qed

text \<open>The state after the accept is reachable.\<close>

lemma srv_reach_step:
  assumes "srv_reach n k sha1 clock bs cs x" and "srv_step n k sha1 clock l x y"
  shows "srv_reach n k sha1 clock bs cs y"
proof -
  have "srv_run n k sha1 clock u (ls @ [l]) y" if "srv_run n k sha1 clock u ls x" for u ls
    using that assms(2) by (induction rule: srv_run.induct) (auto intro: srv_run.intros)
  with assms(1) show ?thesis unfolding srv_reach_def by blast
qed

lemma session_run_reach:
  assumes "io_run (session_cstep n k sha1 clock c) x ins outs y" and "srv_reach n k sha1 clock bs cs x"
  shows "srv_reach n k sha1 clock bs cs y"
  using assms
proof (induction rule: io_run.induct)
  case (extend ins outs y i out z)
  then show ?case unfolding session_cstep_def by (blast intro: srv_reach_step)
qed simp

lemma demo_times: "(0 :: nat) < 50" "(2 :: nat) < 50" "(2 :: nat) + 50 = 52"
  by simp_all

text \<open>The run up to the point where the response is ready.\<close>

abbreviation demo_csteps :: "nat \<Rightarrow> nat srv_sys \<Rightarrow> byte list \<Rightarrow> byte list \<Rightarrow> nat srv_sys \<Rightarrow> bool" where
  "demo_csteps cap \<equiv> session_cstep demo_fuel (echo_kernel cap) demo_sha tick_clock 0"

lemma demo_submitted:
  obtains s0 s1 h bf where
    "srv_reach demo_fuel (echo_kernel cap) demo_sha tick_clock [0, 1] [0] (s0, {})"
    and "srv_step demo_fuel (echo_kernel cap) demo_sha tick_clock Accept (s0, {}) (s1, {0})"
    and "io_run (demo_csteps cap) (s1, {0}) (replicate 1024 7) [] (demo_at h 1 conn_ready bf 2, {0})"
    and "qrep h ((demo_q [] [BufQ 1] [] [])(RSend 0 \<mapsto> [BufQ 0]))" and "length (msg bf) = 1048"
proof -
  let ?K = "echo_kernel cap" and ?F = "demo_fuel"
  let ?step = "srv_step ?F ?K demo_sha tick_clock"
  obtain s0 ha bf where reach: "srv_reach ?F ?K demo_sha tick_clock [0, 1] [0] (s0, {})"
    and sa: "?step Accept (s0, {}) (demo_at ha 1 conn_new bf 0, {0})"
    and ha: "qrep ha ((demo_q [] [BufQ 0, BufQ 1] [] [])(RSend 0 \<mapsto> []))" and bf: "length (msg bf) = 1048"
    by (rule demo_started)
  from demo_request [OF ha bf demo_times(1), of ?F cap] obtain hr b1 where
    r: "handle_request_round ?F ?K 0 (demo_at ha 1 conn_new bf 0) = Inr (None, demo_at hr 1 conn_recvd b1 0)"
      "request_input ?K 0 (demo_at ha 1 conn_new bf 0) = replicate 1024 7"
      "qrep hr ((demo_q [] [BufQ 1] [BufQ 0] [])(RSend 0 \<mapsto> []))" "length (msg b1) = 1048" "conn b1 = Some 0" .
  have c1: "demo_csteps cap (demo_at ha 1 conn_new bf 0, {0}) (replicate 1024 7) [] (demo_at hr 1 conn_recvd b1 0, {0})"
    using srv_step.request [OF _ r(1), of "{0}"] r(2) demo_open demo_closed unfolding session_cstep_def
    by (intro exI [of _ "Request 0"]) (simp add: step_in_def step_out_def reading_failed_def)
  from demo_compute [OF r(3-5)] obtain hc b2 where
    c: "compute_worker_round ?F demo_sha tick_clock 0 (demo_at hr 1 conn_recvd b1 0) = Inr (demo_at hc 1 conn_recvd b2 2)"
      "qrep hc ((demo_q [] [BufQ 1] [] [BufQ 0])(RSend 0 \<mapsto> []))" "length (msg b2) = 1048" "conn b2 = Some 0" .
  have c2: "demo_csteps cap (demo_at hr 1 conn_recvd b1 0, {0}) [] [] (demo_at hc 1 conn_recvd b2 2, {0})"
    using srv_step.compute [OF _ c(1), of ?K "{0}"] demo_open demo_closed tick_not_failed
    unfolding session_cstep_def
    by (intro exI [of _ "Compute 0"]) (simp add: step_in_def step_out_def reading_failed_def)
  from demo_submit [OF c(2,4), of cap 2] obtain hs where
    t: "submitter_round ?K 0 (demo_at hc 1 conn_recvd b2 2) = Inr (0, demo_at hs 1 conn_ready b2 2)"
      "qrep hs ((demo_q [] [BufQ 1] [] [])(RSend 0 \<mapsto> [BufQ 0]))" .
  have c3: "demo_csteps cap (demo_at hc 1 conn_recvd b2 2, {0}) [] [] (demo_at hs 1 conn_ready b2 2, {0})"
    using srv_step.submit [OF _ t(1), of ?F demo_sha tick_clock "{0}"] demo_open demo_closed
    unfolding session_cstep_def
    by (intro exI [of _ "Submit 0"]) (simp add: step_in_def step_out_def reading_failed_def)
  note more = io_run.extend [where step = "demo_csteps cap"]
  note run = more [OF more [OF more [OF io_run.start c1] c2] c3]
  show thesis by (rule that [OF reach sa run [simplified] t(2) c(3)])
qed

text \<open>The whole response is sent, or the first 10 of its bytes.\<close>

lemma demo_served:
  obtains s0 s1 s outs where
    "srv_reach demo_fuel (echo_kernel 24) demo_sha tick_clock [0, 1] [0] (s0, {})"
    and "srv_step demo_fuel (echo_kernel 24) demo_sha tick_clock Accept (s0, {}) (s1, {0})"
    and "io_run demo_cstep (s1, {0}) (replicate 1024 7) outs (s, {0})"
    and "length outs = 24" and "received (conns s 0) = sent (conns s 0)"
proof -
  let ?K = "echo_kernel 24"
  obtain s0 s1 h bf where
    d: "srv_reach demo_fuel ?K demo_sha tick_clock [0, 1] [0] (s0, {})"
      "srv_step demo_fuel ?K demo_sha tick_clock Accept (s0, {}) (s1, {0})"
      "io_run demo_cstep (s1, {0}) (replicate 1024 7) [] (demo_at h 1 conn_ready bf 2, {0})"
      "qrep h ((demo_q [] [BufQ 1] [] [])(RSend 0 \<mapsto> [BufQ 0]))" "length (msg bf) = 1048"
    by (rule demo_submitted)
  from demo_response [OF d(4,5) demo_times(2), of demo_fuel, unfolded demo_times(3)] obtain hp b3 where
    p: "handle_response_round demo_fuel ?K 0 (demo_at h 1 conn_ready bf 2) = Inr (None, demo_at hp 1 conn_sent b3 52)"
      "length (response_output ?K 0 (demo_at h 1 conn_ready bf 2)) = 24" .
  have c4: "demo_cstep (demo_at h 1 conn_ready bf 2, {0}) [] (response_output ?K 0 (demo_at h 1 conn_ready bf 2))
      (demo_at hp 1 conn_sent b3 52, {0})"
    using srv_step.response [OF _ p(1), of "{0}"] demo_open demo_closed unfolding session_cstep_def
    by (intro exI [of _ "Response 0"]) (simp add: step_in_def step_out_def reading_failed_def)
  note run = io_run.extend [where step = demo_cstep, OF d(3) c4]
  show thesis
    by (rule that [OF d(1,2) run [simplified]])
      (use p(2) in \<open>simp_all add: conn_sent_def conn_recvd_def conn_new_def demo_conn_def\<close>)
qed

lemma demo_sending:
  obtains h bf where
    "srv_reach demo_fuel (echo_kernel 10) demo_sha tick_clock [0, 1] [0] (demo_at h 1 conn_partial bf 52, {0})"
    and "qrep h ((demo_q [] [BufQ 1] [] [])(RSend 0 \<mapsto> []))"
    and "length (msg bf) = 1048" and "left bf = 14" and "ptr bf = 1034"
proof -
  let ?K = "echo_kernel 10"
  obtain s0 s1 h bf where
    d: "srv_reach demo_fuel ?K demo_sha tick_clock [0, 1] [0] (s0, {})"
      "srv_step demo_fuel ?K demo_sha tick_clock Accept (s0, {}) (s1, {0})"
      "io_run (demo_csteps 10) (s1, {0}) (replicate 1024 7) [] (demo_at h 1 conn_ready bf 2, {0})"
      "qrep h ((demo_q [] [BufQ 1] [] [])(RSend 0 \<mapsto> [BufQ 0]))" "length (msg bf) = 1048"
    by (rule demo_submitted)
  from demo_partial [OF d(4,5) demo_times(2), of demo_fuel, unfolded demo_times(3)] obtain hp b3 where
    p: "handle_response_round demo_fuel ?K 0 (demo_at h 1 conn_ready bf 2) = Inr (Some 0, demo_at hp 1 conn_partial b3 52)"
      "qrep hp ((demo_q [] [BufQ 1] [] [])(RSend 0 \<mapsto> []))" "length (msg b3) = 1048" "left b3 = 14" "ptr b3 = 1034" .
  have cl: "closed conn_partial = 0" using demo_closed(3) by (simp add: conn_partial_def)
  have "srv_reach demo_fuel ?K demo_sha tick_clock [0, 1] [0] (demo_at h 1 conn_ready bf 2, {0})"
    by (rule session_run_reach [OF d(3) srv_reach_step [OF d(1,2)]])
  moreover have "srv_step demo_fuel ?K demo_sha tick_clock (Response 0) (demo_at h 1 conn_ready bf 2, {0})
      (demo_at hp 1 conn_partial b3 52, {0})"
    using srv_step.response [OF _ p(1), of "{0}"] demo_open [OF cl] cl by simp
  ultimately show thesis using that [OF _ p(2-5)] srv_reach_step by blast
qed

subsection \<open>Properties\<close>





end
