(* ===== verification/Server_Faults.thy ===== *)
theory Server_Faults
  imports Server_Session
begin

section \<open>What the server does not handle\<close>

text \<open>
  The steps of theory \<open>Server\<close> leave out what the code goes wrong on: the end of a
  connection while a response is being sent, and an \<open>accept\<close> that fails. Here is what the
  code does then, starting from any reachable state, and what it does without a usable
  limit on the size of its transfers.
\<close>

subsection \<open>The end of a connection that is sending\<close>

lemma finish_sending:
  assumes inv: "srv_inv B C Q s" and op: "is_open C Q s c"
    and sb: "sendbuf (conns s c) = Some b" and n: "card B < n"
  shows "\<exists>s' es ns. finish_connection n k c s = Inr (0, s')
    \<and> Q (ebr s) = Some es \<and> Q (RSend c) = Some ns
    \<and> qrep (qh s') (Q(ebr s \<mapsto> es @ freed (conns s c) ns, RSend c \<mapsto> []))
    \<and> same_ctx s s' \<and> bufs s' = bufs s \<and> closed (conns s' c) = 1 \<and> conn_lock (conns s' c) = 0
    \<and> sendbuf (conns s' c) = Some b \<and> recvbuf (conns s' c) = recvbuf (conns s c)
    \<and> fd (conns s' c) = fd (conns s c)"
proof -
  have core: "srv_core B C Q s" and ok: "conns_ok C Q s"
    using inv by (simp_all add: srv_inv_core)
  note I = srv_coreD [OF core]
  have live: "is_live C Q s c" and cl: "closed (conns s c) = 0"
    using op by (simp_all add: is_open_def)
  from queues_okD(2) [OF I(5)] queues_okD(4) [OF I(5) live] obtain es ns where
    Q: "Q (ebr s) = Some es" "Q (RSend c) = Some ns" by blast
  let ?f = "card (inflight Q s c)"
  have lk: "conn_lock (conns s c) = 0"
    and f: "received (conns s c) - processed (conns s c) = of_nat ?f"
    and g: "processed (conns s c) - sent (conns s c) = of_nat (Suc (length ns))"
    using conns_okD(2) [OF ok live] Q(2) cl sb by (simp_all add: live_ok_def open_ok_def)
  have "length ns < n" using sendq_length [OF core Q(2)] n by simp
  from finish_prefix [OF core op lk Q this, of k] obtain s1 where
    s1: "qrep (qh s1) (Q(ebr s \<mapsto> es @ freed (conns s c) ns, RSend c \<mapsto> []))"
      "same_ctx s s1" "bufs s1 = bufs s"
    and x: "conns s1 c = closed_update (\<lambda>_. 1) (sent_update (\<lambda>x. x + of_nat (length ns))
        (conn_lock_update (\<lambda>_. 1) (conns s c)))"
    and run: "finish_connection n k c s =
        (if sent (conns s1 c) = received (conns s1 c) then
           bind_res (srv_put (Ptr (ConnQ c)) (empty_connections (queues s1)) s1) (\<lambda>s. Inr (0, s))
         else Inr (0, unlock_conn c s1))" by blast
  have "received (conns s1 c) - sent (conns s1 c) = of_nat (Suc ?f)"
    using f g by (simp add: x algebra_simps)
  moreover have "Suc ?f < 2 ^ 33"
    using finite_inflight(2) [OF I(6,1), of c] I(2) by simp
  ultimately have "sent (conns s1 c) \<noteq> received (conns s1 c)"
    using count_zero [of "Suc ?f"] by auto
  with run have r: "finish_connection n k c s = Inr (0, unlock_conn c s1)" by simp
  show ?thesis
    using s1 sb r Q
    by (intro exI [of _ "unlock_conn c s1"] exI [of _ es] exI [of _ ns])
      (simp add: unlock_conn_def x same_ctx_def)
qed

text \<open>The connection itself is in no queue afterwards.\<close>

lemma finish_sending_lost:
  assumes inv: "srv_inv B C Q s" and op: "is_open C Q s c"
    and Q: "Q (ebr s) = Some es" "Q (RSend c) = Some ns"
  shows "\<not> inq (Q(ebr s \<mapsto> es @ freed (conns s c) ns, RSend c \<mapsto> [])) r (ConnQ c)"
proof -
  have core: "srv_core B C Q s" using inv by (simp add: srv_inv_core)
  have live: "is_live C Q s c" using op by (simp add: is_open_def)
  have "ConnQ c \<notin> set es" using live_unqueued(1) [OF core live] Q(1) by (auto simp: inq_def)
  then show ?thesis
    using live_unqueued(1) [OF core live] freed_bufs [OF sendq_bufs [OF core Q(2)]]
    by (auto simp: inq_def)
qed

text \<open>Accepting a session leaves the send buffer of the connection object as it was.\<close>

lemma handle_accept_sendbuf:
  assumes "handle_accept k s = Inr (ret, s')"
  shows "sendbuf (conns s' c) = sendbuf (conns s c)"
proof -
  from assms obtain l s1 where g: "srv_get (empty_connections (queues s)) s = Inr (l, s1)"
    unfolding handle_accept_def by (auto simp: bind_res_Inr_iff)
  then have c1: "conns s1 = conns s" by (auto simp: srv_get_def bind_res_Inr_iff)
  define s2 where "s2 = snd (sys (Z_accept4 k (listen_fd (io s1)) SOCK_NONBLOCK) s1)"
  have c2: "conns s2 = conns s" using c1 by (simp add: s2_def)
  show ?thesis
  proof (cases "l = Null \<or> sr_ret (fst (sys (Z_accept4 k (listen_fd (io s1)) SOCK_NONBLOCK) s1)) < 0")
    case True
    then have "handle_accept k s = (if l = Null then Inr (0, s1) else Inr (-1, s2))"
      by (auto simp: handle_accept_def g s2_def split_beta Let_def)
    with assms c1 c2 show ?thesis by (auto split: if_splits)
  next
    case False
    then have eq: "handle_accept k s =
         bind_res (container_of_connection l) (\<lambda>d.
         let s = upd_conn d (\<lambda>x. x\<lparr>processed := 0, received := 0, sent := 0,
             fd := sr_ret (fst (sys (Z_accept4 k (listen_fd (io s1)) SOCK_NONBLOCK) s1))\<rparr>) s2 in
         bind_res (assign_threads (next_session (io s)) (nr_io (io s))
             (threads_submit (cfg s)) (threads_compute (cfg s))) (\<lambda>(ioix, subix, compix, next').
         let s = s\<lparr>io := (io s)\<lparr>next_session := next'\<rparr>\<rparr>;
             s = upd_conn d (\<lambda>x. x\<lparr>ioidx := ioix, submitidx := subix, computeidx := compix\<rparr>) s in
         bind_res (index_res (epoll_fds (io s)) (nat ioix)) (\<lambda>efd.
         let s = upd_conn d (epoll_fd_update (\<lambda>_. efd)) s;
             s = s\<lparr>qh := init_queue_root (RSend d) (qh s)\<rparr>;
             s = upd_conn d (\<lambda>x. x\<lparr>recvbuf := None, epoll_state := 0, closed := 0,
                                  conn_lock := lock_init (conn_lock x)\<rparr>) s
         in Inr (epoll_set_conn_state k d EPOLLIN s))))"
      unfolding handle_accept_def g s2_def by (simp add: split_beta Let_def)
    have ep: "sendbuf (conns t' c) = sendbuf (conns t c)"
      if "epoll_set_conn_state k d EPOLLIN t = (r, t')" for d r and t t' :: "'a srv"
      using epoll_set_conn_state_conns [of k d EPOLLIN t] that by simp
    from trans [OF eq [symmetric] assms] show ?thesis
      using c2 by (auto simp: bind_res_Inr_iff Let_def dest!: ep)
  qed
qed

subsection \<open>Events of a connection that is gone\<close>

text \<open>A send that fails while a response is being sent tears the connection down.\<close>

definition send_fails :: "'w kernel \<Rightarrow> nat \<Rightarrow> 'w srv \<Rightarrow> bool" where
  "send_fails k c s \<longleftrightarrow> (\<forall>bs. let (r, s') = sys (Z_send k (fd (conns s c)) bs MSG_DONTWAIT) s
     in sr_ret r = -1 \<and> errno s' \<noteq> EAGAIN)"

definition recv_fails :: "'w kernel \<Rightarrow> nat \<Rightarrow> 'w srv \<Rightarrow> bool" where
  "recv_fails k c s \<longleftrightarrow> (\<forall>m. let (r, s') = sys (Z_recv k (fd (conns s c)) m MSG_DONTWAIT) s
     in sr_ret r = -1 \<and> errno s' \<noteq> EAGAIN)"

lemma response_fails:
  assumes inv: "srv_inv B C Q s" and op: "is_open C Q s c" and sb: "sendbuf (conns s c) = Some b"
    and sf: "send_fails k c s"
  shows "\<exists>s0. handle_response_round n k c s
      = bind_res (finish_connection n k c s0) (\<lambda>(r, s). Inr (Some r, s))
    \<and> same_ctx s s0 \<and> conns s0 = conns s \<and> bufs s0 = bufs s \<and> qh s0 = qh s"
proof -
  let ?io = "min_size (left (bufs s b)) (max_io_size (cfg s))"
  have ok: "send_ok (bufs s b)" and len: "length (msg (bufs s b)) = 1048"
    using srv_invD(8) [OF inv] op sb conservedD(1) [OF srv_invD(6) [OF inv], of b "AsSend c"]
    unfolding bufs_ok_def by auto
  have "unat ?io \<le> unat (left (bufs s b))" by (simp add: unat_min_size)
  with ok len obtain bs where bs: "load_bytes (ptr (bufs s b)) (unat ?io) (msg (bufs s b)) = Inr bs"
    by (simp add: send_ok_def load_bytes_def)
  define s0 where "s0 = snd (sys (Z_send k (fd (conns s c)) bs MSG_DONTWAIT) s)"
  have "send_from k c b ?io s = Inr (-1, s0)" "errno s0 \<noteq> EAGAIN"
    using sf by (auto simp: send_fails_def send_from_def bs s0_def Let_def split_beta)
  moreover have "response_buffer c s = Inr (Some b, s)" by (simp add: response_buffer_def sb)
  ultimately have "handle_response_round n k c s
      = bind_res (finish_connection n k c s0) (\<lambda>(r, s). Inr (Some r, s))"
    by (simp add: handle_response_round_def Let_def)
  then show ?thesis by (intro exI [of _ s0]) (simp add: s0_def same_ctx_def)
qed

lemma request_fails:
  assumes "recvbuf (conns s c) = Some r" and "recv_fails k c s"
  shows "\<exists>s0. handle_request (Suc n) k c s = finish_connection (Suc n) k c s0
    \<and> same_ctx s s0 \<and> conns s0 = conns s \<and> bufs s0 = bufs s \<and> qh s0 = qh s"
proof -
  let ?io = "min_size (left (bufs s r)) (max_io_size (cfg s))"
  define s0 where "s0 = snd (sys (Z_recv k (fd (conns s c)) (unat ?io) MSG_DONTWAIT) s)"
  have "recv_into k c r ?io s = Inr (-1, s0)" "errno s0 \<noteq> EAGAIN"
    using assms(2) by (auto simp: recv_fails_def recv_into_def s0_def Let_def split_beta)
  moreover have "request_buffer c s = Inr (Some r, s)" by (simp add: request_buffer_def assms(1))
  ultimately have "handle_request (Suc n) k c s = finish_connection (Suc n) k c s0"
    by (cases "finish_connection (Suc n) k c s0")
      (auto simp: handle_request_def handle_request_round_def Let_def)
  then show ?thesis by (intro exI [of _ s0]) (simp add: s0_def same_ctx_def)
qed

subsection \<open>Transfers of no bytes\<close>

text \<open>With \<open>max_io_size\<close> 0 every transfer asks for nothing, and nothing is what it gets.\<close>

definition empty_transfers :: "'w kernel \<Rightarrow> bool" where
  "empty_transfers k \<longleftrightarrow> (\<forall>fd fl w.
     sr_ret (fst (enter k (SysSendto fd [] fl) w)) = 0
     \<and> sr_ret (fst (enter k (SysRecvfrom fd 0 fl) w)) = 0
     \<and> sr_bytes (fst (enter k (SysRecvfrom fd 0 fl) w)) = [])"

lemma send_nothing:
  assumes "empty_transfers k"
  shows "\<exists>r w. sys (Z_send k d [] fl) s = (r, s\<lparr>world := w\<rparr>) \<and> sr_ret r = 0"
proof -
  obtain r w where "enter k (SysSendto d [] fl) (world s) = (r, w)" by fastforce
  moreover from this assms have "sr_ret r = 0" unfolding empty_transfers_def by (metis fst_conv)
  ultimately show ?thesis
    by (simp add: sys_def Z_send_def Z_syscall_enter SYSCALL_RETURN_def) blast
qed

lemma recv_nothing:
  assumes "empty_transfers k"
  shows "\<exists>r w. sys (Z_recv k d 0 fl) s = (r, s\<lparr>world := w\<rparr>) \<and> sr_ret r = 0 \<and> sr_bytes r = []"
proof -
  obtain r w where "enter k (SysRecvfrom d 0 fl) (world s) = (r, w)" by fastforce
  moreover from this assms have "sr_ret r = 0" "sr_bytes r = []"
    unfolding empty_transfers_def by (metis fst_conv)+
  ultimately show ?thesis
    by (simp add: sys_def Z_recv_def Z_syscall_enter SYSCALL_RETURN_def) blast
qed

lemma response_spins:
  assumes k: "empty_transfers k" and io: "max_io_size (cfg s) = 0" and sb: "sendbuf (conns s c) = Some b"
    and left: "left (bufs s b) \<noteq> 0" and ptr: "ptr (bufs s b) \<le> length (msg (bufs s b))"
  shows "\<exists>w. handle_response_round n k c s = Inr (None, s\<lparr>world := w\<rparr>)"
proof -
  from send_nothing [OF k, of "fd (conns s c)" MSG_DONTWAIT s] obtain r w where
    r: "sys (Z_send k (fd (conns s c)) [] MSG_DONTWAIT) s = (r, s\<lparr>world := w\<rparr>)" "sr_ret r = 0" by blast
  have z: "min_size (left (bufs s b)) 0 = 0" by (simp add: min_size_def word_gt_0)
  have "load_bytes (ptr (bufs s b)) 0 (msg (bufs s b)) = Inr []"
    using ptr by (simp add: load_bytes_def)
  with r have sd: "send_from k c b 0 s = Inr (0, s\<lparr>world := w\<rparr>)" by (simp add: send_from_def)
  have "upd_buf b (\<lambda>x. x\<lparr>left := left x, ptr := ptr x\<rparr>) (s\<lparr>world := w\<rparr>) = s\<lparr>world := w\<rparr>"
    by (simp add: upd_buf_def)
  then show ?thesis
    using sb left sd by (intro exI [of _ w])
      (simp add: handle_response_round_def response_buffer_def io z Let_def)
qed

lemma request_gives_up:
  assumes k: "empty_transfers k" and io: "max_io_size (cfg s) = 0" and rb: "recvbuf (conns s c) = Some r"
    and ptr: "ptr (bufs s r) \<le> length (msg (bufs s r))"
  shows "\<exists>w. handle_request_round n k c s
    = bind_res (finish_connection n k c (s\<lparr>world := w\<rparr>)) (\<lambda>(ret, s). Inr (Some ret, s))"
proof -
  from recv_nothing [OF k, of "fd (conns s c)" MSG_DONTWAIT s] obtain x w where
    x: "sys (Z_recv k (fd (conns s c)) 0 MSG_DONTWAIT) s = (x, s\<lparr>world := w\<rparr>)"
      "sr_ret x = 0" "sr_bytes x = []" by blast
  have z: "min_size (left (bufs s r)) 0 = 0" by (simp add: min_size_def word_gt_0)
  have "store_bytes (ptr (bufs s r)) [] (msg (bufs s r)) = Inr (msg (bufs s r))"
    using ptr by (simp add: store_bytes_def)
  moreover have "upd_buf r (msg_update (\<lambda>_. msg (bufs s r))) (s\<lparr>world := w\<rparr>) = s\<lparr>world := w\<rparr>"
    by (simp add: upd_buf_def)
  ultimately have "recv_into k c r 0 s = Inr (0, s\<lparr>world := w\<rparr>)"
    using x by (simp add: recv_into_def)
  then show ?thesis
    using rb by (intro exI [of _ w])
      (simp add: handle_request_round_def request_buffer_def io z Let_def)
qed

subsection \<open>Properties\<close>

text \<open>C15 (error): a connection that ends while one of its responses is being sent is never
  recycled properly. In any reachable state, \<open>finish_connection\<close> returns 0 and puts the
  buffer being sent into the pool, but leaves the connection pointing to it, and the
  connection is in no queue; if every request received has been processed, no worker has a
  message of it either, so that nothing can ever put it back: it is lost. And if it does
  get back, from the submit worker with a later message, the session that is accepted next
  on it starts with the stale buffer.\<close>

theorem finish_while_sending:
  assumes "srv_reach n k sha1 clock bs cs (s, R)" and "env_ok (length bs) n k sha1 clock now"
    and "c \<in> R" and "sendbuf (conns s c) = Some b"
  shows "\<exists>s' Q'. finish_connection n k c s = Inr (0, s') \<and> qrep (qh s') Q'
    \<and> insert (ecr s) (insert (ebr s) (inbox_roots s)) \<subseteq> dom Q'
    \<and> closed (conns s' c) = 1 \<and> sendbuf (conns s' c) = Some b \<and> inq Q' (ebr s) (BufQ b)
    \<and> (\<forall>r. \<not> inq Q' r (ConnQ c))
    \<and> (processed (conns s c) = received (conns s c) \<longrightarrow> inflight Q' s' c = {})
    \<and> (\<forall>(t :: 'w srv) ret t'. sendbuf (conns t c) = Some b \<longrightarrow> handle_accept k t = Inr (ret, t')
         \<longrightarrow> sendbuf (conns t' c) = Some b)"
proof -
  from srv_reach_inv [OF assms(1,2)] obtain Q where
    Q: "srv_inv (set bs) (set cs) Q s" "R = {c. is_open (set cs) Q s c}" .
  note I = srv_invD [OF Q(1)] and pools = ctx_ok_pools [OF srv_invD(4) [OF Q(1)]]
  have op: "is_open (set cs) Q s c" using Q(2) assms(3) by simp
  have "card (set bs) < n" using assms(2) card_length [of bs] by (auto simp: env_ok_def)
  from finish_sending [OF Q(1) op assms(4) this, of k] obtain s' es ns where
    f: "finish_connection n k c s = Inr (0, s')" and e: "Q (ebr s) = Some es" "Q (RSend c) = Some ns"
    and q: "qrep (qh s') (Q(ebr s \<mapsto> es @ freed (conns s c) ns, RSend c \<mapsto> []))"
    and x: "same_ctx s s'" "bufs s' = bufs s" "closed (conns s' c) = 1" "sendbuf (conns s' c) = Some b"
    by blast
  let ?Q = "Q(ebr s \<mapsto> es @ freed (conns s c) ns, RSend c \<mapsto> [])"
  have roots: "r \<noteq> RSend c" "r \<noteq> ebr s" if "r \<in> inbox_roots s" for r
    using that pools(5) ctx_ok_distinct(1) [OF I(4)] by auto
  have "insert (ecr s) (insert (ebr s) (inbox_roots s)) \<subseteq> dom ?Q"
    using I(5) by (auto simp: queues_ok_def)
  moreover have "inq ?Q (ebr s) (BufQ b)" using pools(7) assms(4) by (simp add: inq_def)
  moreover have "\<forall>r. \<not> inq ?Q r (ConnQ c)" using finish_sending_lost [OF Q(1) op e] by blast
  moreover have "inflight ?Q s' c = {}" if eq: "processed (conns s c) = received (conns s c)"
  proof -
    have "inflight ?Q s' c = inflight Q s c"
      using roots by (auto simp: inflight_def inq_def x(2) same_ctx_roots(5) [OF x(1)])
    moreover have "(of_nat (card (inflight Q s c)) :: u64) = 0"
      using conns_okD(2) [OF I(9), of c] op eq by (simp add: live_ok_def is_open_def)
    ultimately show ?thesis
      using count_zero [OF below_33 [OF finite_inflight(2) [OF I(6,1)] I(2)], of c]
        finite_inflight(1) [OF I(6,1), of c] by simp
  qed
  ultimately show ?thesis
    using f q x(3,4) handle_accept_sendbuf [of k] by (intro exI [of _ s'] exI [of _ ?Q]) metis
qed

theorem finish_while_sending_witness:
  "\<exists>s s' Q'. srv_reach demo_fuel (echo_kernel 10) demo_sha tick_clock [0, 1] [0] (s, {0})
    \<and> finish_connection demo_fuel (echo_kernel 10) 0 s = Inr (0, s') \<and> qrep (qh s') Q'
    \<and> closed (conns s' 0) = 1 \<and> (\<forall>r. \<not> inq Q' r (ConnQ 0)) \<and> inflight Q' s' 0 = {}"
proof -
  obtain h bf where reach: "srv_reach demo_fuel (echo_kernel 10) demo_sha tick_clock [0, 1] [0]
      (demo_at h 1 conn_partial bf 52, {0})" by (rule demo_sending)
  have "sendbuf conn_partial = Some 0" "processed conn_partial = received conn_partial"
    by (simp_all add: conn_partial_def conn_ready_def conn_recvd_def)
  with finish_while_sending [OF reach echo_env2, of 0 0] reach show ?thesis by auto
qed

text \<open>C16 (error): the IO worker serves a connection it has just torn down. In any reachable
  state, when an event reports both directions and the send of a response in transfer
  fails, \<open>handle_response\<close> closes the descriptor and gives the buffer back, and returns 0,
  which the worker takes for success: it goes on with \<open>handle_request\<close> on the closed
  connection, whose buffers are in the pool. If a request was being received and the
  receive fails, the connection is torn down a second time, and both buffers are put into
  the pool again.\<close>

theorem io_event_after_teardown:
  assumes "srv_reach n k sha1 clock bs cs (s, R)" and "env_ok (length bs) n k sha1 clock now"
    and "c \<in> R" and "sendbuf (conns s c) = Some b" and "send_fails k c s"
    and "ev_data ev = DataPtr c" and "ev_events ev = EPOLLIN OR EPOLLOUT"
  shows "\<exists>s1 Q1. io_event n k ev s = bind_res (handle_request n k c s1) (\<lambda>(_, s). Inr (None, s))
    \<and> qrep (qh s1) Q1 \<and> closed (conns s1 c) = 1 \<and> conn_lock (conns s1 c) = 0
    \<and> fd (conns s1 c) = fd (conns s c) \<and> sendbuf (conns s1 c) = Some b \<and> inq Q1 (ebr s) (BufQ b)
    \<and> recvbuf (conns s1 c) = recvbuf (conns s c)
    \<and> (\<forall>r. recvbuf (conns s c) = Some r \<longrightarrow> inq Q1 (ebr s) (BufQ r)
        \<and> (recv_fails k c s1 \<longrightarrow> (\<exists>s2. handle_request n k c s1 = finish_connection n k c s2
             \<and> conns s2 = conns s1 \<and> qh s2 = qh s1)))"
proof -
  from srv_reach_inv [OF assms(1,2)] obtain Q where
    Q: "srv_inv (set bs) (set cs) Q s" "R = {c. is_open (set cs) Q s c}" .
  note I = srv_invD [OF Q(1)] and pools = ctx_ok_pools [OF srv_invD(4) [OF Q(1)]]
  have op: "is_open (set cs) Q s c" using Q(2) assms(3) by simp
  have n: "card (set bs) < n" using assms(2) card_length [of bs] by (auto simp: env_ok_def)
  then obtain m where m: "n = Suc m" by (cases n) auto
  from response_fails [OF Q(1) op assms(4,5), of n] obtain s0 where
    h: "handle_response_round n k c s = bind_res (finish_connection n k c s0) (\<lambda>(r, s). Inr (Some r, s))"
    and s0: "same_ctx s s0" "conns s0 = conns s" "bufs s0 = bufs s" "qh s0 = qh s" by blast
  have inv0: "srv_inv (set bs) (set cs) Q s0" by (rule srv_inv_cong [OF Q(1) s0(1-3)]) (use I(3) s0(4) in simp)
  have op0: "is_open (set cs) Q s0 c"
    using op by (simp add: is_open_def is_live_def s0(2) same_ctx_roots [OF s0(1)])
  from finish_sending [OF inv0 op0 _ n, of b k] assms(4) obtain s1 es ns where
    f: "finish_connection n k c s0 = Inr (0, s1)"
    and q: "qrep (qh s1) (Q(ebr s0 \<mapsto> es @ freed (conns s0 c) ns, RSend c \<mapsto> []))"
    and x: "closed (conns s1 c) = 1" "conn_lock (conns s1 c) = 0" "sendbuf (conns s1 c) = Some b"
      "recvbuf (conns s1 c) = recvbuf (conns s0 c)" "fd (conns s1 c) = fd (conns s0 c)"
    unfolding s0(2) by blast
  let ?Q = "Q(ebr s0 \<mapsto> es @ freed (conns s0 c) ns, RSend c \<mapsto> [])"
  have r: "ebr s0 = ebr s" by (simp add: same_ctx_roots [OF s0(1)])
  have b: "inq ?Q (ebr s) (BufQ b)" using pools(7) assms(4) by (simp add: inq_def r s0(2))
  have "handle_response n k c s = Inr (0, s1)" by (simp add: handle_response_def m h [unfolded m] f [unfolded m])
  then have "io_event n k ev s = bind_res (handle_request n k c s1) (\<lambda>(_, s). Inr (None, s))"
    by (simp add: io_event_def assms(6,7) linux_consts)
  moreover have "inq ?Q (ebr s) (BufQ p)
        \<and> (recv_fails k c s1 \<longrightarrow> (\<exists>s2. handle_request n k c s1 = finish_connection n k c s2
             \<and> conns s2 = conns s1 \<and> qh s2 = qh s1))" if p: "recvbuf (conns s c) = Some p" for p
  proof
    show "inq ?Q (ebr s) (BufQ p)" using pools(7) p by (simp add: inq_def r s0(2))
    have "recvbuf (conns s1 c) = Some p" using x(4) p s0(2) by simp
    from request_fails [OF this, of k m] show "recv_fails k c s1 \<longrightarrow>
      (\<exists>s2. handle_request n k c s1 = finish_connection n k c s2 \<and> conns s2 = conns s1 \<and> qh s2 = qh s1)"
      unfolding m by blast
  qed
  ultimately show ?thesis
    using q x b by (intro exI [of _ s1] exI [of _ ?Q]) (simp add: s0(2))
qed

theorem io_event_after_teardown_witness:
  "\<exists>s s1. srv_reach demo_fuel (echo_kernel 10) demo_sha tick_clock [0, 1] [0] (s, {0})
    \<and> io_event demo_fuel (echo_kernel 10) \<lparr>ev_events = EPOLLIN OR EPOLLOUT, ev_data = DataPtr 0\<rparr> s
        = bind_res (handle_request demo_fuel (echo_kernel 10) 0 s1) (\<lambda>(_, s). Inr (None, s))
    \<and> closed (conns s1 0) = 1"
proof -
  obtain h bf where reach: "srv_reach demo_fuel (echo_kernel 10) demo_sha tick_clock [0, 1] [0]
      (demo_at h 1 conn_partial bf 52, {0})" by (rule demo_sending)
  have sb: "sendbuf conn_partial = Some 0" by (simp add: conn_partial_def)
  have "send_fails (echo_kernel 10) 0 (demo_at h 1 conn_partial bf 52)"
    by (simp add: send_fails_def sys_def Z_send_def Z_syscall_enter SYSCALL_RETURN_def linux_consts)
  with io_event_after_teardown [OF reach echo_env2, of 0 0 "\<lparr>ev_events = EPOLLIN OR EPOLLOUT, ev_data = DataPtr 0\<rparr>"]
    sb reach show ?thesis by auto
qed

text \<open>C17 (error): an \<open>accept\<close> that fails costs a connection object. In any reachable state in
  which the pool has one to give, \<open>handle_accept\<close> takes it before it knows whether there is
  a session; when the call fails it returns -1, the object unchanged and in no queue, and
  not one of the registered connections: it is lost.\<close>

theorem accept_failure_loses_connection:
  assumes "srv_reach n k sha1 clock bs cs (s, R)" and "env_ok (length bs) n k sha1 clock now"
    and "srv_get (empty_connections (queues s)) s = Inr (Ptr (ConnQ c), s0)" and "\<not> accepts k s"
  shows "\<exists>s' Q'. handle_accept k s = Inr (-1, s') \<and> qrep (qh s') Q'
    \<and> insert (ecr s) (insert (ebr s) (inbox_roots s)) \<subseteq> dom Q'
    \<and> (\<forall>r. \<not> inq Q' r (ConnQ c)) \<and> c \<notin> R \<and> conns s' = conns s \<and> inflight Q' s' c = {}"
proof -
  from srv_reach_inv [OF assms(1,2)] obtain Q where
    Q: "srv_inv (set bs) (set cs) Q s" "R = {c. is_open (set cs) Q s c}" .
  note I = srv_invD [OF Q(1)] and pools = ctx_ok_pools [OF srv_invD(4) [OF Q(1)]]
  from pool_get(2) [OF Q(1) assms(3)] obtain ns where ns: "Q (ecr s) = Some (ConnQ c # ns)" by blast
  then have "inq Q (ecr s) (ConnQ c)" by (rule inq_first)
  then have live: "\<not> is_live (set cs) Q s c" by (simp add: is_live_def)
  from srv_get_first [OF I(3) ns] obtain h where
    g: "srv_get (Some (ecr s)) s = Inr (Ptr (ConnQ c), s\<lparr>qh := h\<rparr>)" "qrep h (Q(ecr s \<mapsto> ns))" .
  define s' where "s' = snd (sys (Z_accept4 k (listen_fd (io s)) SOCK_NONBLOCK) (s\<lparr>qh := h\<rparr>))"
  have "sr_ret (fst (sys (Z_accept4 k (listen_fd (io s)) SOCK_NONBLOCK) (s\<lparr>qh := h\<rparr>))) < 0"
    using assms(4) by (auto simp: accepts_def sys_def split: prod.splits)
  then have "handle_accept k s = Inr (-1, s')"
    using g(1) pools(1) by (simp add: handle_accept_def s'_def Let_def split_beta)
  moreover have "qrep (qh s') (Q(ecr s \<mapsto> ns))" "conns s' = conns s" "bufs s' = bufs s" "same_ctx s s'"
    using g(2) by (simp_all add: s'_def same_ctx_def)
  moreover have "\<forall>r. \<not> inq (Q(ecr s \<mapsto> ns)) r (ConnQ c)"
    using inq_get [OF I(3) ns] inq_unique [OF I(3) inq_first [of Q, OF ns]] by blast
  moreover have "insert (ecr s) (insert (ebr s) (inbox_roots s)) \<subseteq> dom (Q(ecr s \<mapsto> ns))"
    using I(5) by (auto simp: queues_ok_def)
  moreover have "c \<notin> R" using live by (simp add: Q(2) is_open_def)
  moreover have "inflight (Q(ecr s \<mapsto> ns)) s' c = inflight Q s c"
  proof -
    have "r \<noteq> ecr s" if "r \<in> inbox_roots s" for r using that pools(4) by blast
    then have "inq (Q(ecr s \<mapsto> ns)) r m = inq Q r m" if "r \<in> inbox_roots s" for r m
      using that by (simp add: inq_def)
    then show ?thesis
      using calculation(4) same_ctx_roots(5) [OF calculation(5)] by (auto simp: inflight_def)
  qed
  moreover have "inflight Q s c = {}" using live inflight_live [OF I(7)] by blast
  ultimately show ?thesis by (intro exI [of _ s'] exI [of _ "Q(ecr s \<mapsto> ns)"]) simp
qed

text \<open>A kernel that refuses every call.\<close>

definition refusing_kernel :: "nat kernel" where
  "refusing_kernel = (let f = (\<lambda>req w. (\<lparr>sr_ret = -24, sr_bytes = [], sr_events = []\<rparr>, w))
     in \<lparr>k_syscall = f, k_gate = f, k_cs = (\<lambda>_. 3)\<rparr>)"

lemma refusing_env:
  "env_ok (length [0 :: nat, 1]) demo_fuel refusing_kernel demo_sha tick_clock
     (\<lambda>w. int w * 1000000000 + 5)"
proof -
  have "recv_contract refusing_kernel" "send_contract refusing_kernel"
    by (auto simp: recv_contract_def send_contract_def refusing_kernel_def enter_def Let_def)
  then have "env_ok 2 demo_fuel refusing_kernel demo_sha tick_clock (\<lambda>w. int w * 1000000000 + 5)"
    by (simp add: env_ok_def sha_length_def tick_clock_advances)
  then show ?thesis by (simp add: numeral_2_eq_2)
qed

theorem accept_failure_loses_connection_witness:
  "\<exists>s s' Q'. srv_reach demo_fuel refusing_kernel demo_sha tick_clock [0, 1] [0] (s, {})
    \<and> handle_accept refusing_kernel s = Inr (-1, s') \<and> qrep (qh s') Q' \<and> (\<forall>r. \<not> inq Q' r (ConnQ 0))"
proof -
  from demo_filled_rep obtain h where h: "qrep h (demo_q [ConnQ 0] [BufQ 0, BufQ 1] [] [])" by blast
  have s: "cfg (demo_srv h) = demo_cfg" "qh (demo_srv h) = h"
      "empty_connections (queues (demo_srv h)) = Some (RHeap 0)"
    by (simp_all add: demo_srv_def)
  have reach: "srv_reach demo_fuel refusing_kernel demo_sha tick_clock [0, 1] [0] (demo_srv h, {})"
    unfolding srv_reach_def using demo_start [OF h] srv_run.none s(1)
    by (intro exI [of _ "demo_srv h"] exI [of _ "[]"]) simp
  have "qrep (qh (demo_srv h)) (demo_q [ConnQ 0] [BufQ 0, BufQ 1] [] [])" using h s(2) by simp
  from srv_get_first [OF this, of "RHeap 0"] obtain h1 where
    g: "srv_get (empty_connections (queues (demo_srv h))) (demo_srv h)
      = Inr (Ptr (ConnQ 0), (demo_srv h)\<lparr>qh := h1\<rparr>)" by (auto simp: s(3))
  have "\<not> accepts refusing_kernel (demo_srv h)"
    by (simp add: accepts_def Z_accept4_def Z_syscall_enter enter_def refusing_kernel_def Let_def SYSCALL_RETURN_def)
  from accept_failure_loses_connection [OF reach refusing_env g this] reach show ?thesis by blast
qed



end
