(* ===== verification/Memory.thy ===== *)
theory Memory
  imports Prelude
begin

section \<open>Allocation, counted loops and C strings\<close>

text \<open>
  What start-up and shut-down code of both programs uses of the C library: the allocator,
  \<open>for\<close> loops that stop at the first error, NUL-terminated strings and decimal numerals.
\<close>

subsection \<open>The allocator\<close>

text \<open>
  An object is named by the number of the allocation that made it; \<open>ok\<close> says which
  allocations succeed. Freeing NULL does nothing; freeing what was not allocated, or
  freeing twice, is an invalid access.
\<close>

record alloc_state =
  n_alloc :: nat
  live_objs :: "nat list"

definition alloc :: "(nat \<Rightarrow> bool) \<Rightarrow> alloc_state \<Rightarrow> nat option \<times> alloc_state" where
  "alloc ok m =
     (let a = n_alloc m; m = m\<lparr>n_alloc := a + 1\<rparr> in
      if ok a then (Some a, m\<lparr>live_objs := a # live_objs m\<rparr>) else (None, m))"

definition free :: "nat option \<Rightarrow> alloc_state \<Rightarrow> alloc_state res" where
  "free p m =
     (case p of
        None \<Rightarrow> Inr m
      | Some a \<Rightarrow>
          if a \<in> set (live_objs m) then Inr (m\<lparr>live_objs := removeAll a (live_objs m)\<rparr>)
          else Inl Fault)"

text \<open>What a client may free.\<close>

definition allocated :: "alloc_state \<Rightarrow> nat set" where
  "allocated m = set (live_objs m)"

definition mem_ok :: "alloc_state \<Rightarrow> bool" where
  "mem_ok m \<longleftrightarrow> (\<forall>a \<in> set (live_objs m). a < n_alloc m)"

text \<open>
  The contract of an allocator: a new object is no live one, and freeing removes exactly
  the object freed.
\<close>

locale allocator =
  fixes new :: "'m \<Rightarrow> nat option \<times> 'm" and release :: "nat option \<Rightarrow> 'm \<Rightarrow> 'm res"
    and live :: "'m \<Rightarrow> nat set" and ok :: "'m \<Rightarrow> bool"
  assumes new_none: "ok m \<Longrightarrow> new m = (None, m') \<Longrightarrow> ok m' \<and> live m' = live m"
    and new_some: "ok m \<Longrightarrow> new m = (Some a, m') \<Longrightarrow> ok m' \<and> a \<notin> live m \<and> live m' = insert a (live m)"
    and release_live: "ok m \<Longrightarrow> a \<in> live m
      \<Longrightarrow> \<exists>m'. release (Some a) m = Inr m' \<and> ok m' \<and> live m' = live m - {a}"
    and release_dead: "ok m \<Longrightarrow> a \<notin> live m \<Longrightarrow> release (Some a) m = Inl Fault"
    and release_null: "release None m = Inr m"
begin

text \<open>Freeing a list of distinct live objects frees exactly them.\<close>

lemma release_all:
  assumes "ok m" and "distinct as" and "set as \<subseteq> live m"
  shows "\<exists>m'. fold (\<lambda>a r. bind_res r (release (Some a))) as (Inr m) = Inr m'
    \<and> ok m' \<and> live m' = live m - set as"
  using assms
proof (induction as arbitrary: m)
  case (Cons a as)
  then obtain m1 where 1: "release (Some a) m = Inr m1" "ok m1" "live m1 = live m - {a}"
    using release_live [of m a] by auto
  have "set as \<subseteq> live m1" using Cons.prems 1(3) by auto
  from Cons.IH [OF 1(2) _ this] Cons.prems(2) obtain m' where
    "fold (\<lambda>a r. bind_res r (release (Some a))) as (Inr m1) = Inr m'" "ok m'"
    "live m' = live m1 - set as" by auto
  with 1 show ?case by auto
qed simp

text \<open>Freeing an object twice is caught.\<close>

lemma double_release:
  assumes "ok m" and "a \<in> live m"
  shows "bind_res (release (Some a) m) (release (Some a)) = Inl Fault"
  using release_live [OF assms] release_dead by fastforce

end

interpretation heap: allocator "alloc av" free allocated mem_ok for av
  by unfold_locales
    (auto simp: alloc_def free_def allocated_def mem_ok_def Let_def less_Suc_eq split: if_splits)

subsection \<open>Counted loops\<close>

text \<open>
  \<open>for_res k i body s\<close> runs \<open>body\<close> for \<open>i\<close>, \<open>i\<close> + 1, ... \<open>k\<close> times, and stops at the first
  body that returns a nonzero value, which it returns.
\<close>

fun for_res :: "nat \<Rightarrow> nat \<Rightarrow> (nat \<Rightarrow> 's \<Rightarrow> (int \<times> 's) res) \<Rightarrow> 's \<Rightarrow> (int \<times> 's) res" where
  "for_res 0 i body s = Inr (0, s)"
| "for_res (Suc k) i body s =
     bind_res (body i s) (\<lambda>(r, s). if r \<noteq> 0 then Inr (r, s) else for_res k (Suc i) body s)"

lemma for_res_numeral:
  "for_res (numeral v) i body s =
     bind_res (body i s) (\<lambda>(r, s). if r \<noteq> 0 then Inr (r, s) else for_res (pred_numeral v) (Suc i) body s)"
  by (simp add: numeral_eq_Suc)

text \<open>A finished loop has run every body, each on what the one before left.\<close>

lemma for_res_steps:
  assumes "for_res k i body s = Inr (0, s')" and "P i s"
    and "\<And>j s s1. i \<le> j \<Longrightarrow> j < i + k \<Longrightarrow> P j s \<Longrightarrow> body j s = Inr (0, s1) \<Longrightarrow> P (Suc j) s1"
  shows "P (i + k) s'"
  using assms
proof (induction k arbitrary: i s)
  case (Suc k)
  from Suc.prems(1) obtain s1 where b: "body i s = Inr (0, s1)"
    and r: "for_res k (Suc i) body s1 = Inr (0, s')"
    by (auto simp: bind_res_Inr_iff split: if_splits)
  have "P (Suc i) s1" using Suc.prems(2,3) b by auto
  from Suc.IH [OF r this] Suc.prems(3) show ?case by auto
qed simp

lemma for_res_steps0:
  assumes "for_res k 0 body s = Inr (0, s')" and "P 0 s"
    and "\<And>j s s1. P j s \<Longrightarrow> body j s = Inr (0, s1) \<Longrightarrow> P (Suc j) s1"
  shows "P k s'"
  using for_res_steps [of k 0 body s s' P] assms by simp

text \<open>Bodies that all succeed make the loop succeed.\<close>

lemma for_res_total:
  assumes "P i s"
    and "\<And>j s. i \<le> j \<Longrightarrow> j < i + k \<Longrightarrow> P j s \<Longrightarrow> \<exists>s1. body j s = Inr (0, s1) \<and> P (Suc j) s1"
  shows "\<exists>s'. for_res k i body s = Inr (0, s') \<and> P (i + k) s'"
  using assms
proof (induction k arbitrary: i s)
  case (Suc k)
  then obtain s1 where b: "body i s = Inr (0, s1)" "P (Suc i) s1" by fastforce
  have "\<exists>s'. for_res k (Suc i) body s1 = Inr (0, s') \<and> P (Suc i + k) s'"
    by (rule Suc.IH [OF b(2)]) (use Suc.prems(2) in auto)
  with b(1) show ?case by auto
qed simp

lemma for_res_total0:
  assumes "P 0 s" and "\<And>j s. P j s \<Longrightarrow> j < k \<Longrightarrow> \<exists>s1. body j s = Inr (0, s1)"
    and "\<And>j s s1. P j s \<Longrightarrow> body j s = Inr (0, s1) \<Longrightarrow> P (Suc j) s1"
  shows "\<exists>s'. for_res k 0 body s = Inr (0, s') \<and> P k s'"
proof -
  have "\<exists>s'. for_res k 0 body s = Inr (0, s') \<and> P (0 + k) s'"
  proof (rule for_res_total [where P = P, OF assms(1)])
    fix j s assume "P j s" "j < 0 + k"
    with assms(2) obtain s1 where "body j s = Inr (0, s1)" by auto
    with assms(3) [OF \<open>P j s\<close>] show "\<exists>s1. body j s = Inr (0, s1) \<and> P (Suc j) s1" by blast
  qed
  then show ?thesis by simp
qed

text \<open>What every body keeps, the loop keeps, however it is left.\<close>

lemma for_res_keeps:
  assumes "for_res k i body s = Inr (r, s')" and "P s"
    and "\<And>j s r s1. P s \<Longrightarrow> body j s = Inr (r, s1) \<Longrightarrow> P s1"
  shows "P s'"
  using assms(1,2)
proof (induction k arbitrary: i s)
  case (Suc k)
  then obtain r1 s1 where b: "body i s = Inr (r1, s1)"
    and c: "(if r1 \<noteq> 0 then Inr (r1, s1) else for_res k (Suc i) body s1) = Inr (r, s')"
    by (auto simp: bind_res_Inr_iff)
  have "P s1" by (rule assms(3) [OF Suc.prems(2) b])
  with c Suc.IH [of "Suc i" s1] show ?case by (simp split: if_splits)
qed simp

text \<open>A loop whose bodies only compute is a fold.\<close>

lemma for_res_fold:
  assumes "\<And>j a. i \<le> j \<Longrightarrow> j < i + k \<Longrightarrow> body j a = Inr (0, g j a)"
  shows "for_res k i body a = Inr (0, fold g [i..<i + k] a)"
  using assms
proof (induction k arbitrary: i a)
  case (Suc k)
  have "for_res k (Suc i) body (g i a) = Inr (0, fold g [Suc i..<Suc i + k] (g i a))"
    by (rule Suc.IH) (use Suc.prems in auto)
  moreover have "[i..<i + Suc k] = i # [Suc i..<Suc i + k]" by (simp add: upt_conv_Cons del: upt_Suc)
  ultimately show ?case using Suc.prems [of i a] by (simp del: upt_Suc)
qed simp

text \<open>Bodies that never return an error leave the loop with 0.\<close>

lemma for_res_zero:
  assumes "for_res k i body s = Inr (r, s')" and "\<And>j s r s'. body j s = Inr (r, s') \<Longrightarrow> r = 0"
  shows "r = 0"
  using assms(1)
proof (induction k arbitrary: i s)
  case (Suc k)
  then obtain r1 s1 where b: "body i s = Inr (r1, s1)"
    and c: "(if r1 \<noteq> 0 then Inr (r1, s1) else for_res k (Suc i) body s1) = Inr (r, s')"
    by (auto simp: bind_res_Inr_iff)
  with assms(2) [OF b] Suc.IH show ?case by simp
qed simp

subsection \<open>C strings\<close>

text \<open>The characters before the first NUL; a string without one runs out of its array.\<close>

definition c_string :: "byte list \<Rightarrow> byte list res" where
  "c_string m = (if 0 \<in> set m then Inr (takeWhile (\<lambda>b. b \<noteq> 0) m) else Inl Fault)"

lemma c_string_append: "0 \<notin> set bs \<Longrightarrow> c_string (bs @ 0 # r) = Inr bs"
proof -
  assume "0 \<notin> set bs"
  then have "takeWhile (\<lambda>b. b \<noteq> 0) (bs @ 0 # r) = bs" by (induction bs) auto
  then show ?thesis by (simp add: c_string_def)
qed

text \<open>\<open>strcpy\<close> into an array of \<open>n\<close> zeroed bytes, and \<open>strncpy\<close> of \<open>n\<close> bytes.\<close>

definition strcpy :: "nat \<Rightarrow> byte list \<Rightarrow> byte list res" where
  "strcpy n m = bind_res (c_string m) (\<lambda>cs.
     if length cs < n then Inr (cs @ replicate (n - length cs) 0) else Inl Fault)"

definition strncpy :: "nat \<Rightarrow> byte list \<Rightarrow> byte list" where
  "strncpy n m = (let cs = take n (takeWhile (\<lambda>b. b \<noteq> 0) m) in cs @ replicate (n - length cs) 0)"

lemma strncpy_length [simp]: "length (strncpy n m) = n"
  by (simp add: strncpy_def Let_def)

text \<open>Where the copy fits, both store the same bytes.\<close>

lemma strcpy_strncpy: "strcpy n m = Inr bs \<Longrightarrow> strncpy n m = bs"
  by (auto simp: strcpy_def strncpy_def c_string_def bind_res_Inr_iff split: if_splits)

subsection \<open>Decimal numerals\<close>

definition is_digit :: "char \<Rightarrow> bool" where
  "is_digit c \<longleftrightarrow> (of_char c :: nat) \<in> {48..57}"

fun digits_val :: "nat \<Rightarrow> string \<Rightarrow> nat" where
  "digits_val n [] = n"
| "digits_val n (c # cs) = digits_val (10 * n + (of_char c - 48)) cs"

text \<open>The numeral \<open>printf\<close> writes for \<open>%u\<close>.\<close>

fun decimal :: "nat \<Rightarrow> string" where
  "decimal n = (if n < 10 then [] else decimal (n div 10)) @ [char_of (48 + n mod 10)]"

declare decimal.simps [simp del]

lemma of_char_digit [simp]: "of_char (char_of (48 + n mod 10)) = (48 + n mod 10 :: nat)"
proof -
  have "48 + n mod 10 < (256 :: nat)" using mod_less_divisor [of 10 n] by linarith
  then show ?thesis by simp
qed

lemma decimal_digits: "set (decimal n) \<subseteq> Collect is_digit"
proof (induction n rule: decimal.induct)
  case (1 n)
  have "is_digit (char_of (48 + n mod 10))"
    using mod_less_divisor [of 10 n] by (simp add: is_digit_def)
  with 1 show ?case by (subst decimal.simps) auto
qed

lemma decimal_ne [simp]: "decimal n \<noteq> []"
  by (subst decimal.simps) simp

lemma digits_val_append: "digits_val n (xs @ ys) = digits_val (digits_val n xs) ys"
  by (induction n xs rule: digits_val.induct) auto

text \<open>Reading a printed numeral gives the number back.\<close>

lemma digits_val_decimal: "digits_val 0 (decimal n) = n"
proof (induction n rule: decimal.induct)
  case (1 n)
  then show ?case by (subst decimal.simps) (auto simp: digits_val_append)
qed

end
