(* ===== verification/Thread.thy ===== *)
theory Thread
  imports Memory
begin

section \<open>Threads and thread groups (src/thread.c, include/thread.h)\<close>

text \<open>
  Creating and joining threads, alone or as a group whose members know their number. What
  \<open>calloc\<close>, \<open>eventfd\<close> and \<open>pthread_create\<close> return is the environment: the results for one
  thread are looked up under the address of its \<open>thread_info_t\<close>. The function a thread
  runs and its argument are of any types.
\<close>

subsection \<open>State\<close>

definition THREAD_NAME_MAX :: nat where "THREAD_NAME_MAX = 64"
definition THREAD_GROUP_MAX :: nat where "THREAD_GROUP_MAX = 64"

record thread_group_info_t =
  total :: u32
  current :: u32

record ('f, 'a) thread_info_t =
  ti_name :: string
  ti_func :: 'f
  ti_arg :: 'a
  ti_ret :: int
  wakefd :: int
  returned :: int
  group_info :: thread_group_info_t

record thread_group_t =
  tg_n :: nat
  tg_threads :: "nat option list"

text \<open>The allocator, the live \<open>thread_info_t\<close>s, what was started and what was closed.\<close>

record ('f, 'a) threads =
  th_mem :: alloc_state
  infos :: "nat \<rightharpoonup> ('f, 'a) thread_info_t"
  started :: "nat list"
  th_closed :: "int list"

record thread_env =
  mem_av :: "nat \<Rightarrow> bool"
  eventfd_ret :: "nat \<Rightarrow> int"
  create_ret :: "nat \<Rightarrow> int"

definition DEFAULT_GROUP_INFO :: thread_group_info_t where
  "DEFAULT_GROUP_INFO = \<lparr>total = 1, current = 1\<rparr>"

subsection \<open>Operations\<close>

text \<open>The inner function \<open>__create_thread\<close>; \<open>None\<close> is NULL.\<close>

definition do_create_thread ::
  "thread_env \<Rightarrow> string \<Rightarrow> 'f \<Rightarrow> 'a \<Rightarrow> thread_group_info_t \<Rightarrow> ('f, 'a) threads
    \<Rightarrow> (nat option \<times> ('f, 'a) threads) res" where
  "do_create_thread env name start_routine arg gi s =
     (case alloc (mem_av env) (th_mem s) of
        (None, m) \<Rightarrow> Inr (None, s\<lparr>th_mem := m\<rparr>)
      | (Some ti, m) \<Rightarrow>
          let x = \<lparr>ti_name = take THREAD_NAME_MAX name, ti_func = start_routine, ti_arg = arg,
                   ti_ret = 0, wakefd = eventfd_ret env ti, returned = 0,
                   group_info = \<lparr>total = 0, current = 0\<rparr>\<rparr>;
              s = s\<lparr>th_mem := m\<rparr> in
          if wakefd x < 0 then
            bind_res (free (Some ti) (th_mem s)) (\<lambda>m. Inr (None, s\<lparr>th_mem := m\<rparr>))
          else
            let x = x\<lparr>group_info := gi\<rparr> in
            if create_ret env ti = 0 then
              Inr (Some ti, s\<lparr>infos := (infos s)(ti \<mapsto> x), started := started s @ [ti]\<rparr>)
            else
              let s = s\<lparr>th_closed := th_closed s @ [wakefd x]\<rparr> in
              bind_res (free (Some ti) (th_mem s)) (\<lambda>m. Inr (None, s\<lparr>th_mem := m\<rparr>)))"

definition create_thread ::
  "thread_env \<Rightarrow> string \<Rightarrow> 'f \<Rightarrow> 'a \<Rightarrow> ('f, 'a) threads \<Rightarrow> (nat option \<times> ('f, 'a) threads) res"
where
  "create_thread env name start_routine arg s =
     do_create_thread env name start_routine arg DEFAULT_GROUP_INFO s"

text \<open>
  What runs in the new thread: the start routine on its argument and its own information
  (\<open>privsancall\<close> is an indirect call), then the result and the flag are stored.
\<close>

definition thread_wrapper ::
  "('f \<Rightarrow> 'a \<Rightarrow> thread_group_info_t \<Rightarrow> int) \<Rightarrow> nat \<Rightarrow> ('f, 'a) threads \<Rightarrow> ('f, 'a) threads res" where
  "thread_wrapper run ti s =
     bind_res (deref (infos s ti)) (\<lambda>x.
       let r = run (ti_func x) (ti_arg x) (group_info x) in
       Inr (s\<lparr>infos := (infos s)(ti \<mapsto> x\<lparr>ti_ret := r, returned := 1\<rparr>)\<rparr>))"

text \<open>
  \<open>thread_join\<close> waits (\<open>Spin\<close>, while the thread has not finished), closes the event
  descriptor, frees the information, and only then reads the result from it: \<open>stale x\<close> is
  what the freed memory of \<open>x\<close> holds. The 4-byte \<open>write\<close> to the event descriptor at the
  start has no effect: an event descriptor takes 8 bytes.
\<close>

definition thread_join ::
  "(('f, 'a) thread_info_t \<Rightarrow> int) \<Rightarrow> nat \<Rightarrow> ('f, 'a) threads \<Rightarrow> (int \<times> ('f, 'a) threads) res"
where
  "thread_join stale ti s =
     bind_res (deref (infos s ti)) (\<lambda>x.
       if returned x = 0 then Inl Spin
       else
         bind_res (free (Some ti) (th_mem s)) (\<lambda>m.
           Inr (stale x, s\<lparr>th_mem := m, infos := (infos s)(ti := None),
                          th_closed := th_closed s @ [wakefd x]\<rparr>)))"

text \<open>The name of a member, cut by \<open>snprintf\<close>.\<close>

definition member_name :: "string \<Rightarrow> nat \<Rightarrow> string" where
  "member_name prefix i = take (THREAD_NAME_MAX - 1) (prefix @ '':'' @ decimal i)"

text \<open>
  One round of \<open>thread_group_create\<close>; the array of the group has \<open>THREAD_GROUP_MAX\<close>
  slots, and its bound is not checked.
\<close>

definition group_member ::
  "thread_env \<Rightarrow> string \<Rightarrow> nat \<Rightarrow> 'f \<Rightarrow> 'a \<Rightarrow> nat \<Rightarrow> thread_group_t \<times> ('f, 'a) threads
    \<Rightarrow> (int \<times> thread_group_t \<times> ('f, 'a) threads) res" where
  "group_member env prefix n start_routine arg i = (\<lambda>(g, s).
     bind_res (do_create_thread env (member_name prefix i) start_routine arg
         \<lparr>total = of_nat n, current = of_nat i\<rparr> s) (\<lambda>(t, s).
     bind_res (update_res (tg_threads g) i t) (\<lambda>ts.
       Inr (if t = None then -1 else 0, g\<lparr>tg_threads := ts\<rparr>, s))))"

definition thread_group_create ::
  "thread_env \<Rightarrow> string \<Rightarrow> nat \<Rightarrow> 'f \<Rightarrow> 'a \<Rightarrow> ('f, 'a) threads
    \<Rightarrow> ((nat \<times> thread_group_t) option \<times> ('f, 'a) threads) res" where
  "thread_group_create env prefix n start_routine arg s =
     (case alloc (mem_av env) (th_mem s) of
        (None, m) \<Rightarrow> Inr (None, s\<lparr>th_mem := m\<rparr>)
      | (Some tg, m) \<Rightarrow>
          let g = \<lparr>tg_n = n, tg_threads = replicate THREAD_GROUP_MAX None\<rparr> in
          bind_res (for_res n 0 (group_member env prefix n start_routine arg) (g, s\<lparr>th_mem := m\<rparr>))
            (\<lambda>(err, g, s).
              if err \<noteq> 0 then
                bind_res (free (Some tg) (th_mem s)) (\<lambda>m. Inr (None, s\<lparr>th_mem := m\<rparr>))
              else Inr (Some (tg, g), s)))"

text \<open>
  \<open>thread_group_join\<close> passes over empty slots; the results it can store are listed by
  slot.
\<close>

definition group_join_member ::
  "(('f, 'a) thread_info_t \<Rightarrow> int) \<Rightarrow> thread_group_t \<Rightarrow> nat \<Rightarrow> (nat \<times> int) list \<times> ('f, 'a) threads
    \<Rightarrow> (int \<times> (nat \<times> int) list \<times> ('f, 'a) threads) res" where
  "group_join_member stale g i = (\<lambda>(rs, s).
     bind_res (index_res (tg_threads g) i) (\<lambda>t.
       case t of
         None \<Rightarrow> Inr (0, rs, s)
       | Some ti \<Rightarrow>
           bind_res (thread_join stale ti s) (\<lambda>(r, s). Inr (0, rs @ [(i, r)], s))))"

definition thread_group_join ::
  "(('f, 'a) thread_info_t \<Rightarrow> int) \<Rightarrow> thread_group_t \<Rightarrow> ('f, 'a) threads
    \<Rightarrow> ((nat \<times> int) list \<times> ('f, 'a) threads) res" where
  "thread_group_join stale g s =
     bind_res (for_res (tg_n g) 0 (group_join_member stale g) ([], s)) (\<lambda>(_, rs, s). Inr (rs, s))"

subsection \<open>Creating one thread\<close>

text \<open>The threads' memory is what is allocated and not freed.\<close>

definition threads_ok :: "('f, 'a) threads \<Rightarrow> bool" where
  "threads_ok s \<longleftrightarrow> mem_ok (th_mem s) \<and> dom (infos s) \<subseteq> allocated (th_mem s)"

lemma alloc_free_back:
  assumes "alloc av m = (Some a, m')" and "mem_ok m"
  shows "\<exists>m2. free (Some a) m' = Inr m2 \<and> mem_ok m2 \<and> allocated m2 = allocated m"
proof -
  from heap.new_some [OF assms(2,1)] have
    1: "mem_ok m'" "a \<notin> allocated m" "allocated m' = insert a (allocated m)" by auto
  then show ?thesis using heap.release_live [OF 1(1), of a] by auto
qed

abbreviation new_info ::
  "thread_env \<Rightarrow> string \<Rightarrow> 'f \<Rightarrow> 'a \<Rightarrow> thread_group_info_t \<Rightarrow> nat \<Rightarrow> ('f, 'a) thread_info_t" where
  "new_info env name f a gi ti \<equiv>
     \<lparr>ti_name = take THREAD_NAME_MAX name, ti_func = f, ti_arg = a, ti_ret = 0,
      wakefd = eventfd_ret env ti, returned = 0, group_info = gi\<rparr>"

text \<open>Either nothing but the allocation count has changed, or there is one more thread.\<close>

lemma do_create_thread_step:
  assumes "threads_ok s"
  obtains r s' where "do_create_thread env name f a gi s = Inr (r, s')" and "threads_ok s'"
    and "r = None \<Longrightarrow> infos s' = infos s \<and> started s' = started s
      \<and> allocated (th_mem s') = allocated (th_mem s)"
    and "\<And>ti. r = Some ti \<Longrightarrow> ti \<notin> allocated (th_mem s) \<and> started s' = started s @ [ti]
      \<and> th_closed s' = th_closed s \<and> allocated (th_mem s') = insert ti (allocated (th_mem s))
      \<and> infos s' = (infos s)(ti \<mapsto> new_info env name f a gi ti)"
proof -
  have ok: "mem_ok (th_mem s)" "dom (infos s) \<subseteq> allocated (th_mem s)"
    using assms by (simp_all add: threads_ok_def)
  obtain r m where al: "alloc (mem_av env) (th_mem s) = (r, m)" by fastforce
  show thesis
  proof (cases r)
    case None
    with heap.new_none [OF ok(1)] al ok show thesis
      by (intro that [of None "s\<lparr>th_mem := m\<rparr>"])
        (auto simp: do_create_thread_def threads_ok_def)
  next
    case (Some ti)
    with al have al: "alloc (mem_av env) (th_mem s) = (Some ti, m)" by simp
    from alloc_free_back [OF al ok(1)] obtain m2 where
      m2: "free (Some ti) m = Inr m2" "mem_ok m2" "allocated m2 = allocated (th_mem s)" by blast
    note n = heap.new_some [OF ok(1) al]
    consider "eventfd_ret env ti < 0" | "0 \<le> eventfd_ret env ti" "create_ret env ti = 0"
      | "0 \<le> eventfd_ret env ti" "create_ret env ti \<noteq> 0" by linarith
    then show thesis
    proof cases
      case 1
      with al m2 ok show thesis
        by (intro that [of None "s\<lparr>th_mem := m2\<rparr>"])
          (auto simp: do_create_thread_def threads_ok_def Let_def)
    next
      case 2
      with al n ok show thesis
        by (intro that [of "Some ti" "s\<lparr>th_mem := m,
              infos := (infos s)(ti \<mapsto> new_info env name f a gi ti), started := started s @ [ti]\<rparr>"])
          (auto simp: do_create_thread_def threads_ok_def Let_def)
    next
      case 3
      with al m2 ok show thesis
        by (intro that [of None "s\<lparr>th_mem := m2, th_closed := th_closed s @ [eventfd_ret env ti]\<rparr>"])
          (auto simp: do_create_thread_def threads_ok_def Let_def)
    qed
  qed
qed

subsection \<open>Creating a group\<close>

text \<open>The first \<open>j\<close> members of a group \<open>g\<close> are the threads \<open>ts\<close>, made since state \<open>s0\<close>.\<close>

definition members ::
  "thread_env \<Rightarrow> string \<Rightarrow> nat \<Rightarrow> 'f \<Rightarrow> 'a \<Rightarrow> ('f, 'a) threads \<Rightarrow> nat list \<Rightarrow> nat
    \<Rightarrow> thread_group_t \<times> ('f, 'a) threads \<Rightarrow> bool" where
  "members env prefix n f a s0 ts j = (\<lambda>(g, s).
     threads_ok s \<and> length ts = j \<and> j \<le> THREAD_GROUP_MAX \<and> distinct ts
     \<and> set ts \<inter> allocated (th_mem s0) = {}
     \<and> allocated (th_mem s) = allocated (th_mem s0) \<union> set ts
     \<and> started s = started s0 @ ts
     \<and> tg_n g = n \<and> tg_threads g = map Some ts @ replicate (THREAD_GROUP_MAX - j) None
     \<and> (\<forall>i < j. infos s (ts ! i) = Some (new_info env (member_name prefix i) f a
           \<lparr>total = of_nat n, current = of_nat i\<rparr> (ts ! i)))
     \<and> (\<forall>t. t \<notin> set ts \<longrightarrow> infos s t = infos s0 t))"

lemma membersD:
  assumes "members env prefix n f a s0 ts j (g, s)"
  shows "threads_ok s" "length ts = j" "j \<le> THREAD_GROUP_MAX" "distinct ts"
    "set ts \<inter> allocated (th_mem s0) = {}"
    "allocated (th_mem s) = allocated (th_mem s0) \<union> set ts"
    "started s = started s0 @ ts" "tg_n g = n"
    "tg_threads g = map Some ts @ replicate (THREAD_GROUP_MAX - j) None"
    "\<And>i. i < j \<Longrightarrow> infos s (ts ! i) = Some (new_info env (member_name prefix i) f a
           \<lparr>total = of_nat n, current = of_nat i\<rparr> (ts ! i))"
    "\<And>t. t \<notin> set ts \<Longrightarrow> infos s t = infos s0 t"
  using assms unfolding members_def prod.case by blast+

lemma members_next:
  assumes "members env prefix n f a s0 ts j (g, s)"
  shows "j < THREAD_GROUP_MAX \<Longrightarrow> \<exists>r g' s'. group_member env prefix n f a j (g, s) = Inr (r, g', s')
      \<and> (if r = 0 then \<exists>ti. members env prefix n f a s0 (ts @ [ti]) (Suc j) (g', s')
         else members env prefix n f a s0 ts j (g, s'))"
    and "THREAD_GROUP_MAX \<le> j \<Longrightarrow> group_member env prefix n f a j (g, s) = Inl Fault"
proof -
  note I = membersD [OF assms]
  obtain r s' where
    c: "do_create_thread env (member_name prefix j) f a \<lparr>total = of_nat n, current = of_nat j\<rparr> s = Inr (r, s')"
    and ok: "threads_ok s'"
    and none: "r = None \<Longrightarrow> infos s' = infos s \<and> started s' = started s
      \<and> allocated (th_mem s') = allocated (th_mem s)"
    and some: "\<And>ti. r = Some ti \<Longrightarrow> ti \<notin> allocated (th_mem s) \<and> started s' = started s @ [ti]
      \<and> th_closed s' = th_closed s \<and> allocated (th_mem s') = insert ti (allocated (th_mem s))
      \<and> infos s' = (infos s)(ti \<mapsto> new_info env (member_name prefix j) f a
          \<lparr>total = of_nat n, current = of_nat j\<rparr> ti)"
    by (rule do_create_thread_step [OF I(1), of env "member_name prefix j" f a
        "\<lparr>total = of_nat n, current = of_nat j\<rparr>"]) (rule that)
  have len: "length (tg_threads g) = THREAD_GROUP_MAX" using I(2,3) by (simp add: I(9))
  show "group_member env prefix n f a j (g, s) = Inl Fault" if "THREAD_GROUP_MAX \<le> j"
    using that by (simp add: group_member_def c update_res_fault len)
  assume j: "j < THREAD_GROUP_MAX"
  then have split: "THREAD_GROUP_MAX - j = Suc (THREAD_GROUP_MAX - Suc j)" by simp
  have upd: "(map Some ts @ replicate (THREAD_GROUP_MAX - j) None)[j := r]
      = map Some ts @ r # replicate (THREAD_GROUP_MAX - Suc j) None"
    unfolding split by (simp add: list_update_append I(2))
  have e: "group_member env prefix n f a j (g, s) = Inr (if r = None then -1 else 0,
      g\<lparr>tg_threads := (tg_threads g)[j := r]\<rparr>, s')"
    using j by (simp add: group_member_def c update_res_ok len)
  show "\<exists>r g' s'. group_member env prefix n f a j (g, s) = Inr (r, g', s')
      \<and> (if r = 0 then \<exists>ti. members env prefix n f a s0 (ts @ [ti]) (Suc j) (g', s')
         else members env prefix n f a s0 ts j (g, s'))"
  proof (cases r)
    case None
    then have "members env prefix n f a s0 ts j (g, s')"
      unfolding members_def prod.case using ok none I by simp
    with e None show ?thesis by auto
  next
    case (Some ti)
    note sm = some [OF Some]
    have new: "ti \<notin> set ts" "ti \<notin> allocated (th_mem s0)" using sm I(6) by auto
    have "infos s' ((ts @ [ti]) ! i) = Some (new_info env (member_name prefix i) f a
        \<lparr>total = of_nat n, current = of_nat i\<rparr> ((ts @ [ti]) ! i))" if "i < Suc j" for i
    proof (cases "i = j")
      case True
      then show ?thesis using sm I(2) by (simp add: nth_append)
    next
      case False
      with that have "i < j" by simp
      then have "ts ! i \<noteq> ti" using new(1) I(2) by auto
      then show ?thesis using sm I(2) I(10) [OF \<open>i < j\<close>] \<open>i < j\<close> by (simp add: nth_append)
    qed
    moreover have "tg_threads (g\<lparr>tg_threads := (tg_threads g)[j := r]\<rparr>)
        = map Some (ts @ [ti]) @ replicate (THREAD_GROUP_MAX - Suc j) None"
      using upd Some by (simp add: I(9))
    moreover have "allocated (th_mem s') = allocated (th_mem s0) \<union> set (ts @ [ti])"
      using sm I(6) by auto
    moreover have "infos s' t = infos s0 t" if "t \<notin> set (ts @ [ti])" for t
      using that sm I(11) by simp
    ultimately have "members env prefix n f a s0 (ts @ [ti]) (Suc j)
        (g\<lparr>tg_threads := (tg_threads g)[j := r]\<rparr>, s')"
      unfolding members_def prod.case using ok j I(2,4,5,7,8) new sm by simp
    with e Some show ?thesis by auto
  qed
qed

lemma group_loop:
  assumes "members env prefix n f a s0 ts j (g, s)"
  shows "(for_res k j (group_member env prefix n f a) (g, s) = Inl Fault \<and> THREAD_GROUP_MAX < j + k)
    \<or> (\<exists>r g' s' ts'. for_res k j (group_member env prefix n f a) (g, s) = Inr (r, g', s')
        \<and> (if r = 0 then members env prefix n f a s0 ts' (j + k) (g', s')
           else (\<exists>j' g1. members env prefix n f a s0 ts' j' (g1, s'))))"
  using assms
proof (induction k arbitrary: ts j g s)
  case (Suc k)
  note nx = members_next [OF Suc.prems]
  show ?case
  proof (cases "j < THREAD_GROUP_MAX")
    case True
    from nx(1) [OF this] obtain r g1 s1 where
      b: "group_member env prefix n f a j (g, s) = Inr (r, g1, s1)"
      and c: "if r = 0 then \<exists>ti. members env prefix n f a s0 (ts @ [ti]) (Suc j) (g1, s1)
         else members env prefix n f a s0 ts j (g, s1)" by blast
    show ?thesis
    proof (cases "r = 0")
      case True
      with c obtain ti where "members env prefix n f a s0 (ts @ [ti]) (Suc j) (g1, s1)" by auto
      from Suc.IH [OF this] have *: "(for_res k (Suc j) (group_member env prefix n f a) (g1, s1) = Inl Fault
          \<and> THREAD_GROUP_MAX < j + Suc k)
        \<or> (\<exists>r g' s' ts'. for_res k (Suc j) (group_member env prefix n f a) (g1, s1) = Inr (r, g', s')
          \<and> (if r = 0 then members env prefix n f a s0 ts' (j + Suc k) (g', s')
             else (\<exists>j' g1. members env prefix n f a s0 ts' j' (g1, s'))))"
        unfolding add_Suc_shift .
      have "for_res (Suc k) j (group_member env prefix n f a) (g, s)
          = for_res k (Suc j) (group_member env prefix n f a) (g1, s1)" using True b by simp
      with * show ?thesis by (simp only:)
    next
      case False
      with b have l: "for_res (Suc k) j (group_member env prefix n f a) (g, s) = Inr (r, g1, s1)"
        by simp
      from False c have "members env prefix n f a s0 ts j (g, s1)" by simp
      with False have "if r = 0 then members env prefix n f a s0 ts (j + Suc k) (g1, s1)
          else (\<exists>j' g1. members env prefix n f a s0 ts j' (g1, s1))" by auto
      with l show ?thesis by blast
    qed
  qed (use nx(2) in simp)
qed auto

lemma members_start:
  assumes "threads_ok s0"
  shows "members env prefix n f a s0 [] 0
    (\<lparr>tg_n = n, tg_threads = replicate THREAD_GROUP_MAX None\<rparr>, s0)"
  using assms by (simp add: members_def)

text \<open>The three ways \<open>thread_group_create\<close> ends.\<close>

lemma thread_group_create_cases:
  assumes "threads_ok s"
  shows "case thread_group_create env prefix n f a s of
      Inl e \<Rightarrow> THREAD_GROUP_MAX < n
    | Inr (None, s') \<Rightarrow> threads_ok s' \<and> (\<exists>ts. started s' = started s @ ts
        \<and> allocated (th_mem s') = allocated (th_mem s) \<union> set ts \<and> set ts \<subseteq> dom (infos s'))
    | Inr (Some (tg, g), s') \<Rightarrow> n \<le> THREAD_GROUP_MAX \<and> tg \<notin> allocated (th_mem s)
        \<and> (\<exists>s0 ts. members env prefix n f a s0 ts n (g, s') \<and> infos s0 = infos s
          \<and> started s0 = started s \<and> allocated (th_mem s0) = insert tg (allocated (th_mem s)))"
proof -
  have ok: "mem_ok (th_mem s)" "dom (infos s) \<subseteq> allocated (th_mem s)"
    using assms by (simp_all add: threads_ok_def)
  obtain r m where al: "alloc (mem_av env) (th_mem s) = (r, m)" by fastforce
  show ?thesis
  proof (cases r)
    case None
    with heap.new_none [OF ok(1)] al ok show ?thesis
      by (auto simp: thread_group_create_def threads_ok_def)
  next
    case (Some tg)
    with al have al: "alloc (mem_av env) (th_mem s) = (Some tg, m)" by simp
    note nw = heap.new_some [OF ok(1) al]
    let ?s0 = "s\<lparr>th_mem := m\<rparr>" and ?g0 = "\<lparr>tg_n = n, tg_threads = replicate THREAD_GROUP_MAX None\<rparr>"
    have "threads_ok ?s0" using nw ok by (auto simp: threads_ok_def)
    from group_loop [OF members_start [OF this, of env prefix n f a], of n] show ?thesis
    proof (elim disjE exE conjE)
      fix r g' s' ts'
      assume l: "for_res n 0 (group_member env prefix n f a) (?g0, ?s0) = Inr (r, g', s')"
        and c: "if r = 0 then members env prefix n f a ?s0 ts' (0 + n) (g', s')
           else (\<exists>j' g1. members env prefix n f a ?s0 ts' j' (g1, s'))"
      show ?thesis
      proof (cases "r = 0")
        case True
        with c have M: "members env prefix n f a ?s0 ts' n (g', s')" by simp
        have "\<exists>s0 ts. members env prefix n f a s0 ts n (g', s') \<and> infos s0 = infos s
          \<and> started s0 = started s \<and> allocated (th_mem s0) = insert tg (allocated (th_mem s))"
          using M nw by (intro exI [of _ ?s0] exI [of _ ts']) simp
        with True l al nw membersD(3) [OF M] show ?thesis by (simp add: thread_group_create_def)
      next
        case False
        with c obtain j' g1 where "members env prefix n f a ?s0 ts' j' (g1, s')" by auto
        note I = membersD [OF this]
        have I10: "set ts' \<subseteq> dom (infos s')" using I(2,10) by (fastforce simp: in_set_conv_nth)
        have tg: "tg \<in> allocated (th_mem s')" "mem_ok (th_mem s')" "tg \<notin> set ts'"
          using I(1,5,6) nw by (auto simp: threads_ok_def)
        from heap.release_live [OF tg(2,1)] obtain m2 where
          m2: "free (Some tg) (th_mem s') = Inr m2" "mem_ok m2"
          "allocated m2 = allocated (th_mem s') - {tg}" by blast
        have "tg \<notin> dom (infos s')"
          using I(11) [OF tg(3)] nw ok(2) by (auto simp: domIff subset_iff)
        then have "threads_ok (s'\<lparr>th_mem := m2\<rparr>)" using m2 I(1) by (auto simp: threads_ok_def)
        moreover have "allocated m2 = allocated (th_mem s) \<union> set ts'"
          using m2(3) I(6) nw tg(3) by auto
        ultimately show ?thesis
          using False l al m2(1) I(7) I10 by (auto simp: thread_group_create_def)
      qed
    qed (use al in \<open>simp add: thread_group_create_def\<close>)
  qed
qed

text \<open>When every call succeeds, a group of at most 64 threads is created.\<close>

definition all_available :: "thread_env \<Rightarrow> bool" where
  "all_available env \<longleftrightarrow>
     (\<forall>i. mem_av env i) \<and> (\<forall>t. 0 \<le> eventfd_ret env t) \<and> (\<forall>t. create_ret env t = 0)"

lemma group_member_zero:
  "all_available env \<Longrightarrow> group_member env prefix n f a j gs = Inr (r, gs') \<Longrightarrow> r = 0"
  by (cases gs) (auto simp: group_member_def do_create_thread_def all_available_def alloc_def Let_def
      bind_res_Inr_iff not_less [symmetric] split: if_splits)

lemma thread_group_create_total:
  assumes "all_available env" and "threads_ok s" and "n \<le> THREAD_GROUP_MAX"
  shows "\<exists>tg g s'. thread_group_create env prefix n f a s = Inr (Some (tg, g), s')"
proof -
  obtain tg m where al: "alloc (mem_av env) (th_mem s) = (Some tg, m)"
    using assms(1) by (simp add: alloc_def all_available_def Let_def)
  let ?g = "\<lparr>tg_n = n, tg_threads = replicate THREAD_GROUP_MAX None\<rparr>"
  let ?l = "for_res n 0 (group_member env prefix n f a) (?g, s\<lparr>th_mem := m\<rparr>)"
  from thread_group_create_cases [OF assms(2), where env = env and prefix = prefix and n = n
      and f = f and a = a] assms(3)
  obtain r s' where c: "thread_group_create env prefix n f a s = Inr (r, s')"
    by (cases "thread_group_create env prefix n f a s") auto
  from c al obtain err g1 s1 where l: "?l = Inr (err, g1, s1)"
    by (auto simp: thread_group_create_def bind_res_Inr_iff)
  have "err = 0"
    by (rule for_res_zero [OF l]) (rule group_member_zero [OF assms(1)])
  with l al show ?thesis by (simp add: thread_group_create_def)
qed

subsection \<open>Joining a group\<close>

text \<open>Threads \<open>ts\<close> that have finished and whose information is live.\<close>

definition joinable :: "('f, 'a) threads \<Rightarrow> nat list \<Rightarrow> bool" where
  "joinable s ts \<longleftrightarrow> mem_ok (th_mem s) \<and> distinct ts \<and> set ts \<subseteq> allocated (th_mem s)
     \<and> (\<forall>t \<in> set ts. \<exists>x. infos s t = Some x \<and> returned x \<noteq> 0)"

lemma thread_join_step:
  assumes "joinable s (t # ts)" and "infos s t = Some x"
  obtains s' where "thread_join stale t s = Inr (stale x, s')" and "joinable s' ts"
    and "infos s' = (infos s)(t := None)" and "allocated (th_mem s') = allocated (th_mem s) - {t}"
    and "started s' = started s"
proof -
  have j: "mem_ok (th_mem s)" "t \<in> allocated (th_mem s)" "t \<notin> set ts" "returned x \<noteq> 0"
    using assms by (auto simp: joinable_def)
  from heap.release_live [OF j(1,2)] obtain m where
    m: "free (Some t) (th_mem s) = Inr m" "mem_ok m" "allocated m = allocated (th_mem s) - {t}"
    by blast
  let ?s = "s\<lparr>th_mem := m, infos := (infos s)(t := None), th_closed := th_closed s @ [wakefd x]\<rparr>"
  have "joinable ?s ts" using assms(1) j(3) m by (auto simp: joinable_def)
  with m j(4) assms(2) show thesis by (intro that [of ?s]) (simp_all add: thread_join_def)
qed

lemma group_join_loop:
  assumes "joinable s (drop i ts)" and "i \<le> length ts" and "\<forall>l < length ts. tg_threads g ! l = Some (ts ! l)"
    and "length ts \<le> length (tg_threads g)"
  shows "\<exists>s'. for_res (length ts - i) i (group_join_member stale g) (rs, s)
      = Inr (0, rs @ map (\<lambda>l. (l, stale (the (infos s (ts ! l))))) [i..<length ts], s')
    \<and> infos s' = infos s |` (- set (drop i ts))
    \<and> allocated (th_mem s') = allocated (th_mem s) - set (drop i ts)"
  using assms(1,2)
proof (induction "length ts - i" arbitrary: i rs s)
  case 0
  then show ?case by simp
next
  case (Suc k)
  then have i: "i < length ts" "length ts - i = Suc k" "length ts - Suc i = k" by auto
  have d: "drop i ts = ts ! i # drop (Suc i) ts" using i(1) by (simp add: Cons_nth_drop_Suc)
  with Suc.prems(1) have J: "joinable s (ts ! i # drop (Suc i) ts)" by simp
  then obtain x where x: "infos s (ts ! i) = Some x" by (auto simp: joinable_def)
  obtain s1 where s1: "thread_join stale (ts ! i) s = Inr (stale x, s1)" "joinable s1 (drop (Suc i) ts)"
    "infos s1 = (infos s)(ts ! i := None)" "allocated (th_mem s1) = allocated (th_mem s) - {ts ! i}"
    using thread_join_step [OF J x] by metis
  have b: "group_join_member stale g i (rs, s) = Inr (0, rs @ [(i, stale x)], s1)"
    using i(1) assms(3,4) s1(1) by (simp add: group_join_member_def index_res_ok)
  from Suc.hyps(1) [OF i(3) [symmetric] s1(2), of "rs @ [(i, stale x)]"] i obtain s' where
    s': "for_res k (Suc i) (group_join_member stale g) (rs @ [(i, stale x)], s1)
      = Inr (0, (rs @ [(i, stale x)]) @ map (\<lambda>l. (l, stale (the (infos s1 (ts ! l))))) [Suc i..<length ts], s')"
    "infos s' = infos s1 |` (- set (drop (Suc i) ts))"
    "allocated (th_mem s') = allocated (th_mem s1) - set (drop (Suc i) ts)" by auto
  have nin: "ts ! i \<notin> set (drop (Suc i) ts)" using J by (simp add: joinable_def)
  have "map (\<lambda>l. (l, stale (the (infos s1 (ts ! l))))) [Suc i..<length ts]
      = map (\<lambda>l. (l, stale (the (infos s (ts ! l))))) [Suc i..<length ts]"
  proof (rule map_cong [OF refl])
    fix l assume "l \<in> set [Suc i..<length ts]"
    then have "ts ! l \<in> set (drop (Suc i) ts)"
      by (auto simp: in_set_conv_nth intro: exI [of _ "l - Suc i"])
    with nin show "(l, stale (the (infos s1 (ts ! l)))) = (l, stale (the (infos s (ts ! l))))"
      by (auto simp: s1(3))
  qed
  moreover have "infos s1 |` (- set (drop (Suc i) ts)) = infos s |` (- set (drop i ts))"
    unfolding s1(3) d by (auto simp: restrict_map_def fun_eq_iff)
  moreover have "[i..<length ts] = i # [Suc i..<length ts]" using i(1) by (simp add: upt_conv_Cons)
  ultimately show ?case using s' b s1(4) x unfolding i(2) d by auto
qed

subsection \<open>Properties\<close>

text \<open>An environment in which the first three allocations succeed, and no threads yet.\<close>

definition demo_threads :: "(string, int) threads" where
  "demo_threads = \<lparr>th_mem = \<lparr>n_alloc = 0, live_objs = []\<rparr>, infos = Map.empty, started = [],
     th_closed = []\<rparr>"

definition demo_tenv :: thread_env where
  "demo_tenv = \<lparr>mem_av = (\<lambda>i. i < 3), eventfd_ret = (\<lambda>i. 10 + int i), create_ret = (\<lambda>_. 0)\<rparr>"

lemma demo_threads_ok: "threads_ok demo_threads"
  by (simp add: threads_ok_def mem_ok_def demo_threads_def)

lemmas thread_eval =
  thread_group_create_def group_member_def do_create_thread_def alloc_def free_def Let_def
  update_res_def demo_threads_def demo_tenv_def numeral_2_eq_2 THREAD_GROUP_MAX_def

lemma demo_pair:
  "\<exists>g s. thread_group_create demo_tenv ''IO'' 2 ''io_worker'' 5 demo_threads = Inr (Some (0, g), s)
    \<and> started s = [1, 2] \<and> tg_threads g ! 0 = Some 1 \<and> tg_threads g ! 1 = Some 2
    \<and> (\<exists>x. infos s 1 = Some x) \<and> (\<exists>x. infos s 2 = Some x)"
  by (simp add: thread_eval)

text \<open>C27 (functional): the members of a thread group are numbered. A group that was created
  has at most 64 threads, all different, and its slot \<open>i\<close> holds a thread that runs the given
  function on the given argument and is told its number \<open>i\<close> and the size of the group. So
  the workers of one kind index different inboxes and epoll instances.\<close>

theorem thread_group_numbers:
  assumes "threads_ok s" and "thread_group_create env prefix n f a s = Inr (Some (tg, g), s')"
  shows "n \<le> THREAD_GROUP_MAX \<and> (\<exists>ts. length ts = n \<and> distinct ts \<and> started s' = started s @ ts
    \<and> (\<forall>i < n. tg_threads g ! i = Some (ts ! i) \<and> (\<exists>x. infos s' (ts ! i) = Some x
        \<and> ti_func x = f \<and> ti_arg x = a \<and> returned x = 0
        \<and> unat (current (group_info x)) = i \<and> unat (total (group_info x)) = n)))"
proof -
  from thread_group_create_cases [OF assms(1), where env = env and prefix = prefix and n = n and f = f and a = a] assms(2) obtain s0 ts where
    n: "n \<le> THREAD_GROUP_MAX" and M: "members env prefix n f a s0 ts n (g, s')"
    and s0: "started s0 = started s" by auto
  note I = membersD [OF M]
  have w: "unat (of_nat i :: u32) = i" if "i \<le> n" for i
    using that n by (simp add: unat_of_nat THREAD_GROUP_MAX_def)
  have slot: "tg_threads g ! i = Some (ts ! i)" if "i < n" for i
    using that by (simp add: I(9) I(2) nth_append)
  show ?thesis using n I(2,4,7,10) s0 slot w by (intro conjI exI [of _ ts]) auto
qed

theorem thread_group_numbers_witness:
  "\<exists>g s x. thread_group_create demo_tenv ''IO'' 2 ''io_worker'' 5 demo_threads = Inr (Some (0, g), s)
    \<and> infos s 2 = Some x \<and> unat (current (group_info x)) = 1"
proof -
  from demo_pair obtain g s where
    c: "thread_group_create demo_tenv ''IO'' 2 ''io_worker'' 5 demo_threads = Inr (Some (0, g), s)"
    and t: "tg_threads g ! 1 = Some 2" by blast
  from thread_group_numbers [OF demo_threads_ok c] obtain ts where
    "\<forall>i < 2. tg_threads g ! i = Some (ts ! i) \<and> (\<exists>x. infos s (ts ! i) = Some x
        \<and> unat (current (group_info x)) = i)" by blast
  then have "tg_threads g ! 1 = Some (ts ! 1) \<and> (\<exists>x. infos s (ts ! 1) = Some x
        \<and> unat (current (group_info x)) = 1)" by simp
  with c t show ?thesis by auto
qed

text \<open>C28 (error): when a thread of a group cannot be created, \<open>thread_group_create\<close> returns
  NULL and frees the group, but stops none of the threads created before: they stay
  started and their memory stays allocated, with no pointer to them left. It never reads or
  writes outside the group's array unless more than 64 threads are asked for.\<close>

theorem thread_group_failure:
  assumes "threads_ok s"
  shows "(\<forall>e. thread_group_create env prefix n f a s = Inl e \<longrightarrow> THREAD_GROUP_MAX < n)
    \<and> (\<forall>s'. thread_group_create env prefix n f a s = Inr (None, s') \<longrightarrow>
        threads_ok s' \<and> (\<exists>ts. started s' = started s @ ts \<and> set ts \<subseteq> dom (infos s')
          \<and> allocated (th_mem s') = allocated (th_mem s) \<union> set ts))"
  using thread_group_create_cases [OF assms, where env = env and prefix = prefix and n = n and f = f and a = a] by auto

theorem thread_group_failure_witness:
  "\<exists>s. thread_group_create (demo_tenv\<lparr>create_ret := (\<lambda>i. if i = 2 then 11 else 0)\<rparr>) ''IO'' 2
       ''io_worker'' 5 demo_threads = Inr (None, s)
    \<and> started s = [1] \<and> infos s 1 \<noteq> None \<and> th_closed s = [12] \<and> threads_ok s"
proof -
  let ?env = "demo_tenv\<lparr>create_ret := (\<lambda>i. if i = 2 then 11 else 0)\<rparr>"
  have "\<exists>s. thread_group_create ?env ''IO'' 2 ''io_worker'' 5 demo_threads = Inr (None, s)
    \<and> started s = [1] \<and> infos s 1 \<noteq> None \<and> th_closed s = [12]"
    by (simp add: thread_eval)
  with thread_group_failure [OF demo_threads_ok, of ?env "''IO''" 2 "''io_worker''" 5] show ?thesis
    by blast
qed



end
