(* ===== verification/Command.thy ===== *)
theory Command
  imports Memory
begin

section \<open>Command-line parameters (src/command.c, include/command.h)\<close>

text \<open>
  A program describes its parameters in a table: the name, how the value is written, the
  default, and where in the configuration struct the value goes. An argument is matched
  against the formats \<open>--name=%u\<close>, \<open>--name=%d\<close> or \<open>--name=%s\<close> by \<open>sscanf\<close>, and what was
  read is copied into the struct, which is its bytes here. What is printed
  is in theory \<open>Command_Show\<close>.
\<close>

subsection \<open>What sscanf does with these formats\<close>

datatype conv = ConvU | ConvD | ConvS

definition is_space :: "char \<Rightarrow> bool" where
  "is_space c \<longleftrightarrow> (of_char c :: nat) \<in> {9..13} \<union> {32}"

text \<open>The characters of the format before the conversion are compared one by one.\<close>

fun match_literal :: "string \<Rightarrow> string \<Rightarrow> string option" where
  "match_literal [] s = Some s"
| "match_literal (c # cs) [] = None"
| "match_literal (c # cs) (d # ds) = (if c = d then match_literal cs ds else None)"

text \<open>White space, an optional sign and digits; the conversion fails without digits.\<close>

definition scan_number :: "string \<Rightarrow> (bool \<times> nat) option" where
  "scan_number s =
     (let s = dropWhile is_space s;
          (neg, s) = (case s of
             [] \<Rightarrow> (False, [])
           | c # cs \<Rightarrow> if c = CHR ''-'' then (True, cs) else if c = CHR ''+'' then (False, cs)
                      else (False, c # cs));
          ds = takeWhile is_digit s
      in if ds = [] then None else Some (neg, digits_val 0 ds))"

text \<open>
  The value is converted to a 64-bit number, at the end of whose range it saturates, and
  stored as the 32-bit \<open>int\<close> or \<open>unsigned int\<close>.
\<close>

definition to_unsigned :: "bool \<Rightarrow> nat \<Rightarrow> u32" where
  "to_unsigned neg n =
     (if n > 2 ^ 64 - 1 then of_nat (2 ^ 64 - 1) else of_int (if neg then - int n else int n))"

definition to_signed :: "bool \<Rightarrow> nat \<Rightarrow> u32" where
  "to_signed neg n =
     of_int (max (- (2 ^ 63)) (min (2 ^ 63 - 1) (if neg then - int n else int n)))"

text \<open>The bytes a conversion stores, if it succeeds.\<close>

definition scan_value :: "conv \<Rightarrow> string \<Rightarrow> byte list option" where
  "scan_value cv s =
     (case cv of
        ConvU \<Rightarrow> map_option (\<lambda>(neg, n). le_bytes 4 (unat (to_unsigned neg n))) (scan_number s)
      | ConvD \<Rightarrow> map_option (\<lambda>(neg, n). le_bytes 4 (unat (to_signed neg n))) (scan_number s)
      | ConvS \<Rightarrow>
          (let tok = takeWhile (\<lambda>c. \<not> is_space c) (dropWhile is_space s) in
           if tok = [] then None else Some (map of_char tok @ [0])))"

subsection \<open>Parameters\<close>

definition PARAM_VALUE_MAX :: nat where "PARAM_VALUE_MAX = 128"

text \<open>The union of the default is its bytes.\<close>

record param_t =
  p_name :: string
  p_conv :: conv
  p_default :: "byte list"
  p_offset :: nat
  p_size :: nat

definition num_default :: "u64 \<Rightarrow> byte list" where
  "num_default v = le_bytes 8 (unat v) @ replicate (PARAM_VALUE_MAX - 8) 0"

definition str_default :: "string \<Rightarrow> byte list" where
  "str_default s = map of_char s @ replicate (PARAM_VALUE_MAX - length s) 0"

definition PARAM_UINT :: "string \<Rightarrow> nat \<Rightarrow> u64 \<Rightarrow> param_t" where
  "PARAM_UINT name offset d =
     \<lparr>p_name = name, p_conv = ConvU, p_default = num_default d, p_offset = offset, p_size = 4\<rparr>"

definition PARAM_INT :: "string \<Rightarrow> nat \<Rightarrow> u64 \<Rightarrow> param_t" where
  "PARAM_INT name offset d =
     \<lparr>p_name = name, p_conv = ConvD, p_default = num_default d, p_offset = offset, p_size = 4\<rparr>"

definition PARAM_STR :: "string \<Rightarrow> nat \<Rightarrow> nat \<Rightarrow> string \<Rightarrow> param_t" where
  "PARAM_STR name offset sz d =
     \<lparr>p_name = name, p_conv = ConvS, p_default = str_default d, p_offset = offset, p_size = sz\<rparr>"

text \<open>The literal part of \<open>fmt\<close>.\<close>

definition param_prefix :: "param_t \<Rightarrow> string" where
  "param_prefix p = ''--'' @ p_name p @ ''=''"

subsection \<open>Setting parameters\<close>

text \<open>
  \<open>junk\<close> is what the uninitialised local array \<open>dest\<close> holds; all of the field is copied
  from it, also what \<open>sscanf\<close> did not write. A string that does not fit in \<open>dest\<close> is
  written past its end.
\<close>

definition param_try_set ::
  "byte list \<Rightarrow> string \<Rightarrow> param_t \<Rightarrow> byte list \<Rightarrow> (bool \<times> byte list) res" where
  "param_try_set junk arg p cfg =
     (case match_literal (param_prefix p) arg of
        None \<Rightarrow> Inr (False, cfg)
      | Some rest \<Rightarrow>
          (case scan_value (p_conv p) rest of
             None \<Rightarrow> Inr (False, cfg)
           | Some bs \<Rightarrow>
               bind_res (store_bytes 0 bs junk) (\<lambda>dest.
               bind_res (load_bytes 0 (p_size p) dest) (\<lambda>v.
               bind_res (store_bytes (p_offset p) v cfg) (\<lambda>cfg. Inr (True, cfg))))))"

definition param_set_default :: "param_t \<Rightarrow> byte list \<Rightarrow> byte list res" where
  "param_set_default p cfg =
     bind_res (load_bytes 0 (p_size p) (p_default p)) (\<lambda>v. store_bytes (p_offset p) v cfg)"

fun set_defaults :: "param_t list \<Rightarrow> byte list \<Rightarrow> byte list res" where
  "set_defaults [] cfg = Inr cfg"
| "set_defaults (p # ps) cfg = bind_res (param_set_default p cfg) (set_defaults ps)"

text \<open>The first parameter that takes the argument ends the search.\<close>

fun try_params :: "byte list \<Rightarrow> string \<Rightarrow> param_t list \<Rightarrow> byte list \<Rightarrow> (bool \<times> byte list) res" where
  "try_params junk arg [] cfg = Inr (False, cfg)"
| "try_params junk arg (p # ps) cfg =
     bind_res (param_try_set junk arg p cfg) (\<lambda>(ok, cfg).
       if ok then Inr (True, cfg) else try_params junk arg ps cfg)"

text \<open>The arguments from number \<open>i\<close> on.\<close>

fun parse_args ::
  "(nat \<Rightarrow> byte list) \<Rightarrow> nat \<Rightarrow> string list \<Rightarrow> param_t list \<Rightarrow> byte list \<Rightarrow> (int \<times> byte list) res" where
  "parse_args junk i [] ps cfg = Inr (0, cfg)"
| "parse_args junk i (arg # args) ps cfg =
     bind_res (try_params (junk i) arg ps cfg) (\<lambda>(found, cfg).
       if found then parse_args junk (Suc i) args ps cfg else Inr (-1, cfg))"

definition parse_params ::
  "(nat \<Rightarrow> byte list) \<Rightarrow> string list \<Rightarrow> byte list \<Rightarrow> param_t list \<Rightarrow> (int \<times> byte list) res" where
  "parse_params junk argv cfg params =
     bind_res (set_defaults params cfg) (parse_args junk 1 (tl argv) params)"

text \<open>The command \<open>command_t\<close>, of which the parser uses the table.\<close>

record command_t =
  progname :: string
  description :: string
  params :: "param_t list"

definition parse_command_args ::
  "(nat \<Rightarrow> byte list) \<Rightarrow> string list \<Rightarrow> byte list \<Rightarrow> command_t \<Rightarrow> (int \<times> byte list) res" where
  "parse_command_args junk argv cfg command = parse_params junk argv cfg (params command)"

text \<open>Reading a field of the struct that was filled.\<close>

definition u32_at :: "nat \<Rightarrow> byte list \<Rightarrow> u32" where
  "u32_at off m = of_nat (le_nat (take 4 (drop off m)))"

subsection \<open>The value an argument gives a parameter\<close>

definition arg_value :: "string \<Rightarrow> param_t \<Rightarrow> byte list option" where
  "arg_value arg p =
     (case match_literal (param_prefix p) arg of
        None \<Rightarrow> None | Some rest \<Rightarrow> scan_value (p_conv p) rest)"

text \<open>The bytes of a parameter's field.\<close>

definition field :: "param_t \<Rightarrow> byte list \<Rightarrow> byte list" where
  "field p cfg = take (p_size p) (drop (p_offset p) cfg)"

text \<open>
  A table is well-formed for a struct of \<open>n\<close> bytes: the names differ and have no \<open>=\<close> in
  them, the fields lie in the struct and do not overlap, and numbers take four bytes.
\<close>

definition disjoint_fields :: "param_t \<Rightarrow> param_t \<Rightarrow> bool" where
  "disjoint_fields p q \<longleftrightarrow>
     p_offset p + p_size p \<le> p_offset q \<or> p_offset q + p_size q \<le> p_offset p"

definition param_ok :: "nat \<Rightarrow> param_t \<Rightarrow> bool" where
  "param_ok n p \<longleftrightarrow> CHR ''='' \<notin> set (p_name p) \<and> p_offset p + p_size p \<le> n
     \<and> p_size p \<le> PARAM_VALUE_MAX \<and> length (p_default p) = PARAM_VALUE_MAX"

fun table_ok :: "nat \<Rightarrow> param_t list \<Rightarrow> bool" where
  "table_ok n [] = True"
| "table_ok n (p # ps) \<longleftrightarrow> param_ok n p \<and> list_all (disjoint_fields p) ps
     \<and> list_all (\<lambda>q. p_name q \<noteq> p_name p) ps \<and> table_ok n ps"

lemma match_literal_Some: "match_literal l s = Some r \<longleftrightarrow> s = l @ r"
  by (induction l s rule: match_literal.induct) auto

lemma split_at_equals:
  assumes "xs @ CHR ''='' # r = ys @ CHR ''='' # r'" and "CHR ''='' \<notin> set xs"
    and "CHR ''='' \<notin> set ys"
  shows "xs = ys"
  using assms
proof (induction xs arbitrary: ys)
  case Nil
  then show ?case by (cases ys) auto
next
  case (Cons x xs)
  then show ?case by (cases ys) auto
qed

text \<open>An argument names at most one parameter.\<close>

lemma arg_value_unique:
  assumes "arg_value arg p = Some v" and "arg_value arg q = Some w"
    and "CHR ''='' \<notin> set (p_name p)" and "CHR ''='' \<notin> set (p_name q)"
  shows "p_name p = p_name q"
  using assms split_at_equals
  by (fastforce simp: arg_value_def match_literal_Some param_prefix_def split: option.splits)

subsection \<open>What parsing does to the fields\<close>

lemma disjoint_fields_sym: "disjoint_fields p q \<longleftrightarrow> disjoint_fields q p"
  by (auto simp: disjoint_fields_def)

lemma store_field:
  assumes "param_ok (length cfg) p" and "length v = p_size p"
  obtains cfg' where "store_bytes (p_offset p) v cfg = Inr cfg'" and "length cfg' = length cfg"
    and "field p cfg' = v"
    and "\<And>q. param_ok (length cfg) q \<Longrightarrow> disjoint_fields p q \<Longrightarrow> field q cfg' = field q cfg"
proof -
  have le: "p_offset p + length v \<le> length cfg" using assms by (simp add: param_ok_def)
  then obtain cfg' where st: "store_bytes (p_offset p) v cfg = Inr cfg'"
    by (simp add: store_bytes_def)
  note len = store_bytes_length [OF st]
  have ld: "load_bytes (p_offset q) (p_size q) c = Inr (field q c)"
    if "param_ok (length cfg) q" "length c = length cfg" for q c
    using that by (simp add: load_bytes_def field_def param_ok_def)
  have "field p cfg' = v"
    using load_store_same [OF st] ld [OF assms(1) len] assms(2) by simp
  moreover have "field q cfg' = field q cfg" if "param_ok (length cfg) q" "disjoint_fields p q" for q
    using load_store_disjoint [OF st, of "p_offset q" "p_size q"] ld [OF that(1)] len that(2) assms(2)
    by (auto simp: disjoint_fields_def)
  ultimately show thesis using that st len by blast
qed

lemma param_try_set_cases:
  assumes "param_ok (length cfg) p" and "length junk = PARAM_VALUE_MAX"
  shows "arg_value arg p = None \<Longrightarrow> param_try_set junk arg p cfg = Inr (False, cfg)"
    and "arg_value arg p = Some v \<Longrightarrow> PARAM_VALUE_MAX < length v
      \<Longrightarrow> param_try_set junk arg p cfg = Inl Fault"
    and "arg_value arg p = Some v \<Longrightarrow> length v \<le> PARAM_VALUE_MAX
      \<Longrightarrow> \<exists>cfg'. param_try_set junk arg p cfg = Inr (True, cfg') \<and> length cfg' = length cfg
        \<and> field p cfg' = take (p_size p) (v @ drop (length v) junk)
        \<and> (\<forall>q. param_ok (length cfg) q \<longrightarrow> disjoint_fields p q \<longrightarrow> field q cfg' = field q cfg)"
proof -
  show "arg_value arg p = None \<Longrightarrow> param_try_set junk arg p cfg = Inr (False, cfg)"
    by (auto simp: arg_value_def param_try_set_def split: option.splits)
  show "arg_value arg p = Some v \<Longrightarrow> PARAM_VALUE_MAX < length v
      \<Longrightarrow> param_try_set junk arg p cfg = Inl Fault"
    using assms(2) by (auto simp: arg_value_def param_try_set_def store_bytes_def split: option.splits)
  assume v: "arg_value arg p = Some v" "length v \<le> PARAM_VALUE_MAX"
  let ?d = "v @ drop (length v) junk"
  have d: "length ?d = PARAM_VALUE_MAX" using assms(2) v(2) by simp
  have "length (take (p_size p) ?d) = p_size p"
    unfolding length_take d using assms(1) by (simp add: param_ok_def)
  from store_field [OF assms(1) this] obtain cfg' where
    "store_bytes (p_offset p) (take (p_size p) ?d) cfg = Inr cfg'" "length cfg' = length cfg"
    "field p cfg' = take (p_size p) ?d"
    "\<forall>q. param_ok (length cfg) q \<longrightarrow> disjoint_fields p q \<longrightarrow> field q cfg' = field q cfg" by metis
  moreover have "store_bytes 0 v junk = Inr ?d" "load_bytes 0 (p_size p) ?d = Inr (take (p_size p) ?d)"
    using assms v(2) by (simp_all add: store_bytes_def load_bytes_def param_ok_def)
  ultimately show "\<exists>cfg'. param_try_set junk arg p cfg = Inr (True, cfg') \<and> length cfg' = length cfg
        \<and> field p cfg' = take (p_size p) (v @ drop (length v) junk)
        \<and> (\<forall>q. param_ok (length cfg) q \<longrightarrow> disjoint_fields p q \<longrightarrow> field q cfg' = field q cfg)"
    using v(1) by (auto simp: param_try_set_def arg_value_def split: option.splits)
qed

lemma table_okD:
  "table_ok n ps \<Longrightarrow> p \<in> set ps \<Longrightarrow> param_ok n p"
  by (induction n ps rule: table_ok.induct) auto

lemma table_ok_distinct:
  "table_ok n ps \<Longrightarrow> p \<in> set ps \<Longrightarrow> q \<in> set ps \<Longrightarrow> p \<noteq> q
    \<Longrightarrow> disjoint_fields p q \<and> p_name p \<noteq> p_name q"
  by (induction n ps rule: table_ok.induct) (auto simp: list_all_iff disjoint_fields_sym)

text \<open>One argument: it is rejected, it overflows \<open>dest\<close>, or it sets the one parameter it names.\<close>

lemma try_params_cases:
  assumes "length junk = PARAM_VALUE_MAX"
  shows "list_all (param_ok (length cfg)) ps \<Longrightarrow>
    (\<exists>p \<in> set ps. \<exists>v. arg_value arg p = Some v \<and> PARAM_VALUE_MAX < length v)
      \<and> try_params junk arg ps cfg = Inl Fault
    \<or> (\<forall>p \<in> set ps. arg_value arg p = None) \<and> try_params junk arg ps cfg = Inr (False, cfg)
    \<or> (\<exists>p \<in> set ps. \<exists>v cfg'. arg_value arg p = Some v \<and> length v \<le> PARAM_VALUE_MAX
        \<and> try_params junk arg ps cfg = Inr (True, cfg') \<and> length cfg' = length cfg
        \<and> field p cfg' = take (p_size p) (v @ drop (length v) junk)
        \<and> (\<forall>q. param_ok (length cfg) q \<longrightarrow> disjoint_fields p q \<longrightarrow> field q cfg' = field q cfg))"
proof (induction ps)
  case (Cons p ps)
  then have ok: "param_ok (length cfg) p" by simp
  note t = param_try_set_cases [OF ok assms, of arg]
  show ?case
  proof (cases "arg_value arg p")
    case None
    then have e: "try_params junk arg (p # ps) cfg = try_params junk arg ps cfg" using t(1) by simp
    from Cons show ?thesis unfolding e using None by auto
  next
    case (Some v)
    show ?thesis
    proof (cases "length v \<le> PARAM_VALUE_MAX")
      case True
      with t(3) [OF Some] Some show ?thesis by fastforce
    next
      case False
      with t(2) [OF Some] Some show ?thesis by auto
    qed
  qed
qed simp

text \<open>
  The reference: a parameter has the value of the last argument that names it, or its
  default. A field holds a value \<open>v\<close> when it starts with the bytes of \<open>v\<close>, as far as it
  has room for them.
\<close>

definition accepted :: "param_t list \<Rightarrow> string \<Rightarrow> bool" where
  "accepted ps arg \<longleftrightarrow> (\<exists>p \<in> set ps. arg_value arg p \<noteq> None)"

definition overlong :: "param_t list \<Rightarrow> string \<Rightarrow> bool" where
  "overlong ps arg \<longleftrightarrow>
     (\<exists>p \<in> set ps. case arg_value arg p of None \<Rightarrow> False | Some v \<Rightarrow> PARAM_VALUE_MAX < length v)"

fun last_value :: "string list \<Rightarrow> param_t \<Rightarrow> byte list \<Rightarrow> byte list" where
  "last_value [] p v = v"
| "last_value (arg # args) p v =
     last_value args p (case arg_value arg p of None \<Rightarrow> v | Some w \<Rightarrow> w)"

definition holds :: "param_t \<Rightarrow> byte list \<Rightarrow> byte list \<Rightarrow> bool" where
  "holds p v cfg \<longleftrightarrow> take (length v) (field p cfg) = take (p_size p) v"

lemma holds_set: "field p cfg = take (p_size p) (v @ w) \<Longrightarrow> holds p v cfg"
  by (simp add: holds_def min_def)

lemma holds_cong: "field p cfg = field p cfg' \<Longrightarrow> holds p v cfg = holds p v cfg'"
  by (simp add: holds_def)

lemma parse_args_result:
  assumes t: "table_ok n ps" and junk: "\<And>i. length (junk i) = PARAM_VALUE_MAX"
  shows "length cfg = n \<Longrightarrow> \<forall>p \<in> set ps. holds p (V p) cfg \<Longrightarrow>
    case parse_args junk i args ps cfg of
      Inl e \<Rightarrow> e = Fault \<and> list_ex (overlong ps) args
    | Inr (r, cfg') \<Rightarrow> length cfg' = n
        \<and> (if list_all (accepted ps) args
           then r = 0 \<and> (\<forall>p \<in> set ps. holds p (last_value args p (V p)) cfg') else r = -1)"
proof (induction args arbitrary: i cfg V)
  case (Cons arg args)
  have ok: "list_all (param_ok (length cfg)) ps"
    using table_okD [OF t] Cons.prems(1) by (auto simp: list_all_iff)
  from try_params_cases [OF junk ok, of arg i] show ?case
  proof (elim disjE conjE bexE exE)
    fix p v cfg'
    assume p: "p \<in> set ps" "arg_value arg p = Some v"
      and r: "try_params (junk i) arg ps cfg = Inr (True, cfg')" "length cfg' = length cfg"
      and f: "field p cfg' = take (p_size p) (v @ drop (length v) (junk i))"
        "\<forall>q. param_ok (length cfg) q \<longrightarrow> disjoint_fields p q \<longrightarrow> field q cfg' = field q cfg"
    let ?V = "\<lambda>q. case arg_value arg q of None \<Rightarrow> V q | Some w \<Rightarrow> w"
    have "holds q (?V q) cfg'" if q: "q \<in> set ps" for q
    proof (cases "q = p")
      case True
      with p f(1) show ?thesis by (simp add: holds_set)
    next
      case False
      note d = table_ok_distinct [OF t p(1) q False [symmetric]]
      have "arg_value arg q = None"
        using arg_value_unique [OF p(2)] d table_okD [OF t p(1)] table_okD [OF t q]
        by (fastforce simp: param_ok_def)
      moreover have "field q cfg' = field q cfg"
        using f(2) d table_okD [OF t q] Cons.prems(1) by auto
      ultimately show ?thesis using Cons.prems(2) q holds_cong [of q cfg' cfg "V q"] by simp
    qed
    then have IH: "case parse_args junk (Suc i) args ps cfg' of
      Inl e \<Rightarrow> e = Fault \<and> list_ex (overlong ps) args
    | Inr (r, cfg'') \<Rightarrow> length cfg'' = n
        \<and> (if list_all (accepted ps) args
           then r = 0 \<and> (\<forall>p \<in> set ps. holds p (last_value args p (?V p)) cfg'') else r = -1)"
      using r(2) Cons.prems(1) by (intro Cons.IH) auto
    have e: "parse_args junk i (arg # args) ps cfg = parse_args junk (Suc i) args ps cfg'"
      by (simp add: r(1))
    have acc: "accepted ps arg" using p by (auto simp: accepted_def)
    from IH acc show ?thesis unfolding e by (cases "parse_args junk (Suc i) args ps cfg'") auto
  qed (auto simp: overlong_def accepted_def Cons.prems(1) split: option.splits)
qed auto

lemma set_defaults_result:
  assumes "table_ok n ps" and "length cfg = n"
  shows "\<exists>cfg'. set_defaults ps cfg = Inr cfg' \<and> length cfg' = n
    \<and> (\<forall>p \<in> set ps. field p cfg' = take (p_size p) (p_default p))
    \<and> (\<forall>q. param_ok n q \<longrightarrow> list_all (\<lambda>p. disjoint_fields p q) ps \<longrightarrow> field q cfg' = field q cfg)"
  using assms
proof (induction ps arbitrary: cfg)
  case (Cons p ps)
  have p: "param_ok (length cfg) p" using Cons.prems by simp
  then have len: "length (take (p_size p) (p_default p)) = p_size p"
    and ld: "load_bytes 0 (p_size p) (p_default p) = Inr (take (p_size p) (p_default p))"
    by (simp_all add: param_ok_def load_bytes_def)
  from store_field [OF p len] obtain c1 where
    c1: "store_bytes (p_offset p) (take (p_size p) (p_default p)) cfg = Inr c1" "length c1 = length cfg"
    "field p c1 = take (p_size p) (p_default p)"
    "\<And>q. param_ok (length cfg) q \<Longrightarrow> disjoint_fields p q \<Longrightarrow> field q c1 = field q cfg" by metis
  from Cons.IH [of c1] Cons.prems c1(2) obtain c2 where
    c2: "set_defaults ps c1 = Inr c2" "length c2 = n"
    "\<forall>p \<in> set ps. field p c2 = take (p_size p) (p_default p)"
    "\<forall>q. param_ok n q \<longrightarrow> list_all (\<lambda>p. disjoint_fields p q) ps \<longrightarrow> field q c2 = field q c1" by auto
  have "list_all (\<lambda>q. disjoint_fields q p) ps"
    using Cons.prems(1) by (auto simp: list_all_iff disjoint_fields_sym)
  with c2(4) p Cons.prems(2) have "field p c2 = field p c1" by blast
  with c1 c2 ld Cons.prems(2) show ?case by (auto simp: param_set_default_def)
qed simp

lemma parse_params_result:
  assumes "table_ok (length cfg) ps" and "\<And>i. length (junk i) = PARAM_VALUE_MAX"
  shows "case parse_params junk argv cfg ps of
      Inl e \<Rightarrow> e = Fault \<and> list_ex (overlong ps) (tl argv)
    | Inr (r, cfg') \<Rightarrow> length cfg' = length cfg
        \<and> (if list_all (accepted ps) (tl argv)
           then r = 0 \<and> (\<forall>p \<in> set ps. holds p (last_value (tl argv) p (p_default p)) cfg')
           else r = -1)"
proof -
  from set_defaults_result [OF assms(1) refl] obtain c1 where
    c1: "set_defaults ps cfg = Inr c1" "length c1 = length cfg"
    "\<forall>p \<in> set ps. field p c1 = take (p_size p) (p_default p)" by blast
  have "holds p (p_default p) c1" if "p \<in> set ps" for p
    using c1(3) that by (simp add: holds_def min_def)
  from parse_args_result [OF assms c1(2)] this show ?thesis
    by (simp add: parse_params_def c1(1))
qed

subsection \<open>Printed values are read back\<close>

lemma takeWhile_digits: "takeWhile is_digit (decimal n) = decimal n"
  using decimal_digits [of n] by (auto simp: takeWhile_eq_all_conv)

lemma digit_first:
  assumes "is_digit c"
  shows "\<not> is_space c" "c \<noteq> CHR ''-''" "c \<noteq> CHR ''+''"
  using assms by (auto simp: is_digit_def is_space_def)

lemma scan_number_decimal: "scan_number (decimal n) = Some (False, n)"
proof -
  obtain c cs where c: "decimal n = c # cs" using decimal_ne [of n] by (cases "decimal n") auto
  with decimal_digits [of n] have "is_digit c" by auto
  then have "scan_number (decimal n) = Some (False, digits_val 0 (takeWhile is_digit (decimal n)))"
    by (simp add: scan_number_def Let_def c digit_first)
  then show ?thesis unfolding takeWhile_digits digits_val_decimal .
qed

lemma unat_below_32: "n < 2 ^ 32 \<Longrightarrow> unat (of_nat n :: u32) = n"
  by (simp add: unat_of_nat)

lemma arg_value_unsigned:
  assumes "p_conv p = ConvU" and "n < 2 ^ 32"
  shows "arg_value (param_prefix p @ decimal n) p = Some (le_bytes 4 n)"
proof -
  have "match_literal (param_prefix p) (param_prefix p @ decimal n) = Some (decimal n)"
    by (simp add: match_literal_Some)
  moreover have "unat (to_unsigned False n) = n"
    using assms(2) unat_below_32 [OF assms(2)] by (simp add: to_unsigned_def)
  ultimately show ?thesis
    using assms(1) by (simp add: arg_value_def scan_value_def scan_number_decimal)
qed

lemma arg_value_string:
  assumes "p_conv p = ConvS" and "w \<noteq> []" and "list_all (\<lambda>c. \<not> is_space c) w"
  shows "arg_value (param_prefix p @ w) p = Some (map of_char w @ [0])"
proof -
  have "match_literal (param_prefix p) (param_prefix p @ w) = Some w"
    by (simp add: match_literal_Some)
  moreover have "dropWhile is_space w = w"
    using assms(2,3) by (cases w) auto
  moreover have "takeWhile (\<lambda>c. \<not> is_space c) w = w"
    using assms(3) by (simp only: list_all_iff takeWhile_eq_all_conv)
  ultimately show ?thesis
    using assms(1,2) by (simp only: arg_value_def scan_value_def Let_def conv.case option.case if_False)
qed

text \<open>
  A command line that gives every parameter of a table exactly one readable value is
  accepted, and every field gets its value.
\<close>

lemma arg_value_other:
  assumes "CHR ''='' \<notin> set (p_name p)" and "CHR ''='' \<notin> set (p_name q)" and "p_name p \<noteq> p_name q"
    and "arg_value (param_prefix p @ v) p = Some w"
  shows "arg_value (param_prefix p @ v) q = None"
  using arg_value_unique [OF assms(4) _ assms(1,2)] assms(3) by fastforce

lemma last_value_settings:
  assumes "table_ok n ps" and "list_all (\<lambda>(p, v, w). p \<in> set ps \<and> arg_value (param_prefix p @ v) p = Some w) xs"
    and "distinct (map fst xs)" and "q \<in> set ps"
  shows "last_value (map (\<lambda>(p, v, w). param_prefix p @ v) xs) q d
    = (case map_of xs q of None \<Rightarrow> d | Some (v, w) \<Rightarrow> w)"
  using assms(2,3)
proof (induction xs arbitrary: d)
  case (Cons x xs)
  obtain p v w where x: "x = (p, v, w)" by (cases x) auto
  have p: "p \<in> set ps" "arg_value (param_prefix p @ v) p = Some w" using Cons.prems(1) x by auto
  show ?case
  proof (cases "p = q")
    case True
    have "map_of xs q = None" using Cons.prems(2) True x by (simp add: map_of_eq_None_iff)
    with Cons True p x show ?thesis by simp
  next
    case False
    have "arg_value (param_prefix p @ v) q = None"
      using arg_value_other [OF _ _ _ p(2)] table_ok_distinct [OF assms(1) p(1) assms(4) False]
        table_okD [OF assms(1) p(1)] table_okD [OF assms(1,4)] by (auto simp: param_ok_def)
    with Cons False x show ?thesis by simp
  qed
qed simp

lemma table_ok_names: "table_ok n ps \<Longrightarrow> distinct ps"
  by (induction n ps rule: table_ok.induct) (auto simp: list_all_iff)

lemma parse_settings:
  assumes t: "table_ok (length cfg) ps" and junk: "\<And>i. length (junk i) = PARAM_VALUE_MAX"
    and xs: "map fst xs = ps"
    and v: "list_all (\<lambda>(p, v, w). arg_value (param_prefix p @ v) p = Some w \<and> length w \<le> PARAM_VALUE_MAX) xs"
  shows "\<exists>cfg'. parse_params junk (prog # map (\<lambda>(p, v, w). param_prefix p @ v) xs) cfg ps = Inr (0, cfg')
    \<and> length cfg' = length cfg \<and> (\<forall>(p, v, w) \<in> set xs. holds p w cfg')"
proof -
  let ?args = "map (\<lambda>(p, v, w). param_prefix p @ v) xs"
  let ?r = "parse_params junk (prog # ?args) cfg ps"
  have d: "distinct (map fst xs)" using table_ok_names [OF t] xs by simp
  have mem: "p \<in> set ps" if "(p, v, w) \<in> set xs" for p v w using that xs by force
  have acc: "list_all (accepted ps) ?args"
    using v mem by (fastforce simp: list_all_iff accepted_def)
  have "\<not> overlong ps (param_prefix p @ v)" if x: "(p, v, w) \<in> set xs" for p v w
  proof -
    have w: "arg_value (param_prefix p @ v) p = Some w" "length w \<le> PARAM_VALUE_MAX"
      using assms(4) x by (auto simp: list_all_iff)
    have "arg_value (param_prefix p @ v) q = None" if "q \<in> set ps" "q \<noteq> p" for q
      using arg_value_other [OF _ _ _ w(1)] table_ok_distinct [OF t mem [OF x] that(1)] that(2)
        table_okD [OF t mem [OF x]] table_okD [OF t that(1)] by (auto simp: param_ok_def)
    with w show ?thesis by (fastforce simp: overlong_def split: option.splits)
  qed
  then have "\<not> list_ex (overlong ps) ?args" by (auto simp: list_ex_iff)
  with parse_params_result [where junk = junk and argv = "prog # ?args", OF t junk] acc obtain cfg' where
    r: "?r = Inr (0, cfg')" "length cfg' = length cfg"
    "\<forall>p \<in> set ps. holds p (last_value ?args p (p_default p)) cfg'"
    by (cases ?r) auto
  have "holds p w cfg'" if "(p, v, w) \<in> set xs" for p v w
  proof -
    have "list_all (\<lambda>(p, v, w). p \<in> set ps \<and> arg_value (param_prefix p @ v) p = Some w) xs"
      using assms(4) mem by (fastforce simp: list_all_iff)
    from last_value_settings [OF t this d mem [OF that], of "p_default p"] that d
    have "last_value ?args p (p_default p) = w" by simp
    with r(3) mem [OF that] show ?thesis by fastforce
  qed
  with r(1,2) show ?thesis by auto
qed

subsection \<open>Properties\<close>

text \<open>C24 (functional): parsing a command line. With a well-formed table, \<open>parse_params\<close>
  succeeds exactly when every argument names a parameter and its value can be read; then
  each parameter holds the value of the last argument that names it, and its default if
  none does; otherwise it returns -1. Only a string of 128 characters or more makes it
  write outside its buffer.\<close>

theorem parse_params_last_value:
  assumes "table_ok (length cfg) ps" and "\<And>i. length (junk i) = PARAM_VALUE_MAX"
  shows "case parse_params junk argv cfg ps of
      Inl e \<Rightarrow> e = Fault \<and> list_ex (overlong ps) (tl argv)
    | Inr (r, cfg') \<Rightarrow> length cfg' = length cfg
        \<and> (if list_all (accepted ps) (tl argv)
           then r = 0 \<and> (\<forall>p \<in> set ps. holds p (last_value (tl argv) p (p_default p)) cfg')
           else r = -1)"
  by (rule parse_params_result [OF assms])

lemma decimal_examples: "decimal 5 = ''5''" "decimal 8 = ''8''"
  by code_simp+

lemma le_bytes_4:
  "le_bytes 4 n = [of_nat n, of_nat (n div 256), of_nat (n div 256 div 256), of_nat (n div 256 div 256 div 256)]"
proof -
  have "le_bytes (Suc (Suc (Suc (Suc 0)))) n =
      [of_nat n, of_nat (n div 256), of_nat (n div 256 div 256), of_nat (n div 256 div 256 div 256)]"
    by (simp only: le_bytes.simps)
  moreover have "Suc (Suc (Suc (Suc 0))) = (4 :: nat)" by simp
  ultimately show ?thesis by (simp only:)
qed

theorem parse_params_last_value_witness:
  "\<exists>cfg. parse_params (\<lambda>_. replicate 128 0) [''prog'', ''--x=5'', ''--x=8''] (replicate 4 0)
       [PARAM_UINT ''x'' 0 7] = Inr (0, cfg)
    \<and> holds (PARAM_UINT ''x'' 0 7) [8, 0, 0, 0] cfg"
proof -
  let ?ps = "[PARAM_UINT ''x'' 0 7]"
  let ?r = "parse_params (\<lambda>_. replicate 128 0) [''prog'', ''--x=5'', ''--x=8''] (replicate 4 0) ?ps"
  have v: "arg_value ''--x=5'' (PARAM_UINT ''x'' 0 7) = Some [5, 0, 0, 0]"
    "arg_value ''--x=8'' (PARAM_UINT ''x'' 0 7) = Some [8, 0, 0, 0]"
    using arg_value_unsigned [of "PARAM_UINT ''x'' 0 7" 5] arg_value_unsigned [of "PARAM_UINT ''x'' 0 7" 8]
    by (simp_all add: PARAM_UINT_def param_prefix_def decimal_examples le_bytes_4)
  have t: "table_ok (length (replicate 4 (0 :: byte))) ?ps"
    by (simp add: PARAM_UINT_def param_ok_def num_default_def PARAM_VALUE_MAX_def)
  have j: "length (replicate 128 (0 :: byte)) = PARAM_VALUE_MAX" by (simp add: PARAM_VALUE_MAX_def)
  have "case ?r of Inl e \<Rightarrow> e = Fault \<and> list_ex (overlong ?ps) [''--x=5'', ''--x=8'']
    | Inr (r, cfg') \<Rightarrow> length cfg' = 4
        \<and> (if list_all (accepted ?ps) [''--x=5'', ''--x=8'']
           then r = 0 \<and> (\<forall>p \<in> set ?ps. holds p (last_value [''--x=5'', ''--x=8''] p (p_default p)) cfg')
           else r = -1)"
    using parse_params_last_value [OF t, where junk = "\<lambda>_. replicate 128 0"
        and argv = "[''prog'', ''--x=5'', ''--x=8'']", OF j]
    unfolding list.sel(3) length_replicate .
  then show ?thesis
    by (cases ?r) (auto simp: overlong_def accepted_def v PARAM_VALUE_MAX_def)
qed

text \<open>What the fields of a filled struct hold.\<close>

lemma holds_u32:
  assumes "holds p (le_bytes 4 (unat x)) m" and "p_size p = 4"
  shows "u32_at (p_offset p) m = x"
proof -
  have "take 4 (drop (p_offset p) m) = le_bytes 4 (unat x)"
    using assms by (simp add: holds_def field_def)
  moreover have "unat x < 256 ^ 4" using unsigned_less [of x, where ?'a = nat] by simp
  ultimately show ?thesis by (simp add: u32_at_def le_nat_le_bytes)
qed

lemma holds_string:
  assumes "holds p (map of_char path @ [0]) m" and "p_offset p = 0" and "length path < n" and "p_size p = n"
    and "0 \<notin> set (map of_char path :: byte list)"
  shows "c_string (take n m) = Inr (map of_char path)"
proof -
  let ?bs = "map of_char path @ [0] :: byte list"
  have "take (length ?bs) (take n m) = take (length ?bs) m"
    using assms(3) by (simp add: min_def)
  also have "\<dots> = ?bs" using assms(1-4) by (simp add: holds_def field_def)
  finally have "take n m = map of_char path @ 0 # drop (length ?bs) (take n m)"
    by (metis append_take_drop_id append.assoc append_Cons append_Nil)
  with c_string_append [OF assms(5)] show ?thesis by metis
qed

end
