(* ===== verification/Server_Main.thy ===== *)
theory Server_Main
  imports Server_State Thread Command
begin

section \<open>Starting and stopping the server (src/server/main.c, src/util.c)\<close>

text \<open>
  The parameter table, the creation of the context (socket, epoll instances, queues,
  preallocated objects, threads), its destruction, and \<open>main\<close>. The process is the server's
  state together with the C library's: allocator, threads, closed descriptors. What system
  calls return during start-up is the environment.
\<close>

subsection \<open>Parameters\<close>

definition MAX_PATH_LEN :: nat where "MAX_PATH_LEN = 128"
definition sizeof_server_config :: nat where "sizeof_server_config = 180"

definition server_params :: "param_t list" where
  "server_params =
    [PARAM_STR ''socket_path'' 0 MAX_PATH_LEN ''/tmp/bench-server'',
     PARAM_UINT ''load.compute_dur'' 128 100,
     PARAM_UINT ''load.max_io_size'' 132 128,
     PARAM_UINT ''load.readahead'' 136 1000,
     PARAM_UINT ''threads.io'' 140 1,
     PARAM_UINT ''threads.compute'' 152 1,
     PARAM_UINT ''threads.submit'' 148 1,
     PARAM_UINT ''threads.accept'' 144 1,
     PARAM_UINT ''alloc.sessions'' 156 100,
     PARAM_UINT ''alloc.buffers'' 160 100000,
     PARAM_UINT ''kerncall.global'' 164 1,
     PARAM_UINT ''kerncall.io'' 168 0,
     PARAM_UINT ''kerncall.accept'' 172 0,
     PARAM_UINT ''kerncall.submit'' 176 0]"

text \<open>Reading the struct from its bytes.\<close>

definition server_config_of :: "byte list \<Rightarrow> server_config_t" where
  "server_config_of m =
     \<lparr>socket_path = take MAX_PATH_LEN m, compute_dur = u32_at 128 m, max_io_size = u32_at 132 m,
      readahead = u32_at 136 m, threads_io = u32_at 140 m, threads_accept = u32_at 144 m,
      threads_submit = u32_at 148 m, threads_compute = u32_at 152 m,
      alloc_sessions = u32_at 156 m, alloc_buffers = u32_at 160 m, kerncall_global = u32_at 164 m,
      kerncall_io = u32_at 168 m, kerncall_accept = u32_at 172 m, kerncall_submit = u32_at 176 m\<rparr>"

subsection \<open>The process\<close>

datatype start_routine = ComputeWorker | SubmitterWorker | IoWorker | AcceptWorker

type_synonym group = "(nat \<times> thread_group_t) option"

record server_threads_t =
  thr_compute :: group
  thr_submit :: group
  thr_io :: group
  thr_accept :: group

text \<open>The argument of the workers is the address of the context.\<close>

record 'w proc =
  srv_st :: "'w srv"
  srv_thr :: server_threads_t
  lib :: "(start_routine, nat) threads"

record server_env =
  se_threads :: thread_env
  se_socket :: int
  se_bind :: int
  se_listen :: int
  se_epoll :: "nat \<Rightarrow> int"

definition palloc :: "server_env \<Rightarrow> 'w proc \<Rightarrow> nat option \<times> 'w proc" where
  "palloc e p = (case alloc (mem_av (se_threads e)) (th_mem (lib p)) of
     (a, m) \<Rightarrow> (a, p\<lparr>lib := (lib p)\<lparr>th_mem := m\<rparr>\<rparr>))"

definition pfree :: "nat option \<Rightarrow> 'w proc \<Rightarrow> 'w proc res" where
  "pfree a p = bind_res (free a (th_mem (lib p))) (\<lambda>m. Inr (p\<lparr>lib := (lib p)\<lparr>th_mem := m\<rparr>\<rparr>))"

definition pclose :: "int \<Rightarrow> 'w proc \<Rightarrow> 'w proc" where
  "pclose sock p = p\<lparr>lib := (lib p)\<lparr>th_closed := th_closed (lib p) @ [sock]\<rparr>\<rparr>"

definition upd_srv :: "('w srv \<Rightarrow> 'w srv) \<Rightarrow> 'w proc \<Rightarrow> 'w proc" where
  "upd_srv f p = p\<lparr>srv_st := f (srv_st p)\<rparr>"

text \<open>\<open>a || b || ...\<close>: left to right, up to the first that is nonzero.\<close>

fun or_chain :: "('s \<Rightarrow> (int \<times> 's) res) list \<Rightarrow> 's \<Rightarrow> (int \<times> 's) res" where
  "or_chain [] s = Inr (0, s)"
| "or_chain (f # fs) s =
     bind_res (f s) (\<lambda>(r, s). if r \<noteq> 0 then Inr (1, s) else or_chain fs s)"

subsection \<open>The listening socket\<close>

text \<open>
  \<open>bind_sock\<close>: \<open>sun_path\<close> has 108 bytes, and \<open>strcpy\<close> does not look. The result is a
  descriptor or negative.
\<close>

definition bind_sock :: "server_env \<Rightarrow> byte list \<Rightarrow> 'w proc \<Rightarrow> (int \<times> 'w proc) res" where
  "bind_sock e path p =
     (let sock = se_socket e in
      if sock < 0 then Inr (sock, p)
      else
        bind_res (strcpy 108 path) (\<lambda>addr.
          if se_bind e < 0 then Inr (-1, pclose sock p)
          else if se_listen e \<noteq> 0 then Inr (-1, pclose sock p)
          else Inr (sock, p)))"

definition bind_server_socket :: "server_env \<Rightarrow> 'w proc \<Rightarrow> (int \<times> 'w proc) res" where
  "bind_server_socket e p =
     bind_res (bind_sock e (socket_path (cfg (srv_st p))) p) (\<lambda>(sock, p).
       if sock \<ge> 0 then Inr (0, upd_srv (\<lambda>s. s\<lparr>io := (io s)\<lparr>listen_fd := sock\<rparr>\<rparr>) p)
       else Inr (-1, p))"

text \<open>One epoll instance per IO thread; the array has \<open>SERVER_MAX_THREADS\<close> slots.\<close>

definition epoll_slot :: "server_env \<Rightarrow> nat \<Rightarrow> 'w proc \<Rightarrow> (int \<times> 'w proc) res" where
  "epoll_slot e i p =
     (let sock = se_epoll e i in
      if sock < 0 then Inr (-1, p)
      else
        bind_res (update_res (epoll_fds (io (srv_st p))) i sock) (\<lambda>fds.
          Inr (0, upd_srv (\<lambda>s. s\<lparr>io := (io s)\<lparr>epoll_fds := fds\<rparr>\<rparr>) p)))"

definition setup_server_epoll :: "server_env \<Rightarrow> 'w proc \<Rightarrow> (int \<times> 'w proc) res" where
  "setup_server_epoll e p =
     (let n = threads_io (cfg (srv_st p));
          p = upd_srv (\<lambda>s. s\<lparr>io := (io s)\<lparr>nr_io := ucast n, next_session := 0\<rparr>\<rparr>) p
      in for_res (unat n) 0 (epoll_slot e) p)"

definition setup_server_io :: "server_env \<Rightarrow> 'w proc \<Rightarrow> (int \<times> 'w proc) res" where
  "setup_server_io e p =
     bind_res (bind_server_socket e p) (\<lambda>(r, p).
       if r \<noteq> 0 then Inr (-1, p)
       else bind_res (setup_server_epoll e p) (\<lambda>(r, p). Inr (if r \<noteq> 0 then -1 else 0, p)))"

subsection \<open>The queues\<close>

text \<open>\<open>put\<close> stores the pointer through \<open>qptr\<close>.\<close>

definition alloc_one_queue ::
  "server_env \<Rightarrow> (root_id \<Rightarrow> server_queues_t \<Rightarrow> server_queues_t res) \<Rightarrow> 'w proc
    \<Rightarrow> (int \<times> 'w proc) res" where
  "alloc_one_queue e put p =
     (let (a, p) = palloc e p in
      bind_res (alloc_queue_root (map_option RHeap a) (qh (srv_st p))) (\<lambda>(q, h).
        let p = upd_srv (\<lambda>s. s\<lparr>qh := h\<rparr>) p in
        case q of
          None \<Rightarrow> Inr (-1, p)
        | Some r \<Rightarrow>
            bind_res (put r (queues (srv_st p))) (\<lambda>qs.
              Inr (0, upd_srv (\<lambda>s. s\<lparr>queues := qs\<rparr>) p))))"

definition alloc_n_queues ::
  "server_env \<Rightarrow> (nat \<Rightarrow> root_id \<Rightarrow> server_queues_t \<Rightarrow> server_queues_t res) \<Rightarrow> nat \<Rightarrow> 'w proc
    \<Rightarrow> (int \<times> 'w proc) res" where
  "alloc_n_queues e put n p = for_res n 0 (\<lambda>i. alloc_one_queue e (put i)) p"

definition put_compute :: "nat \<Rightarrow> root_id \<Rightarrow> server_queues_t \<Rightarrow> server_queues_t res" where
  "put_compute i r qs = bind_res (update_res (compute_inbox qs) i (Some r)) (\<lambda>xs.
     Inr (qs\<lparr>compute_inbox := xs\<rparr>))"

definition put_submitter :: "nat \<Rightarrow> root_id \<Rightarrow> server_queues_t \<Rightarrow> server_queues_t res" where
  "put_submitter i r qs = bind_res (update_res (submitter_inbox qs) i (Some r)) (\<lambda>xs.
     Inr (qs\<lparr>submitter_inbox := xs\<rparr>))"

definition alloc_server_queues :: "server_env \<Rightarrow> 'w proc \<Rightarrow> (int \<times> 'w proc) res" where
  "alloc_server_queues e p = or_chain
     [alloc_one_queue e (\<lambda>r qs. Inr (qs\<lparr>empty_connections := Some r\<rparr>)),
      alloc_one_queue e (\<lambda>r qs. Inr (qs\<lparr>empty_buffers := Some r\<rparr>)),
      \<lambda>p. alloc_n_queues e put_compute (unat (threads_compute (cfg (srv_st p)))) p,
      \<lambda>p. alloc_n_queues e put_submitter (unat (threads_submit (cfg (srv_st p)))) p] p"

text \<open>The roots of the context are heap objects.\<close>

fun root_addr :: "root_id \<Rightarrow> nat option" where
  "root_addr (RHeap a) = Some a"
| "root_addr (RSend c) = None"

definition cleanup_one_queue :: "root_id option \<Rightarrow> 'w proc \<Rightarrow> (int \<times> 'w proc) res" where
  "cleanup_one_queue q p =
     bind_res (pfree (case q of None \<Rightarrow> None | Some r \<Rightarrow> root_addr r) p) (\<lambda>p. Inr (0, p))"

definition cleanup_n_queues ::
  "('w srv \<Rightarrow> root_id option list) \<Rightarrow> nat \<Rightarrow> 'w proc \<Rightarrow> (int \<times> 'w proc) res" where
  "cleanup_n_queues qs n p = for_res n 0 (\<lambda>i p.
     bind_res (index_res (qs (srv_st p)) i) (\<lambda>q.
     bind_res (cleanup_one_queue q p) (\<lambda>(r, p). Inr (if r \<noteq> 0 then -1 else 0, p)))) p"

definition cleanup_server_queues :: "'w proc \<Rightarrow> (int \<times> 'w proc) res" where
  "cleanup_server_queues p = or_chain
     [\<lambda>p. cleanup_one_queue (empty_connections (queues (srv_st p))) p,
      \<lambda>p. cleanup_one_queue (empty_buffers (queues (srv_st p))) p,
      \<lambda>p. cleanup_n_queues (compute_inbox \<circ> queues) (unat (threads_compute (cfg (srv_st p)))) p,
      \<lambda>p. cleanup_n_queues (submitter_inbox \<circ> queues) (unat (threads_submit (cfg (srv_st p)))) p] p"

subsection \<open>Preallocated objects\<close>

text \<open>
  One round of each loop: an object, put into its pool. The loop variables are \<open>int\<close>s;
  counting beyond \<open>INT_MAX\<close> is undefined.
\<close>

definition prealloc_one ::
  "server_env \<Rightarrow> (nat \<Rightarrow> node) \<Rightarrow> ('w srv \<Rightarrow> root_id option) \<Rightarrow> nat \<Rightarrow> 'w proc
    \<Rightarrow> (int \<times> 'w proc) res" where
  "prealloc_one e mk pool i p =
     (let (a, p) = palloc e p in
      case a of
        None \<Rightarrow> Inr (-1, p)
      | Some a \<Rightarrow>
          bind_res (srv_put (Ptr (mk a)) (pool (srv_st p)) (srv_st p)) (\<lambda>s.
            if i = 2 ^ 31 - 1 then Inl Fault else Inr (0, p\<lparr>srv_st := s\<rparr>)))"

definition setup_server_prealloc :: "server_env \<Rightarrow> 'w proc \<Rightarrow> (int \<times> 'w proc) res" where
  "setup_server_prealloc e p =
     bind_res (for_res (unat (alloc_sessions (cfg (srv_st p)))) 0
         (prealloc_one e ConnQ (empty_connections \<circ> queues)) p) (\<lambda>(r, p).
     if r \<noteq> 0 then Inr (-1, p)
     else
       bind_res (for_res (unat (alloc_buffers (cfg (srv_st p)))) 0
           (prealloc_one e BufQ (empty_buffers \<circ> queues)) p) (\<lambda>(r, p).
       Inr (if r \<noteq> 0 then -1 else 0, p)))"

text \<open>Taking everything out of a pool and freeing it; the fuel bounds the rounds.\<close>

definition free_round ::
  "(link \<Rightarrow> nat res) \<Rightarrow> ('w srv \<Rightarrow> root_id option) \<Rightarrow> 'w proc \<Rightarrow> (unit option \<times> 'w proc) res" where
  "free_round container pool p =
     bind_res (srv_get (pool (srv_st p)) (srv_st p)) (\<lambda>(q, s).
     let p = p\<lparr>srv_st := s\<rparr> in
     if q = Null then Inr (Some (), p)
     else bind_res (container q) (\<lambda>a. bind_res (pfree (Some a) p) (\<lambda>p. Inr (None, p))))"

definition free_server_prealloc :: "nat \<Rightarrow> 'w proc \<Rightarrow> 'w proc res" where
  "free_server_prealloc n p =
     bind_res (loop_res n (free_round container_of_connection (empty_connections \<circ> queues)) p)
       (\<lambda>(_, p).
     bind_res (loop_res n (free_round container_of_buffer (empty_buffers \<circ> queues)) p)
       (\<lambda>(_, p). Inr p))"

subsection \<open>Threads\<close>

definition spawn_group ::
  "server_env \<Rightarrow> string \<Rightarrow> (server_config_t \<Rightarrow> u32) \<Rightarrow> start_routine
    \<Rightarrow> (group \<Rightarrow> server_threads_t \<Rightarrow> server_threads_t) \<Rightarrow> nat \<Rightarrow> 'w proc \<Rightarrow> (int \<times> 'w proc) res"
where
  "spawn_group e name n f put addr p =
     bind_res (thread_group_create (se_threads e) name (unat (n (cfg (srv_st p)))) f addr (lib p))
       (\<lambda>(g, l).
         let p = p\<lparr>lib := l, srv_thr := put g (srv_thr p)\<rparr> in
         Inr (if g = None then -1 else 0, p))"

definition spawn_server_threads :: "server_env \<Rightarrow> nat \<Rightarrow> 'w proc \<Rightarrow> (int \<times> 'w proc) res" where
  "spawn_server_threads e addr p =
     bind_res (or_chain
       [spawn_group e ''compute'' threads_compute ComputeWorker (\<lambda>g t. t\<lparr>thr_compute := g\<rparr>) addr,
        spawn_group e ''submit'' threads_submit SubmitterWorker (\<lambda>g t. t\<lparr>thr_submit := g\<rparr>) addr,
        spawn_group e ''IO'' threads_io IoWorker (\<lambda>g t. t\<lparr>thr_io := g\<rparr>) addr,
        spawn_group e ''accept'' threads_accept AcceptWorker (\<lambda>g t. t\<lparr>thr_accept := g\<rparr>) addr] p)
       (\<lambda>(r, p). Inr (if r \<noteq> 0 then -1 else 0, p))"

text \<open>Only groups that exist are joined; the results are dropped.\<close>

definition join_group ::
  "((start_routine, nat) thread_info_t \<Rightarrow> int) \<Rightarrow> group \<Rightarrow> 'w proc \<Rightarrow> 'w proc res" where
  "join_group stale g p =
     (case g of
        None \<Rightarrow> Inr p
      | Some (_, tg) \<Rightarrow>
          bind_res (thread_group_join stale tg (lib p)) (\<lambda>(_, l). Inr (p\<lparr>lib := l\<rparr>)))"

definition cleanup_server_threads ::
  "((start_routine, nat) thread_info_t \<Rightarrow> int) \<Rightarrow> 'w proc \<Rightarrow> 'w proc res" where
  "cleanup_server_threads stale p =
     bind_res (join_group stale (thr_submit (srv_thr p)) p) (\<lambda>p.
     bind_res (join_group stale (thr_io (srv_thr p)) p) (\<lambda>p.
     bind_res (join_group stale (thr_accept (srv_thr p)) p) (\<lambda>p.
     join_group stale (thr_compute (srv_thr p)) p)))"

subsection \<open>Creating and destroying the server\<close>

text \<open>
  The test in \<open>cleanup_server_epoll\<close> compares the array, not an element, with 0, and what
  is closed is always the first descriptor.
\<close>

definition cleanup_server_epoll :: "'w proc \<Rightarrow> 'w proc res" where
  "cleanup_server_epoll p =
     bind_res (for_res (unat (nr_io (io (srv_st p)))) 0 (\<lambda>i p.
       bind_res (index_res (epoll_fds (io (srv_st p))) 0) (\<lambda>sock. Inr (0, pclose sock p))) p)
       (\<lambda>(_, p). Inr p)"

definition cleanup_server_io :: "'w proc \<Rightarrow> 'w proc res" where
  "cleanup_server_io p =
     bind_res (cleanup_server_epoll p) (\<lambda>p.
       Inr (if listen_fd (io (srv_st p)) \<ge> 0 then pclose (listen_fd (io (srv_st p))) p else p))"

definition destroy_server ::
  "nat \<Rightarrow> ((start_routine, nat) thread_info_t \<Rightarrow> int) \<Rightarrow> nat \<Rightarrow> 'w proc \<Rightarrow> (int \<times> 'w proc) res"
where
  "destroy_server n stale addr p =
     (let p = upd_srv (stopping_update (\<lambda>_. 1)) p in
      bind_res (cleanup_server_threads stale p) (\<lambda>p.
      bind_res (free_server_prealloc n p) (\<lambda>p.
      bind_res (cleanup_server_queues p) (\<lambda>(_, p).
      bind_res (cleanup_server_io p) (\<lambda>p.
      bind_res (pfree (Some addr) p) (\<lambda>p. Inr (0, p)))))))"

text \<open>The context after \<open>memset\<close> and the first assignments; the rest is memory as it was.\<close>

definition blank_ctx :: "server_config_t \<Rightarrow> 'w proc \<Rightarrow> 'w proc" where
  "blank_ctx c p = p\<lparr>
     srv_st := (srv_st p)\<lparr>cfg := c,
       queues := \<lparr>empty_connections = None, empty_buffers = None,
         compute_inbox = replicate SERVER_MAX_THREADS None,
         submitter_inbox = replicate SERVER_MAX_THREADS None\<rparr>,
       io := \<lparr>listen_fd = -1, nr_io = 0, epoll_fds = replicate SERVER_MAX_THREADS (-1),
         next_session = 0\<rparr>, stopping := 0\<rparr>,
     srv_thr := \<lparr>thr_compute = None, thr_submit = None, thr_io = None, thr_accept = None\<rparr>\<rparr>"

definition create_server ::
  "server_env \<Rightarrow> nat \<Rightarrow> ((start_routine, nat) thread_info_t \<Rightarrow> int) \<Rightarrow> server_config_t \<Rightarrow> 'w proc
    \<Rightarrow> (nat option \<times> 'w proc) res" where
  "create_server e n stale c p =
     (let (a, p) = palloc e p in
      case a of
        None \<Rightarrow> Inr (None, p)
      | Some addr \<Rightarrow>
          bind_res (or_chain [setup_server_io e, alloc_server_queues e, setup_server_prealloc e,
              spawn_server_threads e addr] (blank_ctx c p)) (\<lambda>(r, p).
          if r \<noteq> 0 then bind_res (destroy_server n stale addr p) (\<lambda>(_, p). Inr (None, p))
          else Inr (Some addr, p)))"

text \<open>
  \<open>run_server\<close> does not look whether \<open>create_server\<close> failed: it reads \<open>stopping\<close> through
  the pointer it got. \<open>work i\<close> is what the worker threads and the signal handler do while
  it sleeps for the \<open>i\<close>th time.
\<close>

definition sigint_handler :: "'w proc \<Rightarrow> 'w proc option" where
  "sigint_handler p =
     (if stopping (srv_st p) = 0 then Some (upd_srv (stopping_update (\<lambda>_. 1)) p) else None)"

fun wait_stop :: "nat \<Rightarrow> (nat \<Rightarrow> 'w proc \<Rightarrow> 'w proc) \<Rightarrow> nat \<Rightarrow> 'w proc \<Rightarrow> 'w proc res" where
  "wait_stop 0 work i p = Inl OutOfFuel"
| "wait_stop (Suc n) work i p =
     (if stopping (srv_st p) \<noteq> 0 then Inr p else wait_stop n work (Suc i) (work i p))"

definition run_server ::
  "server_env \<Rightarrow> nat \<Rightarrow> ((start_routine, nat) thread_info_t \<Rightarrow> int) \<Rightarrow> (nat \<Rightarrow> 'w proc \<Rightarrow> 'w proc)
    \<Rightarrow> server_config_t \<Rightarrow> 'w proc \<Rightarrow> (int \<times> 'w proc) res" where
  "run_server e n stale work c p =
     bind_res (create_server e n stale c p) (\<lambda>(ctx, p).
     bind_res (deref ctx) (\<lambda>addr.
     bind_res (wait_stop n work 0 p) (\<lambda>p.
     bind_res (destroy_server n stale addr p) (\<lambda>(_, p). Inr (0, p)))))"

text \<open>
  \<open>main\<close>, with the uninitialised \<open>cfg\<close> and the result of \<open>kerncall_setup\<close>; the exit status
  and the process at the end.
\<close>

definition server_main ::
  "server_env \<Rightarrow> nat \<Rightarrow> ((start_routine, nat) thread_info_t \<Rightarrow> int) \<Rightarrow> (nat \<Rightarrow> 'w proc \<Rightarrow> 'w proc)
    \<Rightarrow> (nat \<Rightarrow> byte list) \<Rightarrow> byte list \<Rightarrow> string list \<Rightarrow> 'w proc \<Rightarrow> (int \<times> 'w proc) res" where
  "server_main e n stale work junk cfg0 argv p =
     bind_res (parse_command_args junk argv cfg0
         \<lparr>progname = (case argv of [] \<Rightarrow> [] | a # _ \<Rightarrow> a), description = ''PIOT benchmark server'',
          params = server_params\<rparr>) (\<lambda>(r, m).
     if r \<noteq> 0 then Inr (1, p) else run_server e n stale work (server_config_of m) p)"

end
