(* ===== verification/Server_Start.thy ===== *)
theory Server_Start
  imports Server_Main Server_Props
begin

section \<open>What starting and stopping the server achieves\<close>

text \<open>
  The phases of \<open>create_server\<close>, when it succeeds, what it builds, and what happens when it
  fails. The state it leaves is the one from which theory \<open>Server\<close> runs the workers.
\<close>

subsection \<open>What a successful start builds\<close>

abbreviation na :: "'w proc \<Rightarrow> nat" where
  "na p \<equiv> n_alloc (th_mem (lib p))"

text \<open>What the steps of the creation leave alone.\<close>

definition keeps :: "'w proc \<Rightarrow> 'w proc \<Rightarrow> bool" where
  "keeps p p' \<longleftrightarrow> cfg (srv_st p') = cfg (srv_st p) \<and> conns (srv_st p') = conns (srv_st p)
     \<and> bufs (srv_st p') = bufs (srv_st p) \<and> io (srv_st p') = io (srv_st p)
     \<and> srv_thr p' = srv_thr p"

lemma keeps_refl [simp]: "keeps p p"
  by (simp add: keeps_def)

lemma keeps_trans: "keeps p q \<Longrightarrow> keeps q r \<Longrightarrow> keeps p r"
  by (simp add: keeps_def)

lemma palloc_step:
  assumes "palloc e p = (a, p')" and "threads_ok (lib p)"
  shows "srv_st p' = srv_st p" "keeps p p'" "na p' = Suc (na p)" "threads_ok (lib p')"
    "a = Some x \<Longrightarrow> x = na p"
  using assms
  by (auto simp: palloc_def alloc_def Let_def keeps_def threads_ok_def mem_ok_def allocated_def
      less_Suc_eq subset_iff domIff split: prod.splits if_splits)

lemma or_chain_ok:
  "or_chain (f # fs) s = Inr (0, s') \<longleftrightarrow> (\<exists>s1. f s = Inr (0, s1) \<and> or_chain fs s1 = Inr (0, s'))"
  by (auto simp: bind_res_Inr_iff split: if_splits)

text \<open>
  The queues built so far: pools \<open>ec\<close> and \<open>eb\<close> holding \<open>ns\<close> and \<open>ms\<close>, and empty inboxes
  \<open>cs\<close> and \<open>ss\<close>, all at different addresses.
\<close>

definition the_queues ::
  "root_id option \<Rightarrow> root_id option \<Rightarrow> root_id list \<Rightarrow> root_id list \<Rightarrow> server_queues_t" where
  "the_queues ec eb cs ss = \<lparr>empty_connections = ec, empty_buffers = eb,
     compute_inbox = map Some cs @ replicate (SERVER_MAX_THREADS - length cs) None,
     submitter_inbox = map Some ss @ replicate (SERVER_MAX_THREADS - length ss) None\<rparr>"

definition the_roots ::
  "root_id option \<Rightarrow> root_id option \<Rightarrow> root_id list \<Rightarrow> root_id list \<Rightarrow> root_id list" where
  "the_roots ec eb cs ss = (case ec of None \<Rightarrow> [] | Some r \<Rightarrow> [r])
     @ (case eb of None \<Rightarrow> [] | Some r \<Rightarrow> [r]) @ cs @ ss"

definition contents_of ::
  "root_id option \<Rightarrow> root_id option \<Rightarrow> root_id list \<Rightarrow> root_id list \<Rightarrow> node list \<Rightarrow> node list
    \<Rightarrow> root_id \<Rightarrow> node list option" where
  "contents_of ec eb cs ss ns ms r =
     (if ec = Some r then Some ns else if eb = Some r then Some ms
      else if r \<in> set cs \<union> set ss then Some [] else None)"

definition built ::
  "root_id option \<Rightarrow> root_id option \<Rightarrow> root_id list \<Rightarrow> root_id list \<Rightarrow> node list \<Rightarrow> node list
    \<Rightarrow> 'w proc \<Rightarrow> bool" where
  "built ec eb cs ss ns ms p \<longleftrightarrow> threads_ok (lib p)
     \<and> queues (srv_st p) = the_queues ec eb cs ss
     \<and> length cs \<le> SERVER_MAX_THREADS \<and> length ss \<le> SERVER_MAX_THREADS
     \<and> distinct (the_roots ec eb cs ss) \<and> set (the_roots ec eb cs ss) \<subseteq> RHeap ` {..<na p}
     \<and> qrep (qh (srv_st p)) (contents_of ec eb cs ss ns ms)"

lemma qrep_none: "qrep h Map.empty"
  by (simp add: qrep_def queues_at_def)

lemma blank_built:
  "threads_ok (lib p) \<Longrightarrow> queues (srv_st p) = the_queues None None [] []
    \<Longrightarrow> built None None [] [] ns ms p"
  using qrep_none by (simp add: built_def the_roots_def contents_of_def [abs_def])

lemma alloc_one_step:
  assumes "alloc_one_queue e put p = Inr (0, p')" and "threads_ok (lib p)"
  obtains qs where "put (RHeap (na p)) (queues (srv_st p)) = Inr qs"
    and "srv_st p' = (srv_st p)\<lparr>qh := init_queue_root (RHeap (na p)) (qh (srv_st p)), queues := qs\<rparr>"
    and "na p' = Suc (na p)" and "threads_ok (lib p')" and "keeps p p'"
proof -
  obtain a p1 where a: "palloc e p = (a, p1)" by fastforce
  note s = palloc_step [OF this assms(2)]
  from assms(1) a obtain x qs where x: "a = Some x" "put (RHeap x) (queues (srv_st p)) = Inr qs"
    "p' = p1\<lparr>srv_st := (srv_st p)\<lparr>qh := init_queue_root (RHeap x) (qh (srv_st p)), queues := qs\<rparr>\<rparr>"
    by (cases a) (auto simp: alloc_one_queue_def alloc_queue_root_def upd_srv_def s(1) bind_res_Inr_iff)
  from s(5) [OF x(1)] x s(2-4) show thesis by (intro that [of qs]) (auto simp: keeps_def)
qed

text \<open>A new queue at a new address is added in whichever place.\<close>

lemma built_new_root:
  assumes "built ec eb cs ss [] [] p" and "threads_ok (lib p')" and "na p' = Suc (na p)"
    and "srv_st p' = (srv_st p)\<lparr>qh := init_queue_root (RHeap (na p)) (qh (srv_st p)),
      queues := the_queues ec' eb' cs' ss'\<rparr>"
    and "length cs' \<le> SERVER_MAX_THREADS" and "length ss' \<le> SERVER_MAX_THREADS"
    and "set (the_roots ec' eb' cs' ss') = insert (RHeap (na p)) (set (the_roots ec eb cs ss))"
    and "length (the_roots ec' eb' cs' ss') = Suc (length (the_roots ec eb cs ss))"
  shows "built ec' eb' cs' ss' [] [] p'"
proof -
  have old: "RHeap (na p) \<notin> set (the_roots ec eb cs ss)"
    using assms(1) by (auto simp: built_def)
  have "card (set (the_roots ec' eb' cs' ss')) = length (the_roots ec' eb' cs' ss')"
    using assms(1,7,8) old by (simp add: built_def distinct_card)
  then have dist: "distinct (the_roots ec' eb' cs' ss')" by (rule card_distinct)
  have c: "contents_of a b xs ys [] [] = (\<lambda>r. if r \<in> set (the_roots a b xs ys) then Some [] else None)"
    for a b xs ys by (auto simp: contents_of_def the_roots_def fun_eq_iff split: option.splits)
  have "qrep (qh (srv_st p')) ((contents_of ec eb cs ss [] [])(RHeap (na p) \<mapsto> []))"
    using assms(1,4) by (simp add: built_def dq.init_law)
  moreover have "(contents_of ec eb cs ss [] [])(RHeap (na p) \<mapsto> []) = contents_of ec' eb' cs' ss' [] []"
    unfolding c assms(7) by (auto simp: fun_eq_iff)
  moreover have "set (the_roots ec' eb' cs' ss') \<subseteq> RHeap ` {..<na p'}"
    using assms(1,3,7) by (auto simp: built_def less_Suc_eq)
  ultimately show ?thesis using assms(2,4-6) dist by (simp add: built_def)
qed

lemma put_compute_slot:
  assumes "put_compute (length cs) r (the_queues ec eb cs ss) = Inr qs"
    and "length cs \<le> SERVER_MAX_THREADS"
  shows "length cs < SERVER_MAX_THREADS" "qs = the_queues ec eb (cs @ [r]) ss"
proof -
  show l: "length cs < SERVER_MAX_THREADS"
    using assms by (auto simp: put_compute_def the_queues_def update_res_def split: if_splits)
  then have "SERVER_MAX_THREADS - length cs = Suc (SERVER_MAX_THREADS - Suc (length cs))" by simp
  then have "(map Some cs @ replicate (SERVER_MAX_THREADS - length cs) None)[length cs := Some r]
      = map Some (cs @ [r]) @ replicate (SERVER_MAX_THREADS - length (cs @ [r])) None"
    by (simp add: list_update_append)
  then show "qs = the_queues ec eb (cs @ [r]) ss"
    using assms(1) l by (simp add: put_compute_def the_queues_def update_res_def split: if_splits)
qed

lemma put_submitter_slot:
  assumes "put_submitter (length ss) r (the_queues ec eb cs ss) = Inr qs"
    and "length ss \<le> SERVER_MAX_THREADS"
  shows "length ss < SERVER_MAX_THREADS" "qs = the_queues ec eb cs (ss @ [r])"
proof -
  show l: "length ss < SERVER_MAX_THREADS"
    using assms by (auto simp: put_submitter_def the_queues_def update_res_def split: if_splits)
  then have "SERVER_MAX_THREADS - length ss = Suc (SERVER_MAX_THREADS - Suc (length ss))" by simp
  then have "(map Some ss @ replicate (SERVER_MAX_THREADS - length ss) None)[length ss := Some r]
      = map Some (ss @ [r]) @ replicate (SERVER_MAX_THREADS - length (ss @ [r])) None"
    by (simp add: list_update_append)
  then show "qs = the_queues ec eb cs (ss @ [r])"
    using assms(1) l by (simp add: put_submitter_def the_queues_def update_res_def split: if_splits)
qed

text \<open>One more queue of each kind.\<close>

lemma alloc_built:
  assumes "alloc_one_queue e put p = Inr (0, p')" and "built ec eb cs ss [] [] p"
    and "\<And>qs. put (RHeap (na p)) (the_queues ec eb cs ss) = Inr qs
      \<Longrightarrow> qs = the_queues ec' eb' cs' ss' \<and> length cs' \<le> SERVER_MAX_THREADS \<and> length ss' \<le> SERVER_MAX_THREADS
        \<and> set (the_roots ec' eb' cs' ss') = insert (RHeap (na p)) (set (the_roots ec eb cs ss))
        \<and> length (the_roots ec' eb' cs' ss') = Suc (length (the_roots ec eb cs ss))"
  shows "built ec' eb' cs' ss' [] [] p'" "keeps p p'"
proof -
  have ok: "threads_ok (lib p)" and q: "queues (srv_st p) = the_queues ec eb cs ss"
    using assms(2) by (simp_all add: built_def)
  from alloc_one_step [OF assms(1) ok] obtain qs where
    1: "put (RHeap (na p)) (queues (srv_st p)) = Inr qs"
    "srv_st p' = (srv_st p)\<lparr>qh := init_queue_root (RHeap (na p)) (qh (srv_st p)), queues := qs\<rparr>"
    "na p' = Suc (na p)" "threads_ok (lib p')" "keeps p p'" by metis
  note 2 = assms(3) [OF 1(1) [unfolded q]]
  from 1(2) 2 have "srv_st p' = (srv_st p)\<lparr>qh := init_queue_root (RHeap (na p)) (qh (srv_st p)),
      queues := the_queues ec' eb' cs' ss'\<rparr>" by simp
  from built_new_root [OF assms(2) 1(4,3) this] 2 show "built ec' eb' cs' ss' [] [] p'" by blast
  show "keeps p p'" by (rule 1(5))
qed

lemma compute_inbox_step:
  assumes "\<exists>cs. length cs = i \<and> built ec eb cs [] [] [] q \<and> keeps p q"
    and "alloc_one_queue e (put_compute i) q = Inr (0, q')"
  shows "\<exists>cs. length cs = Suc i \<and> built ec eb cs [] [] [] q' \<and> keeps p q'"
proof -
  from assms(1) obtain cs where cs: "length cs = i" "built ec eb cs [] [] [] q" "keeps p q" by blast
  have "built ec eb (cs @ [RHeap (na q)]) [] [] [] q' \<and> keeps q q'"
    by (rule conjI; rule alloc_built [OF assms(2) cs(2)])
      (use cs put_compute_slot [of cs _ ec eb "[]"] in \<open>auto simp: the_roots_def built_def Suc_le_eq\<close>)
  with cs(1) keeps_trans [OF cs(3)] show ?thesis
    by (intro exI [of _ "cs @ [RHeap (na q)]"]) auto
qed

lemma alloc_compute_inboxes:
  assumes "alloc_n_queues e put_compute n p = Inr (0, p')" and "built ec eb [] [] [] [] p"
  shows "\<exists>cs. length cs = n \<and> built ec eb cs [] [] [] p' \<and> keeps p p'"
  by (rule for_res_steps0 [where P = "\<lambda>i q. \<exists>cs. length cs = i \<and> built ec eb cs [] [] [] q \<and> keeps p q", OF assms(1) [unfolded alloc_n_queues_def]])
    (use assms(2) in simp, rule compute_inbox_step)

lemma submitter_inbox_step:
  assumes "\<exists>ss. length ss = i \<and> built ec eb cs ss [] [] q \<and> keeps p q"
    and "alloc_one_queue e (put_submitter i) q = Inr (0, q')"
  shows "\<exists>ss. length ss = Suc i \<and> built ec eb cs ss [] [] q' \<and> keeps p q'"
proof -
  from assms(1) obtain ss where ss: "length ss = i" "built ec eb cs ss [] [] q" "keeps p q" by blast
  have "built ec eb cs (ss @ [RHeap (na q)]) [] [] q' \<and> keeps q q'"
    by (rule conjI; rule alloc_built [OF assms(2) ss(2)])
      (use ss put_submitter_slot [of ss _ ec eb cs] in \<open>auto simp: the_roots_def built_def Suc_le_eq\<close>)
  with ss(1) keeps_trans [OF ss(3)] show ?thesis
    by (intro exI [of _ "ss @ [RHeap (na q)]"]) auto
qed

lemma alloc_submitter_inboxes:
  assumes "alloc_n_queues e put_submitter n p = Inr (0, p')" and "built ec eb cs [] [] [] p"
  shows "\<exists>ss. length ss = n \<and> built ec eb cs ss [] [] p' \<and> keeps p p'"
  by (rule for_res_steps0 [where P = "\<lambda>i q. \<exists>ss. length ss = i \<and> built ec eb cs ss [] [] q \<and> keeps p q", OF assms(1) [unfolded alloc_n_queues_def]])
    (use assms(2) in simp, rule submitter_inbox_step)

lemma alloc_server_queues_ok:
  assumes "alloc_server_queues e p = Inr (0, p')" and "built None None [] [] [] [] p"
  obtains ec eb cs ss where "built (Some ec) (Some eb) cs ss [] [] p'" and "keeps p p'"
    and "length cs = unat (threads_compute (cfg (srv_st p)))"
    and "length ss = unat (threads_submit (cfg (srv_st p)))"
proof -
  from assms(1) obtain p1 p2 p3 where
    1: "alloc_one_queue e (\<lambda>r qs. Inr (qs\<lparr>empty_connections := Some r\<rparr>)) p = Inr (0, p1)" and
    2: "alloc_one_queue e (\<lambda>r qs. Inr (qs\<lparr>empty_buffers := Some r\<rparr>)) p1 = Inr (0, p2)" and
    3: "alloc_n_queues e put_compute (unat (threads_compute (cfg (srv_st p2)))) p2 = Inr (0, p3)" and
    4: "alloc_n_queues e put_submitter (unat (threads_submit (cfg (srv_st p3)))) p3 = Inr (0, p')"
    unfolding alloc_server_queues_def or_chain_ok by auto
  have b1: "built (Some (RHeap (na p))) None [] [] [] [] p1 \<and> keeps p p1"
    by (rule conjI; rule alloc_built [OF 1 assms(2)]) (auto simp: the_queues_def the_roots_def)
  then have b2: "built (Some (RHeap (na p))) (Some (RHeap (na p1))) [] [] [] [] p2 \<and> keeps p1 p2"
    by (intro conjI; elim conjE; intro alloc_built [OF 2]) (auto simp: the_queues_def the_roots_def)
  from alloc_compute_inboxes [OF 3 b2 [THEN conjunct1]] obtain cs where
    b3: "length cs = unat (threads_compute (cfg (srv_st p2)))"
    "built (Some (RHeap (na p))) (Some (RHeap (na p1))) cs [] [] [] p3" "keeps p2 p3" by blast
  from alloc_submitter_inboxes [OF 4 b3(2)] obtain ss where
    b4: "length ss = unat (threads_submit (cfg (srv_st p3)))"
    "built (Some (RHeap (na p))) (Some (RHeap (na p1))) cs ss [] [] p'" "keeps p3 p'" by blast
  show thesis
    by (rule that [OF b4(2)]) (use b1 b2 b3 b4 in \<open>auto simp: keeps_def\<close>)
qed

lemma contents_of_upd:
  "(contents_of (Some ec) eb cs ss ns ms)(ec \<mapsto> ns') = contents_of (Some ec) eb cs ss ns' ms"
  "ec \<noteq> eb' \<Longrightarrow>
    (contents_of (Some ec) (Some eb') cs ss ns ms)(eb' \<mapsto> ms') = contents_of (Some ec) (Some eb') cs ss ns ms'"
  by (auto simp: contents_of_def fun_eq_iff)

text \<open>The objects put into the pools so far.\<close>

definition pooled ::
  "root_id \<Rightarrow> root_id \<Rightarrow> root_id list \<Rightarrow> root_id list \<Rightarrow> nat list \<Rightarrow> nat list \<Rightarrow> 'w proc \<Rightarrow> bool"
where
  "pooled ec eb cs ss xs ys p \<longleftrightarrow> built (Some ec) (Some eb) cs ss (map ConnQ xs) (map BufQ ys) p
     \<and> distinct xs \<and> distinct ys \<and> set xs \<subseteq> {..<na p} \<and> set ys \<subseteq> {..<na p}
     \<and> length xs < 2 ^ 31 \<and> length ys < 2 ^ 31"

lemma prealloc_step:
  assumes "prealloc_one e mk pool i p = Inr (0, p')" and "pooled ec eb cs ss xs ys p"
    and "pool (srv_st p) = Some r"
    and "contents_of (Some ec) (Some eb) cs ss (map ConnQ xs) (map BufQ ys) r = Some ns"
    and mk: "mk = ConnQ \<or> mk = BufQ"
  shows "threads_ok (lib p')" "na p' = Suc (na p)" "keeps p p'" "i \<noteq> 2 ^ 31 - 1"
    "queues (srv_st p') = queues (srv_st p)"
    "qrep (qh (srv_st p'))
      ((contents_of (Some ec) (Some eb) cs ss (map ConnQ xs) (map BufQ ys))(r \<mapsto> ns @ [mk (na p)]))"
proof -
  let ?Q = "contents_of (Some ec) (Some eb) cs ss (map ConnQ xs) (map BufQ ys)"
  have B: "threads_ok (lib p)" "qrep (qh (srv_st p)) ?Q"
    using assms(2) by (simp_all add: pooled_def built_def)
  obtain a p1 where a: "palloc e p = (a, p1)" by fastforce
  note s = palloc_step [OF this B(1)]
  have "na p \<notin> set xs \<union> set ys" using assms(2) by (auto simp: pooled_def)
  then have "unqueued (mk (na p)) ?Q"
    using mk by (auto simp: unqueued_def contents_of_def split: if_splits)
  from dq.put_law [OF B(2) assms(4) this] obtain h where
    h: "queue_put (Ptr (mk (na p))) r (qh (srv_st p)) = Inr h" "qrep h (?Q(r \<mapsto> ns @ [mk (na p)]))"
    by blast
  from assms(1,3) a obtain x s1 where x: "a = Some x" "i \<noteq> 2 ^ 31 - 1"
    "srv_put (Ptr (mk x)) (Some r) (srv_st p) = Inr s1" "p' = p1\<lparr>srv_st := s1\<rparr>"
    by (cases a) (auto simp: prealloc_one_def s(1) bind_res_Inr_iff split: if_splits)
  with s(5) [OF x(1)] h have "s1 = (srv_st p)\<lparr>qh := h\<rparr>" by (auto simp: srv_put_def)
  with x s(2-4) h(2) show "threads_ok (lib p')" "na p' = Suc (na p)" "keeps p p'" "i \<noteq> 2 ^ 31 - 1"
    "queues (srv_st p') = queues (srv_st p)" "qrep (qh (srv_st p')) (?Q(r \<mapsto> ns @ [mk (na p)]))"
    by (auto simp: keeps_def)
qed

lemma below_int_max: "i < 2 ^ 31 \<Longrightarrow> i \<noteq> 2 ^ 31 - 1 \<Longrightarrow> Suc i < 2 ^ 31"
  by simp

lemma pooled_pools:
  assumes "pooled ec eb cs ss xs ys p"
  shows "(empty_connections \<circ> queues) (srv_st p) = Some ec" "(empty_buffers \<circ> queues) (srv_st p) = Some eb"
    "ec \<noteq> eb"
    "contents_of (Some ec) (Some eb) cs ss (map ConnQ xs) (map BufQ ys) ec = Some (map ConnQ xs)"
    "contents_of (Some ec) (Some eb) cs ss (map ConnQ xs) (map BufQ ys) eb = Some (map BufQ ys)"
  using assms by (auto simp: pooled_def built_def the_queues_def the_roots_def contents_of_def)

lemma connection_step:
  assumes "\<exists>xs. length xs = i \<and> pooled ec eb cs ss xs [] q \<and> keeps p q"
    and b: "prealloc_one e ConnQ (empty_connections \<circ> queues) i q = Inr (0, q')"
  shows "\<exists>xs. length xs = Suc i \<and> pooled ec eb cs ss xs [] q' \<and> keeps p q'"
proof -
  from assms(1) obtain xs where xs: "length xs = i" "pooled ec eb cs ss xs [] q" "keeps p q" by blast
  note pl = pooled_pools [OF xs(2)]
  note s = prealloc_step [OF b xs(2) pl(1,4) disjI1 [OF refl]]
  have "pooled ec eb cs ss (xs @ [na q]) [] q'"
    using xs(1,2) s below_int_max [of i]
    by (auto simp: pooled_def built_def contents_of_upd less_Suc_eq)
  with xs(1) keeps_trans [OF xs(3) s(3)] show ?thesis
    by (intro exI [of _ "xs @ [na q]"]) auto
qed

lemma prealloc_connections:
  assumes "for_res n 0 (prealloc_one e ConnQ (empty_connections \<circ> queues)) p = Inr (0, p')"
    and "pooled ec eb cs ss [] [] p"
  shows "\<exists>xs. length xs = n \<and> pooled ec eb cs ss xs [] p' \<and> keeps p p'"
  by (rule for_res_steps0 [where P = "\<lambda>i q. \<exists>xs. length xs = i \<and> pooled ec eb cs ss xs [] q \<and> keeps p q", OF assms(1)])
    (use assms(2) in simp, rule connection_step)

lemma buffer_step:
  assumes "\<exists>ys. length ys = i \<and> pooled ec eb cs ss xs ys q \<and> keeps p q"
    and b: "prealloc_one e BufQ (empty_buffers \<circ> queues) i q = Inr (0, q')"
  shows "\<exists>ys. length ys = Suc i \<and> pooled ec eb cs ss xs ys q' \<and> keeps p q'"
proof -
  from assms(1) obtain ys where ys: "length ys = i" "pooled ec eb cs ss xs ys q" "keeps p q" by blast
  note pl = pooled_pools [OF ys(2)]
  note s = prealloc_step [OF b ys(2) pl(2,5) disjI2 [OF refl]]
  have "pooled ec eb cs ss xs (ys @ [na q]) q'"
    using ys(1,2) s below_int_max [of i] pl(3)
    by (auto simp: pooled_def built_def contents_of_upd less_Suc_eq)
  with ys(1) keeps_trans [OF ys(3) s(3)] show ?thesis
    by (intro exI [of _ "ys @ [na q]"]) auto
qed

lemma prealloc_buffers:
  assumes "for_res n 0 (prealloc_one e BufQ (empty_buffers \<circ> queues)) p = Inr (0, p')"
    and "pooled ec eb cs ss xs [] p"
  shows "\<exists>ys. length ys = n \<and> pooled ec eb cs ss xs ys p' \<and> keeps p p'"
  by (rule for_res_steps0 [where P = "\<lambda>i q. \<exists>ys. length ys = i \<and> pooled ec eb cs ss xs ys q \<and> keeps p q", OF assms(1)])
    (use assms(2) in simp, rule buffer_step)

text \<open>The socket and epoll phase changes only the \<open>io\<close> part of the context.\<close>

definition only_io :: "'w proc \<Rightarrow> 'w proc \<Rightarrow> bool" where
  "only_io p q \<longleftrightarrow> cfg (srv_st q) = cfg (srv_st p) \<and> conns (srv_st q) = conns (srv_st p)
     \<and> bufs (srv_st q) = bufs (srv_st p) \<and> queues (srv_st q) = queues (srv_st p)
     \<and> qh (srv_st q) = qh (srv_st p) \<and> srv_thr q = srv_thr p \<and> lib q = lib p"

lemma bind_server_socket_ok:
  assumes "bind_server_socket e p = Inr (0, p')"
  shows "only_io p p'" "epoll_fds (io (srv_st p')) = epoll_fds (io (srv_st p))"
    "listen_fd (io (srv_st p')) = se_socket e" "0 \<le> se_socket e"
  using assms
  by (auto simp: bind_server_socket_def bind_sock_def only_io_def upd_srv_def Let_def
      bind_res_Inr_iff split: if_splits)

definition epolls_ok :: "server_env \<Rightarrow> 'w proc \<Rightarrow> nat \<Rightarrow> 'w proc \<Rightarrow> bool" where
  "epolls_ok e p i q \<longleftrightarrow> only_io p q \<and> i \<le> SERVER_MAX_THREADS
     \<and> length (epoll_fds (io (srv_st q))) = SERVER_MAX_THREADS
     \<and> nr_io (io (srv_st q)) = nr_io (io (srv_st p)) \<and> listen_fd (io (srv_st q)) = listen_fd (io (srv_st p))
     \<and> (\<forall>j < i. epoll_fds (io (srv_st q)) ! j = se_epoll e j \<and> 0 \<le> se_epoll e j)"

lemma epoll_slot_step:
  assumes "epolls_ok e p i q"
  shows "epoll_slot e i q = Inr (0, q') \<Longrightarrow> epolls_ok e p (Suc i) q'"
    and "0 \<le> se_epoll e i \<Longrightarrow> i < SERVER_MAX_THREADS \<Longrightarrow> \<exists>q'. epoll_slot e i q = Inr (0, q')"
  using assms
  by (auto simp: epoll_slot_def epolls_ok_def only_io_def upd_srv_def Let_def update_res_def
      bind_res_Inr_iff nth_list_update less_Suc_eq Suc_le_eq split: if_splits)

lemma setup_server_io_ok:
  assumes "setup_server_io e p = Inr (0, p')"
    and "length (epoll_fds (io (srv_st p))) = SERVER_MAX_THREADS"
  shows "only_io p p'" "length (epoll_fds (io (srv_st p'))) = SERVER_MAX_THREADS"
    "nr_io (io (srv_st p')) = ucast (threads_io (cfg (srv_st p)))"
    "unat (threads_io (cfg (srv_st p))) \<le> SERVER_MAX_THREADS"
    "listen_fd (io (srv_st p')) = se_socket e"
    "\<forall>j < unat (threads_io (cfg (srv_st p))). epoll_fds (io (srv_st p')) ! j = se_epoll e j"
proof -
  from assms(1) obtain p1 where
    1: "bind_server_socket e p = Inr (0, p1)" and 2: "setup_server_epoll e p1 = Inr (0, p')"
    by (auto simp: setup_server_io_def bind_res_Inr_iff split: if_splits)
  note b = bind_server_socket_ok [OF 1]
  let ?n = "threads_io (cfg (srv_st p))"
  let ?p2 = "upd_srv (\<lambda>s. s\<lparr>io := (io s)\<lparr>nr_io := ucast ?n, next_session := 0\<rparr>\<rparr>) p1"
  have l: "for_res (unat ?n) 0 (epoll_slot e) ?p2 = Inr (0, p')"
    using 2 b(1) by (simp add: setup_server_epoll_def Let_def only_io_def)
  have st: "epolls_ok e ?p2 0 ?p2"
    using assms(2) b(2) by (simp add: epolls_ok_def only_io_def upd_srv_def)
  have "epolls_ok e ?p2 (0 + unat ?n) p'"
    by (rule for_res_steps [where P = "epolls_ok e ?p2", OF l st]) (rule epoll_slot_step(1))
  then show "only_io p p'" "length (epoll_fds (io (srv_st p'))) = SERVER_MAX_THREADS"
    "nr_io (io (srv_st p')) = ucast ?n" "unat ?n \<le> SERVER_MAX_THREADS"
    "listen_fd (io (srv_st p')) = se_socket e"
    "\<forall>j < unat ?n. epoll_fds (io (srv_st p')) ! j = se_epoll e j"
    using b by (simp_all add: epolls_ok_def only_io_def upd_srv_def)
qed

text \<open>A group of \<open>n\<close> threads that run \<open>f\<close> on the context, each told its number.\<close>

definition group_ok ::
  "(start_routine, nat) threads \<Rightarrow> group \<Rightarrow> nat \<Rightarrow> start_routine \<Rightarrow> nat \<Rightarrow> bool" where
  "group_ok l g n f addr \<longleftrightarrow> n \<le> THREAD_GROUP_MAX
     \<and> (\<exists>a tg. g = Some (a, tg) \<and> tg_n tg = n \<and> (\<forall>i < n. \<exists>t x. tg_threads tg ! i = Some t
         \<and> infos l t = Some x \<and> ti_func x = f \<and> ti_arg x = addr \<and> unat (current (group_info x)) = i))"

lemma spawn_group_ok:
  assumes "spawn_group e name n f put addr p = Inr (0, p')" and ok: "threads_ok (lib p)"
  obtains g where "srv_st p' = srv_st p" and "srv_thr p' = put g (srv_thr p)" and "threads_ok (lib p')"
    and "group_ok (lib p') g (unat (n (cfg (srv_st p)))) f addr"
    and "\<And>g0 n0 f0. group_ok (lib p) g0 n0 f0 addr \<Longrightarrow> group_ok (lib p') g0 n0 f0 addr"
proof -
  let ?n = "unat (n (cfg (srv_st p)))"
  from assms(1) obtain a g l where
    c: "thread_group_create (se_threads e) name ?n f addr (lib p) = Inr (Some (a, g), l)"
    and p': "p' = p\<lparr>lib := l, srv_thr := put (Some (a, g)) (srv_thr p)\<rparr>"
    by (auto simp: spawn_group_def bind_res_Inr_iff split: if_splits)
  from thread_group_create_cases [OF ok, where env = "se_threads e" and prefix = name and n = ?n
      and f = f and a = addr] c obtain s0 ts where
    n: "?n \<le> THREAD_GROUP_MAX" and M: "members (se_threads e) name ?n f addr s0 ts ?n (g, l)"
    and s0: "infos s0 = infos (lib p)" "allocated (th_mem s0) = insert a (allocated (th_mem (lib p)))"
    by auto
  note I = membersD [OF M]
  have w: "unat (of_nat i :: u32) = i" if "i \<le> ?n" for i
    using that n by (simp add: unat_of_nat THREAD_GROUP_MAX_def)
  have slot: "tg_threads g ! i = Some (ts ! i)" if "i < ?n" for i
    using that by (simp add: I(9) I(2) nth_append)
  have "group_ok l (Some (a, g)) ?n f addr"
    unfolding group_ok_def using n slot I(8,10) w by auto
  moreover have "infos l t = Some x" if "infos (lib p) t = Some x" for t x
  proof -
    have "t \<in> allocated (th_mem s0)" using that ok s0(2) by (auto simp: threads_ok_def)
    with I(5) have "t \<notin> set ts" by auto
    with I(11) s0(1) that show ?thesis by simp
  qed
  then have "group_ok (lib p) g0 n0 f0 addr \<Longrightarrow> group_ok l g0 n0 f0 addr" for g0 n0 f0
    unfolding group_ok_def by blast
  ultimately show thesis using p' I(1) by (intro that [of "Some (a, g)"]) auto
qed

definition all_groups :: "server_config_t \<Rightarrow> nat \<Rightarrow> 'w proc \<Rightarrow> bool" where
  "all_groups c addr p \<longleftrightarrow>
     group_ok (lib p) (thr_compute (srv_thr p)) (unat (threads_compute c)) ComputeWorker addr
     \<and> group_ok (lib p) (thr_submit (srv_thr p)) (unat (threads_submit c)) SubmitterWorker addr
     \<and> group_ok (lib p) (thr_io (srv_thr p)) (unat (threads_io c)) IoWorker addr
     \<and> group_ok (lib p) (thr_accept (srv_thr p)) (unat (threads_accept c)) AcceptWorker addr"

lemma spawn_server_threads_ok:
  assumes "spawn_server_threads e addr p = Inr (0, p')" and "threads_ok (lib p)"
  shows "srv_st p' = srv_st p" "all_groups (cfg (srv_st p)) addr p'" "threads_ok (lib p')"
proof -
  let ?c = "cfg (srv_st p)"
  from assms(1) have "or_chain
       [spawn_group e ''compute'' threads_compute ComputeWorker (\<lambda>g t. t\<lparr>thr_compute := g\<rparr>) addr,
        spawn_group e ''submit'' threads_submit SubmitterWorker (\<lambda>g t. t\<lparr>thr_submit := g\<rparr>) addr,
        spawn_group e ''IO'' threads_io IoWorker (\<lambda>g t. t\<lparr>thr_io := g\<rparr>) addr,
        spawn_group e ''accept'' threads_accept AcceptWorker (\<lambda>g t. t\<lparr>thr_accept := g\<rparr>) addr] p
      = Inr (0, p')"
    by (auto simp: spawn_server_threads_def bind_res_Inr_iff split: if_splits)
  then obtain p1 p2 p3 where
    s1: "spawn_group e ''compute'' threads_compute ComputeWorker (\<lambda>g t. t\<lparr>thr_compute := g\<rparr>) addr p = Inr (0, p1)" and
    s2: "spawn_group e ''submit'' threads_submit SubmitterWorker (\<lambda>g t. t\<lparr>thr_submit := g\<rparr>) addr p1 = Inr (0, p2)" and
    s3: "spawn_group e ''IO'' threads_io IoWorker (\<lambda>g t. t\<lparr>thr_io := g\<rparr>) addr p2 = Inr (0, p3)" and
    s4: "spawn_group e ''accept'' threads_accept AcceptWorker (\<lambda>g t. t\<lparr>thr_accept := g\<rparr>) addr p3 = Inr (0, p')"
    unfolding or_chain_ok by auto
  from spawn_group_ok [OF s1 assms(2)] obtain g1 where 1: "srv_st p1 = srv_st p"
    "srv_thr p1 = (srv_thr p)\<lparr>thr_compute := g1\<rparr>" "threads_ok (lib p1)"
    "group_ok (lib p1) g1 (unat (threads_compute ?c)) ComputeWorker addr" by metis
  from spawn_group_ok [OF s2 1(3)] obtain g2 where 2: "srv_st p2 = srv_st p"
    "srv_thr p2 = (srv_thr p1)\<lparr>thr_submit := g2\<rparr>" "threads_ok (lib p2)"
    "group_ok (lib p2) g2 (unat (threads_submit ?c)) SubmitterWorker addr"
    "\<And>g0 n0 f0. group_ok (lib p1) g0 n0 f0 addr \<Longrightarrow> group_ok (lib p2) g0 n0 f0 addr"
    using 1(1) by metis
  from spawn_group_ok [OF s3 2(3)] obtain g3 where 3: "srv_st p3 = srv_st p"
    "srv_thr p3 = (srv_thr p2)\<lparr>thr_io := g3\<rparr>" "threads_ok (lib p3)"
    "group_ok (lib p3) g3 (unat (threads_io ?c)) IoWorker addr"
    "\<And>g0 n0 f0. group_ok (lib p2) g0 n0 f0 addr \<Longrightarrow> group_ok (lib p3) g0 n0 f0 addr"
    using 2(1) by metis
  from spawn_group_ok [OF s4 3(3)] obtain g4 where 4: "srv_st p' = srv_st p"
    "srv_thr p' = (srv_thr p3)\<lparr>thr_accept := g4\<rparr>" "threads_ok (lib p')"
    "group_ok (lib p') g4 (unat (threads_accept ?c)) AcceptWorker addr"
    "\<And>g0 n0 f0. group_ok (lib p3) g0 n0 f0 addr \<Longrightarrow> group_ok (lib p') g0 n0 f0 addr"
    using 3(1) by metis
  show "srv_st p' = srv_st p" "threads_ok (lib p')" by (rule 4)+
  show "all_groups ?c addr p'"
    using 1(2,4) 2(2,4,5) 3(2,4,5) 4(2,4,5) by (simp add: all_groups_def)
qed

lemma the_queues_sel [simp]:
  "empty_connections (the_queues ec eb cs ss) = ec" "empty_buffers (the_queues ec eb cs ss) = eb"
  "compute_inbox (the_queues ec eb cs ss)
     = map Some cs @ replicate (SERVER_MAX_THREADS - length cs) None"
  "submitter_inbox (the_queues ec eb cs ss)
     = map Some ss @ replicate (SERVER_MAX_THREADS - length ss) None"
  by (simp_all add: the_queues_def)

lemma image_nth_set: "(\<lambda>i. xs ! i) ` {..<length xs} = set xs"
  by (auto simp: in_set_conv_nth)

lemma pooled_start:
  assumes P: "pooled ec eb cs ss xs ys p"
    and n: "length cs = n_comp (srv_st p)" "length ss = n_sub (srv_st p)" "cs \<noteq> []" "ss \<noteq> []"
    and io: "0 < unat (nr_io (io (srv_st p)))"
      "unat (nr_io (io (srv_st p))) \<le> length (epoll_fds (io (srv_st p)))"
    and mem: "\<And>b. length (msg (bufs (srv_st p) b)) = 1048" "\<And>c. sendbuf (conns (srv_st p) c) = None"
  shows "srv_start ys xs (srv_st p)"
proof -
  let ?s = "srv_st p"
  have B: "queues ?s = the_queues (Some ec) (Some eb) cs ss"
    "length cs \<le> SERVER_MAX_THREADS" "length ss \<le> SERVER_MAX_THREADS"
    "distinct (the_roots (Some ec) (Some eb) cs ss)"
    "set (the_roots (Some ec) (Some eb) cs ss) \<subseteq> RHeap ` {..<na p}"
    "qrep (qh ?s) (contents_of (Some ec) (Some eb) cs ss (map ConnQ xs) (map BufQ ys))"
    using P by (simp_all add: pooled_def built_def)
  have cir: "cir ?s i = cs ! i" if "i < length cs" for i
    using that by (simp add: cir_def B(1) nth_append)
  have sir: "sir ?s i = ss ! i" if "i < length ss" for i
    using that by (simp add: sir_def B(1) nth_append)
  have ci: "cir ?s ` {..<n_comp ?s} = set cs"
    unfolding n(1) [symmetric] image_nth_set [symmetric] by (rule image_cong) (auto simp: cir)
  have si: "sir ?s ` {..<n_sub ?s} = set ss"
    unfolding n(2) [symmetric] image_nth_set [symmetric] by (rule image_cong) (auto simp: sir)
  have roots: "inbox_roots ?s = set cs \<union> set ss" by (simp add: inbox_roots_def ci si)
  have d: "distinct cs" "distinct ss" "set cs \<inter> set ss = {}" "ec \<noteq> eb"
    "ec \<notin> set cs \<union> set ss" "eb \<notin> set cs \<union> set ss"
    using B(4) by (auto simp: the_roots_def)
  have rs: "r \<noteq> RSend c" if "r \<in> {ec, eb} \<union> (set cs \<union> set ss)" for r c
    using that B(5) by (auto simp: the_roots_def)
  have "inj_on (cir ?s) {..<n_comp ?s}"
    unfolding n(1) [symmetric] by (rule inj_onI) (use d(1) cir in \<open>simp add: nth_eq_iff_index_eq\<close>)
  moreover have "inj_on (sir ?s) {..<n_sub ?s}"
    unfolding n(2) [symmetric] by (rule inj_onI) (use d(2) sir in \<open>simp add: nth_eq_iff_index_eq\<close>)
  moreover have "compute_inbox (queues ?s) ! i \<noteq> None" if "i < n_comp ?s" for i
    using that by (simp add: B(1) n(1) [symmetric] nth_append)
  moreover have "submitter_inbox (queues ?s) ! i \<noteq> None" if "i < n_sub ?s" for i
    using that by (simp add: B(1) n(2) [symmetric] nth_append)
  moreover have "0 < n_comp ?s" "n_comp ?s \<le> length (compute_inbox (queues ?s))"
    unfolding n(1) [symmetric] using n(3) B(2) by (simp_all add: B(1))
  moreover have "0 < n_sub ?s" "n_sub ?s \<le> length (submitter_inbox (queues ?s))"
    unfolding n(2) [symmetric] using n(4) B(3) by (simp_all add: B(1))
  moreover have "empty_connections (queues ?s) \<noteq> None" "empty_buffers (queues ?s) \<noteq> None"
    "ecr ?s \<noteq> ebr ?s" "ecr ?s \<notin> set cs \<union> set ss" "ebr ?s \<notin> set cs \<union> set ss"
    "\<forall>r \<in> {ecr ?s, ebr ?s} \<union> (set cs \<union> set ss). \<forall>c. r \<noteq> RSend c"
    using d rs by (simp_all add: B(1))
  ultimately have ctx: "ctx_ok ?s"
    unfolding ctx_ok_def ci si roots using io d(3) by blast
  have "srv_queues0 ys xs ?s = contents_of (Some ec) (Some eb) cs ss (map ConnQ xs) (map BufQ ys)"
    unfolding srv_queues0_def roots contents_of_def by (auto simp: fun_eq_iff B(1))
  with ctx B(6) P mem show ?thesis
    by (simp add: srv_start_def pooled_def)
qed

text \<open>The phases of a successful \<open>create_server\<close>.\<close>

lemma setup_server_prealloc_ok:
  assumes "setup_server_prealloc e p = Inr (0, p')" and "pooled ec eb cs ss [] [] p"
  obtains xs ys where "pooled ec eb cs ss xs ys p'" and "keeps p p'"
    and "length xs = unat (alloc_sessions (cfg (srv_st p)))"
    and "length ys = unat (alloc_buffers (cfg (srv_st p)))"
proof -
  from assms(1) obtain p1 where
    1: "for_res (unat (alloc_sessions (cfg (srv_st p)))) 0
         (prealloc_one e ConnQ (empty_connections \<circ> queues)) p = Inr (0, p1)" and
    2: "for_res (unat (alloc_buffers (cfg (srv_st p1)))) 0
         (prealloc_one e BufQ (empty_buffers \<circ> queues)) p1 = Inr (0, p')"
    by (auto simp: setup_server_prealloc_def bind_res_Inr_iff split: if_splits)
  from prealloc_connections [OF 1 assms(2)] obtain xs where
    xs: "length xs = unat (alloc_sessions (cfg (srv_st p)))" "pooled ec eb cs ss xs [] p1" "keeps p p1"
    by blast
  from prealloc_buffers [OF 2 xs(2)] obtain ys where
    ys: "length ys = unat (alloc_buffers (cfg (srv_st p1)))" "pooled ec eb cs ss xs ys p'" "keeps p1 p'"
    by blast
  show thesis
    by (rule that [OF ys(2)]) (use xs ys keeps_trans in \<open>auto simp: keeps_def\<close>)
qed

lemma create_server_phases:
  assumes "create_server e n stale c p = Inr (Some addr, p')" and ok: "threads_ok (lib p)"
  obtains ec eb cs ss xs ys p4 where "pooled ec eb cs ss xs ys p4" and "srv_st p' = srv_st p4"
    and "length cs = unat (threads_compute c)" and "length ss = unat (threads_submit c)"
    and "length xs = unat (alloc_sessions c)" and "length ys = unat (alloc_buffers c)"
    and "cfg (srv_st p') = c" and "conns (srv_st p') = conns (srv_st p)"
    and "bufs (srv_st p') = bufs (srv_st p)" and "nr_io (io (srv_st p')) = ucast (threads_io c)"
    and "unat (threads_io c) \<le> length (epoll_fds (io (srv_st p')))"
    and "all_groups c addr p'"
proof -
  obtain a p0 where a: "palloc e p = (a, p0)" by fastforce
  note s0 = palloc_step [OF a ok]
  let ?b = "blank_ctx c p0"
  from assms(1) a have "or_chain [setup_server_io e, alloc_server_queues e, setup_server_prealloc e,
      spawn_server_threads e addr] ?b = Inr (0, p')"
    by (auto simp: create_server_def bind_res_Inr_iff split: option.splits if_splits)
  then obtain p1 p2 p3 where 1: "setup_server_io e ?b = Inr (0, p1)"
    and 2: "alloc_server_queues e p1 = Inr (0, p2)"
    and 3: "setup_server_prealloc e p2 = Inr (0, p3)"
    and 4: "spawn_server_threads e addr p3 = Inr (0, p')"
    unfolding or_chain_ok by auto
  have b: "length (epoll_fds (io (srv_st ?b))) = SERVER_MAX_THREADS" "cfg (srv_st ?b) = c"
    "conns (srv_st ?b) = conns (srv_st p)" "bufs (srv_st ?b) = bufs (srv_st p)" "lib ?b = lib p0"
    "queues (srv_st ?b) = the_queues None None [] []"
    by (simp_all add: blank_ctx_def s0(1) the_queues_def)
  note io = setup_server_io_ok [OF 1 b(1)]
  have "built None None [] [] [] [] p1"
    by (rule blank_built) (use io(1) b s0(4) in \<open>simp_all add: only_io_def\<close>)
  from alloc_server_queues_ok [OF 2 this] obtain ec eb cs ss where
    q: "built (Some ec) (Some eb) cs ss [] [] p2" "keeps p1 p2"
    "length cs = unat (threads_compute (cfg (srv_st p1)))"
    "length ss = unat (threads_submit (cfg (srv_st p1)))" by metis
  have "pooled ec eb cs ss [] [] p2" using q(1) by (simp add: pooled_def)
  from setup_server_prealloc_ok [OF 3 this] obtain xs ys where
    pp: "pooled ec eb cs ss xs ys p3" "keeps p2 p3"
    "length xs = unat (alloc_sessions (cfg (srv_st p2)))"
    "length ys = unat (alloc_buffers (cfg (srv_st p2)))" by metis
  have "threads_ok (lib p3)" using pp(1) by (simp add: pooled_def built_def)
  note sp = spawn_server_threads_ok [OF 4 this]
  have cfgs: "cfg (srv_st p1) = c" "cfg (srv_st p2) = c" "cfg (srv_st p3) = c"
    using io(1) b(2) q(2) pp(2) by (simp_all add: only_io_def keeps_def)
  show thesis
    by (rule that [OF pp(1) sp(1)])
      (use sp q(2-4) pp(2-4) io b cfgs in \<open>simp_all add: only_io_def keeps_def\<close>)
qed

subsection \<open>The state the workers start from\<close>

text \<open>What the start relies on: fresh memory is zeroed where the code does not initialise it.\<close>

definition fresh_ok :: "'w proc \<Rightarrow> bool" where
  "fresh_ok p \<longleftrightarrow> threads_ok (lib p) \<and> (\<forall>b. length (msg (bufs (srv_st p) b)) = 1048)
     \<and> (\<forall>c. sendbuf (conns (srv_st p) c) = None)"

lemma create_server_start:
  assumes "create_server e n stale c p = Inr (Some addr, p')" and "fresh_ok p"
    and "threads_io c \<noteq> 0" and "threads_compute c \<noteq> 0" and "threads_submit c \<noteq> 0"
  shows "\<exists>bs cs. length cs = unat (alloc_sessions c) \<and> length bs = unat (alloc_buffers c)
    \<and> srv_start bs cs (srv_st p') \<and> cfg (srv_st p') = c \<and> all_groups c addr p'"
proof -
  have ok: "threads_ok (lib p)" using assms(2) by (simp add: fresh_ok_def)
  obtain ec eb cs ss xs ys p4 where P: "pooled ec eb cs ss xs ys p4" "srv_st p' = srv_st p4"
    "length cs = unat (threads_compute c)" "length ss = unat (threads_submit c)"
    "length xs = unat (alloc_sessions c)" "length ys = unat (alloc_buffers c)"
    "cfg (srv_st p') = c" "conns (srv_st p') = conns (srv_st p)" "bufs (srv_st p') = bufs (srv_st p)"
    "nr_io (io (srv_st p')) = ucast (threads_io c)"
    "unat (threads_io c) \<le> length (epoll_fds (io (srv_st p')))" "all_groups c addr p'"
    by (rule create_server_phases [OF assms(1) ok]) (rule that)
  have pos: "0 < unat x" if "x \<noteq> 0" for x :: u32
    using that by (simp add: unat_gt_0)
  have "srv_start ys xs (srv_st p4)"
  proof (rule pooled_start [OF P(1)])
    show "cs \<noteq> []" "ss \<noteq> []" using P(3,4) pos [OF assms(4)] pos [OF assms(5)] by auto
    show "0 < unat (nr_io (io (srv_st p4)))"
      using P(2,10) pos [OF assms(3)] by (simp add: unat_ucast_u32)
    show "unat (nr_io (io (srv_st p4))) \<le> length (epoll_fds (io (srv_st p4)))"
      using P(2,10,11) by (simp add: unat_ucast_u32)
  qed (use P assms(2) in \<open>simp_all add: fresh_ok_def\<close>)
  with P show ?thesis by auto
qed

subsection \<open>When the start succeeds\<close>

text \<open>Every call returns what it returns on success.\<close>

definition env_available :: "server_env \<Rightarrow> bool" where
  "env_available e \<longleftrightarrow> all_available (se_threads e) \<and> 0 \<le> se_socket e \<and> 0 \<le> se_bind e
     \<and> se_listen e = 0 \<and> (\<forall>i. 0 \<le> se_epoll e i)"

text \<open>
  What the code requires of the configuration and does not check: a path of at most 107
  characters, at most 64 threads of a kind, and object counts that fit in an \<open>int\<close>.
\<close>

definition config_fits :: "server_config_t \<Rightarrow> bool" where
  "config_fits c \<longleftrightarrow> (case c_string (socket_path c) of Inl _ \<Rightarrow> False | Inr cs \<Rightarrow> length cs < 108)
     \<and> unat (threads_io c) \<le> THREAD_GROUP_MAX \<and> unat (threads_accept c) \<le> THREAD_GROUP_MAX
     \<and> unat (threads_submit c) \<le> THREAD_GROUP_MAX \<and> unat (threads_compute c) \<le> THREAD_GROUP_MAX
     \<and> unat (alloc_sessions c) < 2 ^ 31 \<and> unat (alloc_buffers c) < 2 ^ 31"

lemma palloc_total:
  assumes "env_available e"
  obtains p' where "palloc e p = (Some (na p), p')"
  using assms that
  by (auto simp: palloc_def alloc_def Let_def env_available_def all_available_def)

lemma setup_server_io_total:
  assumes "env_available e" and "config_fits (cfg (srv_st p))"
    and "length (epoll_fds (io (srv_st p))) = SERVER_MAX_THREADS"
  shows "\<exists>p'. setup_server_io e p = Inr (0, p')"
proof -
  let ?n = "threads_io (cfg (srv_st p))"
  have "\<exists>bs. strcpy 108 (socket_path (cfg (srv_st p))) = Inr bs"
    using assms(2) by (auto simp: config_fits_def strcpy_def split: sum.splits)
  then obtain p1 where b: "bind_server_socket e p = Inr (0, p1)"
    using assms(1) by (auto simp: bind_server_socket_def bind_sock_def Let_def env_available_def)
  note b1 = bind_server_socket_ok [OF b]
  let ?p2 = "upd_srv (\<lambda>s. s\<lparr>io := (io s)\<lparr>nr_io := ucast ?n, next_session := 0\<rparr>\<rparr>) p1"
  have "\<exists>s'. for_res (unat ?n) 0 (epoll_slot e) ?p2 = Inr (0, s') \<and> epolls_ok e ?p2 (unat ?n) s'"
  proof (rule for_res_total0 [where P = "epolls_ok e ?p2"])
    show "epolls_ok e ?p2 0 ?p2"
      using assms(3) b1(2) by (simp add: epolls_ok_def only_io_def upd_srv_def)
    fix j s assume "epolls_ok e ?p2 j s" "j < unat ?n"
    with assms(1,2) show "\<exists>s1. epoll_slot e j s = Inr (0, s1)"
      by (intro epoll_slot_step(2))
        (auto simp: env_available_def config_fits_def THREAD_GROUP_MAX_def SERVER_MAX_THREADS_def)
  qed (rule epoll_slot_step(1))
  then show ?thesis
    using b b1(1) by (auto simp: setup_server_io_def setup_server_epoll_def Let_def only_io_def)
qed

lemma alloc_one_total:
  assumes "env_available e" and "threads_ok (lib p)"
    and "put (RHeap (na p)) (queues (srv_st p)) = Inr qs"
  shows "\<exists>p'. alloc_one_queue e put p = Inr (0, p')"
proof -
  obtain p1 where a: "palloc e p = (Some (na p), p1)" using palloc_total [OF assms(1)] .
  from palloc_step(1) [OF a assms(2)] assms(3) a show ?thesis
    by (simp add: alloc_one_queue_def alloc_queue_root_def upd_srv_def)
qed

lemma built_facts:
  assumes "built ec eb cs ss ns ms q"
  shows "threads_ok (lib q)" "queues (srv_st q) = the_queues ec eb cs ss"
  using assms by (simp_all add: built_def)

lemma compute_inboxes_total:
  assumes e: "env_available e" and n: "n \<le> SERVER_MAX_THREADS" and b: "built ec eb [] [] [] [] p"
  shows "\<exists>p'. alloc_n_queues e put_compute n p = Inr (0, p')"
proof -
  let ?P = "\<lambda>i q. \<exists>cs. length cs = i \<and> built ec eb cs [] [] [] q \<and> keeps p q"
  have "\<exists>p'. for_res n 0 (\<lambda>i. alloc_one_queue e (put_compute i)) p = Inr (0, p') \<and> ?P n p'"
  proof (rule for_res_total0 [where P = ?P])
    show "?P 0 p" using b by simp
    fix j q assume "?P j q" "j < n"
    then obtain cs where cs: "length cs = j" "built ec eb cs [] [] [] q" by blast
    show "\<exists>s1. alloc_one_queue e (put_compute j) q = Inr (0, s1)"
      by (rule alloc_one_total [OF e built_facts(1) [OF cs(2)], where qs = "(queues (srv_st q))\<lparr>compute_inbox :=
            (compute_inbox (queues (srv_st q)))[j := Some (RHeap (na q))]\<rparr>"])
        (use \<open>j < n\<close> n in \<open>simp add: put_compute_def update_res_def built_facts(2) [OF cs(2)] cs(1)\<close>)
  qed (rule compute_inbox_step)
  then show ?thesis by (auto simp: alloc_n_queues_def)
qed

lemma submitter_inboxes_total:
  assumes e: "env_available e" and n: "n \<le> SERVER_MAX_THREADS" and b: "built ec eb cs [] [] [] p"
  shows "\<exists>p'. alloc_n_queues e put_submitter n p = Inr (0, p')"
proof -
  let ?P = "\<lambda>i q. \<exists>ss. length ss = i \<and> built ec eb cs ss [] [] q \<and> keeps p q"
  have "\<exists>p'. for_res n 0 (\<lambda>i. alloc_one_queue e (put_submitter i)) p = Inr (0, p') \<and> ?P n p'"
  proof (rule for_res_total0 [where P = ?P])
    show "?P 0 p" using b by simp
    fix j q assume "?P j q" "j < n"
    then obtain ss where ss: "length ss = j" "built ec eb cs ss [] [] q" by blast
    show "\<exists>s1. alloc_one_queue e (put_submitter j) q = Inr (0, s1)"
      by (rule alloc_one_total [OF e built_facts(1) [OF ss(2)], where qs = "(queues (srv_st q))\<lparr>submitter_inbox :=
            (submitter_inbox (queues (srv_st q)))[j := Some (RHeap (na q))]\<rparr>"])
        (use \<open>j < n\<close> n in \<open>simp add: put_submitter_def update_res_def built_facts(2) [OF ss(2)] ss(1)\<close>)
  qed (rule submitter_inbox_step)
  then show ?thesis by (auto simp: alloc_n_queues_def)
qed

lemma alloc_server_queues_total:
  assumes e: "env_available e" and c: "config_fits (cfg (srv_st p))" and b: "built None None [] [] [] [] p"
  shows "\<exists>p'. alloc_server_queues e p = Inr (0, p')"
proof -
  have le: "unat (threads_compute (cfg (srv_st p))) \<le> SERVER_MAX_THREADS"
    "unat (threads_submit (cfg (srv_st p))) \<le> SERVER_MAX_THREADS"
    using c by (simp_all add: config_fits_def THREAD_GROUP_MAX_def SERVER_MAX_THREADS_def)
  obtain p1 where 1: "alloc_one_queue e (\<lambda>r qs. Inr (qs\<lparr>empty_connections := Some r\<rparr>)) p = Inr (0, p1)"
    using alloc_one_total [where put = "\<lambda>r qs. Inr (qs\<lparr>empty_connections := Some r\<rparr>)",
        OF e built_facts(1) [OF b] refl] by blast
  have b1: "built (Some (RHeap (na p))) None [] [] [] [] p1 \<and> keeps p p1"
    by (rule conjI; rule alloc_built [OF 1 b]) (auto simp: the_queues_def the_roots_def)
  obtain p2 where 2: "alloc_one_queue e (\<lambda>r qs. Inr (qs\<lparr>empty_buffers := Some r\<rparr>)) p1 = Inr (0, p2)"
    using alloc_one_total [where put = "\<lambda>r qs. Inr (qs\<lparr>empty_buffers := Some r\<rparr>)",
        OF e built_facts(1) [OF b1 [THEN conjunct1]] refl] by blast
  from b1 have b2: "built (Some (RHeap (na p))) (Some (RHeap (na p1))) [] [] [] [] p2 \<and> keeps p1 p2"
    by (intro conjI; elim conjE; intro alloc_built [OF 2]) (auto simp: the_queues_def the_roots_def)
  from compute_inboxes_total [OF e le(1) b2 [THEN conjunct1]] obtain p3 where
    3: "alloc_n_queues e put_compute (unat (threads_compute (cfg (srv_st p)))) p2 = Inr (0, p3)" by blast
  from alloc_compute_inboxes [OF 3 b2 [THEN conjunct1]] obtain cs where
    b3: "built (Some (RHeap (na p))) (Some (RHeap (na p1))) cs [] [] [] p3" "keeps p2 p3" by blast
  from submitter_inboxes_total [OF e le(2) b3(1)] obtain p4 where
    4: "alloc_n_queues e put_submitter (unat (threads_submit (cfg (srv_st p)))) p3 = Inr (0, p4)" by blast
  have "cfg (srv_st p2) = cfg (srv_st p)" "cfg (srv_st p3) = cfg (srv_st p)"
    using b1 b2 b3(2) by (simp_all add: keeps_def)
  with 1 2 3 4 show ?thesis by (auto simp: alloc_server_queues_def or_chain_ok)
qed

lemma prealloc_one_total:
  assumes e: "env_available e" and P: "pooled ec eb cs ss xs ys p"
    and pool: "pool (srv_st p) = Some r"
    and Q: "contents_of (Some ec) (Some eb) cs ss (map ConnQ xs) (map BufQ ys) r = Some ns"
    and mk: "mk = ConnQ \<or> mk = BufQ" and i: "i \<noteq> 2 ^ 31 - 1"
  shows "\<exists>p'. prealloc_one e mk pool i p = Inr (0, p')"
proof -
  let ?Q = "contents_of (Some ec) (Some eb) cs ss (map ConnQ xs) (map BufQ ys)"
  have B: "threads_ok (lib p)" "qrep (qh (srv_st p)) ?Q"
    using P by (simp_all add: pooled_def built_def)
  obtain p1 where a: "palloc e p = (Some (na p), p1)" using palloc_total [OF e] .
  have "na p \<notin> set xs \<union> set ys" using P by (auto simp: pooled_def)
  then have "unqueued (mk (na p)) ?Q"
    using mk by (auto simp: unqueued_def contents_of_def split: if_splits)
  from dq.put_law [OF B(2) Q this] obtain h where
    "queue_put (Ptr (mk (na p))) r (qh (srv_st p)) = Inr h" by blast
  with a palloc_step(1) [OF a B(1)] pool i show ?thesis
    by (simp add: prealloc_one_def srv_put_def)
qed

lemma setup_server_prealloc_total:
  assumes e: "env_available e" and c: "config_fits (cfg (srv_st p))" and P: "pooled ec eb cs ss [] [] p"
  shows "\<exists>p'. setup_server_prealloc e p = Inr (0, p')"
proof -
  let ?n = "unat (alloc_sessions (cfg (srv_st p)))" and ?m = "unat (alloc_buffers (cfg (srv_st p)))"
  have le: "?n < 2 ^ 31" "?m < 2 ^ 31" using c by (simp_all add: config_fits_def)
  let ?P = "\<lambda>i q. \<exists>xs. length xs = i \<and> pooled ec eb cs ss xs [] q \<and> keeps p q"
  have "\<exists>p1. for_res ?n 0 (prealloc_one e ConnQ (empty_connections \<circ> queues)) p = Inr (0, p1) \<and> ?P ?n p1"
  proof (rule for_res_total0 [where P = ?P])
    show "?P 0 p" using P by simp
    fix j q assume "?P j q" "j < ?n"
    then obtain xs where xs: "pooled ec eb cs ss xs [] q" by blast
    note pl = pooled_pools [OF xs]
    show "\<exists>s1. prealloc_one e ConnQ (empty_connections \<circ> queues) j q = Inr (0, s1)"
      by (rule prealloc_one_total [where pool = "empty_connections \<circ> queues", OF e xs pl(1,4)]) (use \<open>j < ?n\<close> le(1) in simp_all)
  qed (rule connection_step)
  then obtain p1 xs where 1: "pooled ec eb cs ss xs [] p1" "keeps p p1"
    "for_res ?n 0 (prealloc_one e ConnQ (empty_connections \<circ> queues)) p = Inr (0, p1)" by blast
  let ?R = "\<lambda>i q. \<exists>ys. length ys = i \<and> pooled ec eb cs ss xs ys q \<and> keeps p1 q"
  have "\<exists>p2. for_res ?m 0 (prealloc_one e BufQ (empty_buffers \<circ> queues)) p1 = Inr (0, p2) \<and> ?R ?m p2"
  proof (rule for_res_total0 [where P = ?R])
    show "?R 0 p1" using 1 by simp
    fix j q assume "?R j q" "j < ?m"
    then obtain ys where ys: "pooled ec eb cs ss xs ys q" by blast
    note pl = pooled_pools [OF ys]
    show "\<exists>s1. prealloc_one e BufQ (empty_buffers \<circ> queues) j q = Inr (0, s1)"
      by (rule prealloc_one_total [where pool = "empty_buffers \<circ> queues", OF e ys pl(2,5)]) (use \<open>j < ?m\<close> le(2) in simp_all)
  qed (rule buffer_step)
  with 1 show ?thesis by (auto simp: setup_server_prealloc_def keeps_def)
qed

lemma spawn_server_threads_total:
  assumes e: "env_available e" and c: "config_fits (cfg (srv_st p))" and ok: "threads_ok (lib p)"
  shows "\<exists>p'. spawn_server_threads e addr p = Inr (0, p')"
proof -
  have spawn: "\<exists>q'. spawn_group e name n f put addr q = Inr (0, q') \<and> srv_st q' = srv_st q \<and> threads_ok (lib q')"
    if "threads_ok (lib q)" "unat (n (cfg (srv_st q))) \<le> THREAD_GROUP_MAX" for name n f put and q :: "'a proc"
  proof -
    have "all_available (se_threads e)" using e by (simp add: env_available_def)
    from thread_group_create_total [OF this that, of name f addr] obtain q' where
      q': "spawn_group e name n f put addr q = Inr (0, q')" by (auto simp: spawn_group_def)
    from spawn_group_ok [OF q' that(1)] q' show ?thesis by metis
  qed
  note cf = c [unfolded config_fits_def]
  from spawn [OF ok, of threads_compute] cf obtain p1 where 1: "spawn_group e ''compute'' threads_compute
      ComputeWorker (\<lambda>g t. t\<lparr>thr_compute := g\<rparr>) addr p = Inr (0, p1)" "srv_st p1 = srv_st p" "threads_ok (lib p1)"
    by blast
  from spawn [OF 1(3), of threads_submit] cf 1(2) obtain p2 where 2: "spawn_group e ''submit'' threads_submit
      SubmitterWorker (\<lambda>g t. t\<lparr>thr_submit := g\<rparr>) addr p1 = Inr (0, p2)" "srv_st p2 = srv_st p" "threads_ok (lib p2)"
    by metis
  from spawn [OF 2(3), of threads_io] cf 2(2) obtain p3 where 3: "spawn_group e ''IO'' threads_io
      IoWorker (\<lambda>g t. t\<lparr>thr_io := g\<rparr>) addr p2 = Inr (0, p3)" "srv_st p3 = srv_st p" "threads_ok (lib p3)"
    by metis
  from spawn [OF 3(3), of threads_accept] cf 3(2) obtain p4 where 4: "spawn_group e ''accept'' threads_accept
      AcceptWorker (\<lambda>g t. t\<lparr>thr_accept := g\<rparr>) addr p3 = Inr (0, p4)" by metis
  from 1(1) 2(1) 3(1) 4 show ?thesis by (simp add: spawn_server_threads_def)
qed

lemma create_server_total:
  assumes e: "env_available e" and c: "config_fits c" and ok: "threads_ok (lib p)"
  shows "\<exists>p'. create_server e n stale c p = Inr (Some (na p), p')"
proof -
  obtain p0 where a: "palloc e p = (Some (na p), p0)" using palloc_total [OF e] .
  note s0 = palloc_step [OF a ok]
  let ?b = "blank_ctx c p0"
  have b: "length (epoll_fds (io (srv_st ?b))) = SERVER_MAX_THREADS" "cfg (srv_st ?b) = c"
    "lib ?b = lib p0" "queues (srv_st ?b) = the_queues None None [] []"
    by (simp_all add: blank_ctx_def the_queues_def)
  from setup_server_io_total [OF e _ b(1)] c b(2) obtain p1 where
    1: "setup_server_io e ?b = Inr (0, p1)" by auto
  note io = setup_server_io_ok [OF 1 b(1)]
  have c1: "config_fits (cfg (srv_st p1))" using io(1) c b(2) by (simp add: only_io_def)
  have b1: "built None None [] [] [] [] p1"
    by (rule blank_built) (use io(1) b s0(4) in \<open>simp_all add: only_io_def\<close>)
  from alloc_server_queues_total [OF e c1 b1] obtain p2 where
    2: "alloc_server_queues e p1 = Inr (0, p2)" by blast
  from alloc_server_queues_ok [OF 2 b1] obtain ec eb cs ss where
    q: "built (Some ec) (Some eb) cs ss [] [] p2" "keeps p1 p2" by metis
  have c2: "config_fits (cfg (srv_st p2))" using q(2) c1 by (simp add: keeps_def)
  have P: "pooled ec eb cs ss [] [] p2" using q(1) by (simp add: pooled_def)
  from setup_server_prealloc_total [OF e c2 P] obtain p3 where
    3: "setup_server_prealloc e p2 = Inr (0, p3)" by blast
  from setup_server_prealloc_ok [OF 3 P] obtain xs ys where
    pp: "pooled ec eb cs ss xs ys p3" "keeps p2 p3" by metis
  have "config_fits (cfg (srv_st p3))" "threads_ok (lib p3)"
    using pp c2 by (simp_all add: keeps_def pooled_def built_def)
  from spawn_server_threads_total [OF e this] obtain p4 where
    4: "spawn_server_threads e (na p) p3 = Inr (0, p4)" by blast
  from 1 2 3 4 a show ?thesis by (simp add: create_server_def)
qed

subsection \<open>The configuration from the command line\<close>

text \<open>Every parameter set explicitly: parameter, value as written, bytes it stands for.\<close>

definition server_settings :: "server_config_t \<Rightarrow> string \<Rightarrow> (param_t \<times> string \<times> byte list) list" where
  "server_settings c path =
     (let num = (\<lambda>p x :: u32. (p, decimal (unat x), le_bytes 4 (unat x))) in
      (server_params ! 0, path, map of_char path @ [0])
      # map2 num (tl server_params)
          [compute_dur c, max_io_size c, readahead c, threads_io c, threads_compute c,
           threads_submit c, threads_accept c, alloc_sessions c, alloc_buffers c,
           kerncall_global c, kerncall_io c, kerncall_accept c, kerncall_submit c])"

definition server_args :: "server_config_t \<Rightarrow> string \<Rightarrow> string list" where
  "server_args c path = map (\<lambda>(p, v, w). param_prefix p @ v) (server_settings c path)"

lemma server_table_ok: "table_ok sizeof_server_config server_params"
  unfolding server_params_def
  by (simp add: sizeof_server_config_def param_ok_def disjoint_fields_def PARAM_STR_def PARAM_UINT_def
      num_default_def str_default_def PARAM_VALUE_MAX_def MAX_PATH_LEN_def)

lemma server_settings_fst: "map fst (server_settings c path) = server_params"
  by (simp add: server_settings_def server_params_def)

lemma server_params_uint:
  "p \<in> set (tl server_params) \<Longrightarrow> p_conv p = ConvU \<and> p_size p = 4"
  by (auto simp: server_params_def PARAM_UINT_def)

lemma server_settings_values:
  assumes "path \<noteq> []" and "list_all (\<lambda>c. \<not> is_space c) path" and "length path < MAX_PATH_LEN"
  shows "list_all (\<lambda>(p, v, w). arg_value (param_prefix p @ v) p = Some w \<and> length w \<le> PARAM_VALUE_MAX)
    (server_settings c path)"
proof -
  have n: "arg_value (param_prefix p @ decimal (unat x)) p = Some (le_bytes 4 (unat x))"
    if "p \<in> set (tl server_params)" for p and x :: u32
    using server_params_uint [OF that] unsigned_less [of x, where ?'a = nat]
    by (intro arg_value_unsigned) simp_all
  have "p_conv (server_params ! 0) = ConvS" by (simp add: server_params_def PARAM_STR_def)
  from arg_value_string [OF this assms(1,2)] n assms(3) show ?thesis
    by (auto simp: server_settings_def list_all_iff PARAM_VALUE_MAX_def MAX_PATH_LEN_def
        dest!: set_zip_leftD)
qed

text \<open>C26 (roundtrip): a server configuration written as a command line is read back. Printing
  every number in decimal as \<open>--name=value\<close> and the socket path as it is, and parsing that
  command line, gives the same configuration in the bytes of \<open>struct server_config_t\<close>,
  whatever the struct held before.\<close>

theorem server_config_roundtrip:
  assumes "path \<noteq> []" and "list_all (\<lambda>c. \<not> is_space c) path" and "length path < MAX_PATH_LEN"
    and "0 \<notin> set (map of_char path :: byte list)"
    and "length m0 = sizeof_server_config" and "\<And>i. length (junk i) = PARAM_VALUE_MAX"
  shows "\<exists>m. parse_command_args junk (prog # server_args c path) m0
        \<lparr>progname = prog, description = d, params = server_params\<rparr> = Inr (0, m)
    \<and> c_string (socket_path (server_config_of m)) = Inr (map of_char path)
    \<and> (server_config_of m)\<lparr>socket_path := socket_path c\<rparr> = c"
proof -
  have t: "table_ok (length m0) server_params" using server_table_ok assms(5) by simp
  from parse_settings [where prog = prog and junk = junk, OF t assms(6) server_settings_fst
      server_settings_values [OF assms(1-3), of c]]
  obtain m where m: "parse_params junk (prog # server_args c path) m0 server_params = Inr (0, m)"
    "length m = length m0" "\<forall>(p, v, w) \<in> set (server_settings c path). holds p w m"
    unfolding server_args_def by blast
  have h: "holds (server_params ! 0) (map of_char path @ [0]) m"
    using m(3) by (simp add: server_settings_def)
  have "c_string (take MAX_PATH_LEN m) = Inr (map of_char path)"
    by (rule holds_string [OF h _ assms(3) _ assms(4)]) (simp_all add: server_params_def PARAM_STR_def)
  moreover have "u32_at 128 m = compute_dur c" "u32_at 132 m = max_io_size c" "u32_at 136 m = readahead c"
    "u32_at 140 m = threads_io c" "u32_at 152 m = threads_compute c" "u32_at 148 m = threads_submit c"
    "u32_at 144 m = threads_accept c" "u32_at 156 m = alloc_sessions c" "u32_at 160 m = alloc_buffers c"
    "u32_at 164 m = kerncall_global c" "u32_at 168 m = kerncall_io c" "u32_at 172 m = kerncall_accept c"
    "u32_at 176 m = kerncall_submit c"
    using m(3) holds_u32 [of _ _ m]
    by (auto simp: server_settings_def server_params_def PARAM_UINT_def) force+
  ultimately show ?thesis
    using m(1) by (intro exI [of _ m]) (simp add: parse_command_args_def server_config_of_def)
qed

text \<open>A configuration whose path has one character, and its command line.\<close>

definition demo_cfg2 :: server_config_t where
  "demo_cfg2 = demo_cfg\<lparr>socket_path := 97 # replicate 127 0\<rparr>"

theorem server_config_roundtrip_witness:
  "\<exists>m. parse_command_args (\<lambda>_. replicate 128 1) (''server'' # server_args demo_cfg2 ''a'')
        (replicate 180 7) \<lparr>progname = ''server'', description = ''d'', params = server_params\<rparr> = Inr (0, m)
    \<and> readahead (server_config_of m) = 3"
proof -
  have "of_char (CHR ''a'') = (97 :: byte)" "of_char (CHR ''a'') = (97 :: nat)" by simp_all
  then have a: "[CHR ''a''] \<noteq> []" "list_all (\<lambda>c. \<not> is_space c) [CHR ''a'']"
    "length [CHR ''a''] < MAX_PATH_LEN" "0 \<notin> set (map of_char [CHR ''a''] :: byte list)"
    by (simp_all add: is_space_def MAX_PATH_LEN_def)
  have m0: "length (replicate 180 (7 :: byte)) = sizeof_server_config"
    by (simp add: sizeof_server_config_def)
  have j: "length (replicate 128 (1 :: byte)) = PARAM_VALUE_MAX" by (simp add: PARAM_VALUE_MAX_def)
  from server_config_roundtrip [where junk = "\<lambda>_. replicate 128 1" and c = demo_cfg2 and prog = "''server''"
      and d = "''d''", OF a m0 j]
  obtain m where m: "parse_command_args (\<lambda>_. replicate 128 1) (''server'' # server_args demo_cfg2 ''a'')
        (replicate 180 7) \<lparr>progname = ''server'', description = ''d'', params = server_params\<rparr> = Inr (0, m)"
    "(server_config_of m)\<lparr>socket_path := socket_path demo_cfg2\<rparr> = demo_cfg2" by blast
  have "readahead (server_config_of m) = readahead ((server_config_of m)\<lparr>socket_path := socket_path demo_cfg2\<rparr>)"
    by simp
  also have "\<dots> = 3" unfolding m(2) by (simp add: demo_cfg2_def demo_cfg_def)
  finally show ?thesis using m(1) by blast
qed

subsection \<open>Properties of the start\<close>

definition demo_senv :: server_env where
  "demo_senv = \<lparr>se_threads = \<lparr>mem_av = (\<lambda>_. True), eventfd_ret = (\<lambda>_. 9), create_ret = (\<lambda>_. 0)\<rparr>,
     se_socket = 3, se_bind = 0, se_listen = 0, se_epoll = (\<lambda>i. 4 + int i)\<rparr>"

definition demo_proc :: "nat proc" where
  "demo_proc = \<lparr>srv_st = demo_srv empty_heap,
     srv_thr = \<lparr>thr_compute = None, thr_submit = None, thr_io = None, thr_accept = None\<rparr>,
     lib = \<lparr>th_mem = \<lparr>n_alloc = 0, live_objs = []\<rparr>, infos = Map.empty, started = [], th_closed = []\<rparr>\<rparr>"

lemma demo_senv_available: "env_available demo_senv"
  by (simp add: env_available_def all_available_def demo_senv_def)

lemma demo_proc_fresh: "fresh_ok demo_proc"
  by (simp add: fresh_ok_def threads_ok_def mem_ok_def demo_proc_def demo_srv_def demo_conn_def)

lemma demo_cfg2_fits: "config_fits demo_cfg2"
  by (simp add: config_fits_def demo_cfg2_def demo_cfg_def c_string_def THREAD_GROUP_MAX_def)





text \<open>What a failing socket or epoll phase leaves: no queues and no threads.\<close>

lemma setup_server_io_blank:
  assumes "setup_server_io e (blank_ctx c p) = Inr (r, p1)"
  shows "empty_connections (queues (srv_st p1)) = None"
    "srv_thr p1 = \<lparr>thr_compute = None, thr_submit = None, thr_io = None, thr_accept = None\<rparr>"
proof -
  let ?P = "\<lambda>q. empty_connections (queues (srv_st q)) = None
    \<and> srv_thr q = \<lparr>thr_compute = None, thr_submit = None, thr_io = None, thr_accept = None\<rparr>"
  have bind: "?P q'" if "bind_server_socket e q = Inr (r, q')" "?P q" for q q' r
    using that by (auto simp: bind_server_socket_def bind_sock_def upd_srv_def pclose_def Let_def
        bind_res_Inr_iff split: if_splits)
  have slot: "?P q'" if "?P q" "epoll_slot e j q = Inr (r, q')" for j q q' r
    using that by (auto simp: epoll_slot_def upd_srv_def Let_def bind_res_Inr_iff split: if_splits)
  have epoll: "?P q'" if "setup_server_epoll e q = Inr (r, q')" "?P q" for q q' r
    by (rule for_res_keeps [OF that(1) [unfolded setup_server_epoll_def Let_def], of ?P])
      (use that(2) slot in \<open>auto simp: upd_srv_def\<close>)
  have "?P (blank_ctx c p)" by (simp add: blank_ctx_def)
  moreover obtain r1 q where b: "bind_server_socket e (blank_ctx c p) = Inr (r1, q)"
    and q: "(if r1 \<noteq> 0 then Inr (-1, q) else
      bind_res (setup_server_epoll e q) (\<lambda>(r, p). Inr (if r \<noteq> 0 then -1 else 0, p))) = Inr (r, p1)"
    using assms by (auto simp: setup_server_io_def bind_res_Inr_iff)
  ultimately have "?P q" using bind by blast
  with q have "?P p1" by (auto simp: bind_res_Inr_iff split: if_splits dest: epoll)
  then show "empty_connections (queues (srv_st p1)) = None"
    "srv_thr p1 = \<lparr>thr_compute = None, thr_submit = None, thr_io = None, thr_accept = None\<rparr>" by blast+
qed

text \<open>C30 (error): a failed start crashes. When the socket or an epoll instance cannot be set
  up (say, the socket path cannot be bound), \<open>create_server\<close> does not return NULL as it
  means to: it calls \<open>destroy_server\<close> on a context whose queues do not exist yet, which
  takes elements from a queue through a NULL pointer.\<close>

theorem create_server_failure_crashes:
  assumes "mem_av (se_threads e) (na p)"
    and "setup_server_io e (blank_ctx c (snd (palloc e p))) = Inr (r, p1)" and "r \<noteq> 0" and "0 < n"
  shows "create_server e n stale c p = Inl Fault"
proof -
  obtain p0 where a: "palloc e p = (Some (na p), p0)"
    using assms(1) by (auto simp: palloc_def alloc_def Let_def)
  note q = setup_server_io_blank [OF assms(2)]
  obtain m where n: "n = Suc m" using assms(4) by (cases n) auto
  have "free_server_prealloc n q = Inl Fault" if "empty_connections (queues (srv_st q)) = None" for q :: "'a proc"
    using that by (simp add: free_server_prealloc_def n free_round_def srv_get_def)
  then have "destroy_server n stale addr p1 = Inl Fault" for addr
    using q by (simp add: destroy_server_def cleanup_server_threads_def join_group_def upd_srv_def)
  with a assms(2,3) show ?thesis by (simp add: create_server_def)
qed

theorem create_server_failure_crashes_witness:
  "create_server (demo_senv\<lparr>se_bind := -1\<rparr>) 9 ti_ret demo_cfg2 demo_proc = Inl Fault"
proof -
  let ?e = "demo_senv\<lparr>se_bind := -1\<rparr>"
  have path: "strcpy 108 (socket_path demo_cfg2) = Inr (97 # replicate 107 0)"
    by (simp add: strcpy_def c_string_def demo_cfg2_def demo_cfg_def)
  have "\<exists>p1. setup_server_io ?e (blank_ctx demo_cfg2 (snd (palloc ?e demo_proc))) = Inr (-1, p1)"
    by (simp add: setup_server_io_def bind_server_socket_def bind_sock_def blank_ctx_def Let_def path
        demo_senv_def)
  then obtain p1 where
    "setup_server_io ?e (blank_ctx demo_cfg2 (snd (palloc ?e demo_proc))) = Inr (-1, p1)" by blast
  from create_server_failure_crashes [OF _ this] show ?thesis by (simp add: demo_senv_def)
qed

text \<open>
  The epoll instances are not closed: the first is closed once for each IO thread, the
  others never.
\<close>

lemma cleanup_server_epoll_closes_first:
  assumes "epoll_fds (io (srv_st p)) = sock # fds"
  shows "\<exists>p'. cleanup_server_epoll p = Inr p'
    \<and> th_closed (lib p') = th_closed (lib p) @ replicate (unat (nr_io (io (srv_st p)))) sock"
proof -
  let ?b = "\<lambda>(i :: nat) p. bind_res (index_res (epoll_fds (io (srv_st p))) 0) (\<lambda>sock. Inr (0 :: int, pclose sock p))"
  let ?P = "\<lambda>i q. epoll_fds (io (srv_st q)) = sock # fds
    \<and> th_closed (lib q) = th_closed (lib p) @ replicate i sock"
  have "\<exists>p'. for_res k 0 ?b p = Inr (0, p') \<and> ?P k p'" for k
    by (rule for_res_total0 [where P = ?P])
      (use assms in \<open>auto simp: index_res_def pclose_def bind_res_Inr_iff replicate_append_same\<close>)
  from this [of "unat (nr_io (io (srv_st p)))"] show ?thesis
    unfolding cleanup_server_epoll_def by auto
qed

end
