(* ===== verification/Debug.thy ===== *)
theory Debug
  imports Lock Memory
begin

section \<open>Debug output (include/debug.h, src/debug.c)\<close>

text \<open>
  What a file compiled with \<open>NEED_DEBUG\<close> prints: one line of standard error for each use
  of the macro, with the function, the line and the thread it comes from, written under a
  lock that all threads share. The numeral formats are those of theory \<open>Memory\<close>.
\<close>

text \<open>The lock and what has been written so far.\<close>

record console =
  debug_mutex :: lock_t
  stderr :: string

definition console_init :: console where
  "console_init = \<lparr>debug_mutex = MUTEX_INIT, stderr = []\<rparr>"

definition fprintf :: "string \<Rightarrow> console \<Rightarrow> console" where
  "fprintf text e = e\<lparr>stderr := stderr e @ text\<rparr>"

text \<open>\<open>%d\<close>: a minus sign and the numeral.\<close>

definition signed_decimal :: "int \<Rightarrow> string" where
  "signed_decimal v = (if v < 0 then CHR ''-'' # decimal (nat (- v)) else decimal (nat v))"

text \<open>The macro, with \<open>__func__\<close>, \<open>__LINE__\<close> and what \<open>gettid\<close> returns, and its text formatted.\<close>

definition debug :: "string \<Rightarrow> nat \<Rightarrow> int \<Rightarrow> string \<Rightarrow> console \<Rightarrow> console res" where
  "debug func line tid text e =
     bind_res (lock (debug_mutex e)) (\<lambda>w.
     let e = e\<lparr>debug_mutex := w\<rparr>;
         e = fprintf (''['' @ func @ '':'' @ decimal line @ ''//'' @ signed_decimal tid @ ''] '') e;
         e = fprintf text e;
         e = fprintf [CHR 0x0A] e
     in Inr (e\<lparr>debug_mutex := unlock (debug_mutex e)\<rparr>))"

text \<open>Without \<open>NEED_DEBUG\<close> the macro is nothing.\<close>

definition debug_off :: "string \<Rightarrow> nat \<Rightarrow> int \<Rightarrow> string \<Rightarrow> console \<Rightarrow> console res" where
  "debug_off func line tid text e = Inr e"

definition debug_line :: "string \<Rightarrow> nat \<Rightarrow> int \<Rightarrow> string \<Rightarrow> string" where
  "debug_line func line tid text =
     ''['' @ func @ '':'' @ decimal line @ ''//'' @ signed_decimal tid @ ''] '' @ text @ [CHR 0x0A]"

text \<open>With the lock free, a use of the macro adds its line and leaves the lock free.\<close>

lemma debug_eq:
  "debug_mutex e = 0 \<Longrightarrow>
    debug func line tid text e = Inr (e\<lparr>stderr := stderr e @ debug_line func line tid text\<rparr>)"
  by (simp add: debug_def lock_eq fprintf_def debug_line_def Let_def)

end
