(* ===== verification/Command_Show.thy ===== *)
theory Command_Show
  imports Command Debug
begin

section \<open>Showing the parameters (src/command.c)\<close>

text \<open>
  After the command line has been parsed, \<open>parse_params\<close> prints every parameter of the
  table with the value it has in the configuration, and before it fails, the argument it
  did not take. Theory \<open>Command\<close> has the parser without this output; here is the function
  with it, and that it is the same parser.
\<close>

subsection \<open>The show functions\<close>

text \<open>\<open>opaque\<close> is the offset of the field in the struct.\<close>

definition show_uint_param :: "int \<Rightarrow> param_t \<Rightarrow> nat \<Rightarrow> byte list \<Rightarrow> console \<Rightarrow> console res" where
  "show_uint_param tid p opaque cfg e =
     bind_res (load_bytes opaque 4 cfg) (\<lambda>bs.
     let val = (of_nat (le_nat bs) :: u32) in
     debug ''show_uint_param'' 10 tid (p_name p @ '': '' @ decimal (unat val)) e)"

definition show_int_param :: "int \<Rightarrow> param_t \<Rightarrow> nat \<Rightarrow> byte list \<Rightarrow> console \<Rightarrow> console res" where
  "show_int_param tid p opaque cfg e =
     bind_res (load_bytes opaque 4 cfg) (\<lambda>bs.
     let val = sint (of_nat (le_nat bs) :: u32) in
     debug ''show_int_param'' 15 tid (p_name p @ '': '' @ signed_decimal val) e)"

definition show_str_param :: "int \<Rightarrow> param_t \<Rightarrow> nat \<Rightarrow> byte list \<Rightarrow> console \<Rightarrow> console res" where
  "show_str_param tid p opaque cfg e =
     bind_res (c_string (drop opaque cfg)) (\<lambda>val.
     debug ''show_str_param'' 20 tid (p_name p @ '': \"'' @ map (\<lambda>b. char_of (unat b)) val @ ''\"'') e)"

text \<open>The macros \<open>PARAM_UINT\<close>, \<open>PARAM_INT\<close> and \<open>PARAM_STR\<close> give each format its function.\<close>

definition show_fn :: "conv \<Rightarrow> int \<Rightarrow> param_t \<Rightarrow> nat \<Rightarrow> byte list \<Rightarrow> console \<Rightarrow> console res" where
  "show_fn cv = (case cv of ConvU \<Rightarrow> show_uint_param | ConvD \<Rightarrow> show_int_param | ConvS \<Rightarrow> show_str_param)"

fun show_params :: "int \<Rightarrow> param_t list \<Rightarrow> byte list \<Rightarrow> console \<Rightarrow> console res" where
  "show_params tid [] cfg e = Inr e"
| "show_params tid (p # ps) cfg e =
     bind_res (show_fn (p_conv p) tid p (p_offset p) cfg e) (show_params tid ps cfg)"

text \<open>The parser with its output. A failure leaves what was printed before it.\<close>

fun parse_args_out ::
  "int \<Rightarrow> (nat \<Rightarrow> byte list) \<Rightarrow> nat \<Rightarrow> string list \<Rightarrow> param_t list \<Rightarrow> byte list \<Rightarrow> console
    \<Rightarrow> (int \<times> byte list \<times> console) res" where
  "parse_args_out tid junk i [] ps cfg e = Inr (0, cfg, e)"
| "parse_args_out tid junk i (arg # args) ps cfg e =
     bind_res (try_params (junk i) arg ps cfg) (\<lambda>(found, cfg).
       if found then parse_args_out tid junk (Suc i) args ps cfg e
       else
         bind_res (debug ''parse_params'' 57 tid (''Invalid parameter: '' @ arg) e)
           (\<lambda>e. Inr (-1, cfg, e)))"

definition parse_params_out ::
  "int \<Rightarrow> (nat \<Rightarrow> byte list) \<Rightarrow> string list \<Rightarrow> byte list \<Rightarrow> param_t list \<Rightarrow> console
    \<Rightarrow> (int \<times> byte list \<times> console) res" where
  "parse_params_out tid junk argv cfg ps e =
     bind_res (set_defaults ps cfg) (\<lambda>cfg.
     bind_res (parse_args_out tid junk 1 (tl argv) ps cfg e) (\<lambda>(res, cfg, e).
       if res \<noteq> 0 then Inr (res, cfg, e)
       else bind_res (show_params tid ps cfg e) (\<lambda>e. Inr (0, cfg, e))))"

subsection \<open>What is printed\<close>

text \<open>The value of a parameter, as text, and the line that shows it.\<close>

definition shown_value :: "param_t \<Rightarrow> byte list \<Rightarrow> string" where
  "shown_value p cfg =
     (case p_conv p of
        ConvU \<Rightarrow> decimal (unat (u32_at (p_offset p) cfg))
      | ConvD \<Rightarrow> signed_decimal (sint (u32_at (p_offset p) cfg))
      | ConvS \<Rightarrow> map (\<lambda>b. char_of (unat b)) (takeWhile (\<lambda>b. b \<noteq> 0) (drop (p_offset p) cfg)))"

definition shown_line :: "int \<Rightarrow> byte list \<Rightarrow> param_t \<Rightarrow> string" where
  "shown_line tid cfg p =
     (case p_conv p of
        ConvU \<Rightarrow> debug_line ''show_uint_param'' 10 tid (p_name p @ '': '' @ shown_value p cfg)
      | ConvD \<Rightarrow> debug_line ''show_int_param'' 15 tid (p_name p @ '': '' @ shown_value p cfg)
      | ConvS \<Rightarrow> debug_line ''show_str_param'' 20 tid (p_name p @ '': \"'' @ shown_value p cfg @ ''\"''))"

text \<open>The value can be read: a number is inside the struct, a string ends in it.\<close>

definition readable :: "byte list \<Rightarrow> param_t \<Rightarrow> bool" where
  "readable cfg p \<longleftrightarrow>
     (if p_conv p = ConvS then 0 \<in> set (drop (p_offset p) cfg) else p_offset p + 4 \<le> length cfg)"

lemma show_fn_line:
  assumes "debug_mutex e = 0" and "readable cfg p"
  shows "show_fn (p_conv p) tid p (p_offset p) cfg e
    = Inr (e\<lparr>stderr := stderr e @ shown_line tid cfg p\<rparr>)"
  using assms
  by (cases "p_conv p")
    (simp_all add: show_fn_def show_uint_param_def show_int_param_def show_str_param_def
      readable_def load_bytes_def c_string_def debug_eq shown_line_def shown_value_def u32_at_def)

lemma show_params_lines:
  assumes "debug_mutex e = 0" and "list_all (readable cfg) ps"
  shows "show_params tid ps cfg e = Inr (e\<lparr>stderr := stderr e @ concat (map (shown_line tid cfg) ps)\<rparr>)"
  using assms by (induction ps arbitrary: e) (simp_all add: show_fn_line)

text \<open>The output does not change what is parsed.\<close>

lemma parse_args_out_eq:
  assumes "debug_mutex e = 0"
  shows "case parse_args junk i args ps cfg of
      Inl x \<Rightarrow> parse_args_out tid junk i args ps cfg e = Inl x
    | Inr (r, cfg') \<Rightarrow> \<exists>out. parse_args_out tid junk i args ps cfg e
        = Inr (r, cfg', e\<lparr>stderr := stderr e @ out\<rparr>) \<and> (r = 0 \<longrightarrow> out = [])"
proof (induction args arbitrary: i cfg)
  case (Cons arg args)
  show ?case
  proof (cases "try_params (junk i) arg ps cfg")
    case (Inr x)
    then obtain found cfg1 where x: "try_params (junk i) arg ps cfg = Inr (found, cfg1)" by (cases x) auto
    show ?thesis
    proof (cases found)
      case True
      have eqs: "parse_args junk i (arg # args) ps cfg = parse_args junk (Suc i) args ps cfg1"
        "parse_args_out tid junk i (arg # args) ps cfg e = parse_args_out tid junk (Suc i) args ps cfg1 e"
        using True by (simp_all add: x)
      show ?thesis unfolding eqs by (rule Cons.IH)
    next
      case False
      then show ?thesis by (simp add: x debug_eq assms) blast
    qed
  qed simp
qed simp

text \<open>A signed numeral is read back, as an unsigned one is (\<open>arg_value_unsigned\<close>).\<close>

lemma scan_signed: "scan_number (signed_decimal v) = Some (v < 0, nat \<bar>v\<bar>)"
proof (cases "v < 0")
  case True
  have "\<not> is_space (CHR ''-'')" by (simp add: is_space_def)
  moreover have "digits_val 0 (takeWhile is_digit (decimal (nat (- v)))) = nat \<bar>v\<bar>"
    unfolding takeWhile_digits digits_val_decimal using True by simp
  ultimately show ?thesis
    using True by (simp add: signed_decimal_def scan_number_def Let_def takeWhile_digits)
qed (simp add: signed_decimal_def scan_number_decimal)

lemma arg_value_signed:
  assumes "p_conv p = ConvD" and "- (2 ^ 31) \<le> v" and "v < 2 ^ 31"
  shows "arg_value (param_prefix p @ signed_decimal v) p = Some (le_bytes 4 (unat (of_int v :: u32)))"
proof -
  have "match_literal (param_prefix p) (param_prefix p @ signed_decimal v) = Some (signed_decimal v)"
    by (simp add: match_literal_Some)
  moreover have "to_signed (v < 0) (nat \<bar>v\<bar>) = of_int v"
    using assms(2,3) by (simp add: to_signed_def)
  ultimately show ?thesis
    using assms(1) by (simp add: arg_value_def scan_value_def scan_signed)
qed

text \<open>The bytes of a numeric field are those of the number read from it.\<close>

lemma field_u32:
  assumes "p_size p = 4" and "p_offset p + 4 \<le> length cfg"
  shows "field p cfg = le_bytes 4 (unat (u32_at (p_offset p) cfg))"
proof -
  let ?bs = "take 4 (drop (p_offset p) cfg)"
  have l: "length ?bs = 4" using assms(2) by simp
  have "le_nat ?bs < 2 ^ 32" using le_nat_bound [of ?bs] unfolding l by simp
  then have "unat (of_nat (le_nat ?bs) :: u32) = le_nat ?bs" by (rule unat_below_32)
  then show ?thesis
    using le_bytes_le_nat [of ?bs] unfolding l by (simp add: u32_at_def field_def assms(1))
qed

subsection \<open>Properties\<close>

text \<open>C25 (roundtrip): what is printed is what was parsed. When the parser accepts a command
  line and every value is readable, the function with its output returns the same
  configuration, prints exactly one line for each parameter, in the order of the table,
  with its value in that configuration, and leaves the lock of the output free; and the
  printed value of a numeric parameter, given back as its argument, sets the field to the
  same bytes. A rejected command line is rejected with the same result.\<close>

theorem shown_values_read_back:
  assumes "debug_mutex e = 0" and "parse_params junk argv cfg ps = Inr (r, cfg')"
    and "list_all (readable cfg') ps"
  shows "(r = 0 \<longrightarrow> parse_params_out tid junk argv cfg ps e
        = Inr (0, cfg', e\<lparr>stderr := stderr e @ concat (map (shown_line tid cfg') ps)\<rparr>))
    \<and> (r \<noteq> 0 \<longrightarrow> (\<exists>e'. parse_params_out tid junk argv cfg ps e = Inr (r, cfg', e')))
    \<and> (\<forall>p \<in> set ps. p_conv p \<noteq> ConvS \<longrightarrow> p_size p = 4
        \<longrightarrow> arg_value (param_prefix p @ shown_value p cfg') p = Some (field p cfg'))"
proof (intro conjI impI ballI)
  from assms(2) obtain cfg1 where
    d: "set_defaults ps cfg = Inr cfg1" "parse_args junk 1 (tl argv) ps cfg1 = Inr (r, cfg')"
    by (auto simp: parse_params_def bind_res_Inr_iff)
  from parse_args_out_eq [OF assms(1), where tid = tid and junk = junk and i = 1
      and args = "tl argv" and ps = ps and cfg = cfg1] obtain out where
    o: "parse_args_out tid junk 1 (tl argv) ps cfg1 e = Inr (r, cfg', e\<lparr>stderr := stderr e @ out\<rparr>)"
      "r = 0 \<longrightarrow> out = []" unfolding d(2) by auto
  have e: "e\<lparr>stderr := stderr e @ []\<rparr> = e" by simp
  show "parse_params_out tid junk argv cfg ps e
        = Inr (0, cfg', e\<lparr>stderr := stderr e @ concat (map (shown_line tid cfg') ps)\<rparr>)" if "r = 0"
    using that o show_params_lines [OF assms(1,3)] by (simp add: parse_params_out_def d(1))
  show "\<exists>e'. parse_params_out tid junk argv cfg ps e = Inr (r, cfg', e')" if "r \<noteq> 0"
    using that o by (simp add: parse_params_out_def d(1))
  fix p assume p: "p \<in> set ps" "p_conv p \<noteq> ConvS" "p_size p = 4"
  then have rd: "p_offset p + 4 \<le> length cfg'" using assms(3) by (auto simp: list_all_iff readable_def)
  let ?v = "u32_at (p_offset p) cfg'"
  note f = field_u32 [OF p(3) rd]
  show "arg_value (param_prefix p @ shown_value p cfg') p = Some (field p cfg')"
  proof (cases "p_conv p")
    case ConvU
    have "unat ?v < 2 ^ 32" using unsigned_less [of ?v, where ?'a = nat] by simp
    from arg_value_unsigned [OF ConvU this] show ?thesis by (simp add: shown_value_def ConvU f)
  next
    case ConvD
    have "- (2 ^ 31) \<le> sint ?v" "sint ?v < 2 ^ 31"
      using sint_greater_eq [of ?v] sint_less [of ?v] by simp_all
    from arg_value_signed [OF ConvD this] show ?thesis by (simp add: shown_value_def ConvD f)
  qed (use p(2) in simp)
qed

theorem shown_values_read_back_witness:
  "parse_params_out 7 (\<lambda>_. replicate 128 0) [''prog'', ''--x=5'', ''--x=8''] (replicate 4 0)
      [PARAM_UINT ''x'' 0 7] console_init
    = Inr (0, [8, 0, 0, 0], console_init\<lparr>stderr := ''[show_uint_param:10//7] x: 8'' @ [CHR 0x0A]\<rparr>)"
proof -
  let ?p = "PARAM_UINT ''x'' 0 7" and ?argv = "[''prog'', ''--x=5'', ''--x=8'']"
  let ?r = "parse_params (\<lambda>_. replicate 128 0) ?argv (replicate 4 0) [?p]"
  have v: "arg_value ''--x=5'' ?p = Some [5, 0, 0, 0]" "arg_value ''--x=8'' ?p = Some [8, 0, 0, 0]"
    using arg_value_unsigned [of ?p 5] arg_value_unsigned [of ?p 8]
    by (simp_all add: PARAM_UINT_def param_prefix_def decimal_examples le_bytes_4)
  have t: "table_ok (length (replicate 4 (0 :: byte))) [?p]"
    by (simp add: PARAM_UINT_def param_ok_def num_default_def PARAM_VALUE_MAX_def)
  have j: "length (replicate 128 (0 :: byte)) = PARAM_VALUE_MAX" by (simp add: PARAM_VALUE_MAX_def)
  have res: "case ?r of Inl e \<Rightarrow> e = Fault \<and> list_ex (overlong [?p]) [''--x=5'', ''--x=8'']
    | Inr (r, cfg') \<Rightarrow> length cfg' = 4
        \<and> (if list_all (accepted [?p]) [''--x=5'', ''--x=8'']
           then r = 0 \<and> (\<forall>p \<in> set [?p]. holds p (last_value [''--x=5'', ''--x=8''] p (p_default p)) cfg')
           else r = -1)"
    using parse_params_result [OF t, where junk = "\<lambda>_. replicate 128 0" and argv = ?argv, OF j]
    unfolding list.sel(3) length_replicate .
  then obtain cfg' where r: "?r = Inr (0, cfg')" "length cfg' = 4" "holds ?p [8, 0, 0, 0] cfg'"
    by (cases ?r) (auto simp: overlong_def accepted_def v PARAM_VALUE_MAX_def)
  then have c: "cfg' = [8, 0, 0, 0]" by (simp add: holds_def field_def PARAM_UINT_def)
  have rd: "list_all (readable cfg') [?p]" by (simp add: readable_def PARAM_UINT_def c)
  have "shown_line 7 [8, 0, 0, 0] ?p = ''[show_uint_param:10//7] x: 8'' @ [CHR 0x0A]"
    by code_simp
  with shown_values_read_back [OF _ r(1) rd, of console_init 7] show ?thesis
    by (simp add: console_init_def MUTEX_INIT_def c)
qed

end
