(* ===== verification/Client.thy ===== *)
theory Client
  imports Compute
begin

section \<open>The client's worker thread (src/client/worker.c, include/client.h)\<close>

text \<open>
  A client thread keeps a number of connections busy: it writes requests with increasing
  ids as fast as the socket takes them, reads the responses, and is done when every
  connection has its last response. The connections of a thread are a list, and a pointer
  to one is its index.

  The client calls the C library, whose wrappers do what the server's do at user
  privilege level; \<open>user\<close> is the kernel as seen from there.
\<close>

subsection \<open>State\<close>

definition CLIENT_MAX_EVENTS :: nat where "CLIENT_MAX_EVENTS = 10"
definition MAX_CLIENT_THREADS :: nat where "MAX_CLIENT_THREADS = 128"
definition CONN_OPEN :: int where "CONN_OPEN = 1"

record client_config_t =
  server_path :: "byte list"
  nr_threads :: u32
  nr_connections :: u32
  nr_requests :: u32
  duration :: int

record client_status_t =
  start_time :: timespec
  end_time :: timespec
  st_sent :: u64
  st_received :: u64
  st_total :: u64

text \<open>The messages are their bytes; \<open>sendbuf\<close> and \<open>recvbuf\<close> are flattened.\<close>

record client_connection_t =
  cl_state :: int
  cl_fd :: int
  out_msg :: "byte list"
  out_left :: int
  in_msg :: "byte list"
  in_left :: int
  status :: client_status_t

text \<open>
  A thread with what it reads of the context, its \<open>errno\<close> and the world. The main thread
  sets \<open>stopping\<close> at any time: what a read of it gives is a function of the world.
\<close>

record 'w client_thread_t =
  ct_cfg :: client_config_t
  ct_stopping :: "'w \<Rightarrow> int"
  ct_conns :: "client_connection_t list"
  ct_errno :: int
  ct_world :: 'w

definition user :: "'w kernel \<Rightarrow> 'w kernel" where
  "user k = k\<lparr>k_cs := (\<lambda>_. 3)\<rparr>"

definition libc ::
  "(int \<Rightarrow> 'w \<Rightarrow> sysres \<times> int \<times> 'w) \<Rightarrow> 'w client_thread_t \<Rightarrow> sysres \<times> 'w client_thread_t" where
  "libc call s =
     (case call (ct_errno s) (ct_world s) of (r, err, w) \<Rightarrow> (r, s\<lparr>ct_errno := err, ct_world := w\<rparr>))"

definition upd_cl ::
  "nat \<Rightarrow> (client_connection_t \<Rightarrow> client_connection_t) \<Rightarrow> 'w client_thread_t \<Rightarrow> 'w client_thread_t"
where
  "upd_cl c f s = s\<lparr>ct_conns := (ct_conns s)[c := f (ct_conns s ! c)]\<rparr>"

abbreviation upd_status ::
  "nat \<Rightarrow> (client_status_t \<Rightarrow> client_status_t) \<Rightarrow> 'w client_thread_t \<Rightarrow> 'w client_thread_t" where
  "upd_status c f \<equiv> upd_cl c (status_update f)"

subsection \<open>Epoll registration\<close>

text \<open>The connection is removed first; the result of that is not looked at.\<close>

definition epoll_set_conn ::
  "'w kernel \<Rightarrow> int \<Rightarrow> nat \<Rightarrow> u32 \<Rightarrow> 'w client_thread_t \<Rightarrow> int \<times> 'w client_thread_t" where
  "epoll_set_conn k epollfd c events s =
     (let sock = cl_fd (ct_conns s ! c);
          (_, s) = libc (Z_epoll_ctl (user k) epollfd EPOLL_CTL_DEL sock
                     \<lparr>ev_events = 0, ev_data = DataNull\<rparr>) s
      in if events = 0 then (0, s)
         else
           let (r, s) = libc (Z_epoll_ctl (user k) epollfd EPOLL_CTL_ADD sock
                          \<lparr>ev_events = events, ev_data = DataPtr c\<rparr>) s
           in (sr_ret r, s))"

text \<open>Registering the connections from number \<open>c\<close> on; the result of the first failure.\<close>

fun register_conns ::
  "nat \<Rightarrow> 'w kernel \<Rightarrow> int \<Rightarrow> nat \<Rightarrow> 'w client_thread_t \<Rightarrow> (int \<times> 'w client_thread_t) res" where
  "register_conns 0 k epollfd c s = Inr (0, s)"
| "register_conns (Suc n) k epollfd c s =
     bind_res (index_res (ct_conns s) c) (\<lambda>_.
     let (r, s) = epoll_set_conn k epollfd c (EPOLLIN OR EPOLLOUT) s in
     if r \<noteq> 0 then Inr (r, s) else register_conns n k epollfd (Suc c) s)"

definition init_client_thread_epoll ::
  "'w kernel \<Rightarrow> int \<Rightarrow> 'w client_thread_t \<Rightarrow> (int \<times> 'w client_thread_t) res" where
  "init_client_thread_epoll k wfd s =
     (let (r, s) = libc (Z_epoll_create1 (user k) 0) s; efd = sr_ret r in
      if efd < 0 then Inr (-1, s)
      else
        let (r, s) = libc (Z_epoll_ctl (user k) efd EPOLL_CTL_ADD wfd
                       \<lparr>ev_events = EPOLLIN, ev_data = DataFd wfd\<rparr>) s in
        if sr_ret r \<noteq> 0 then
          let (_, s) = libc (Z_close (user k) efd) s in Inr (-1, s)
        else
          bind_res (register_conns (unat (nr_connections (ct_cfg s))) k efd 0 s) (\<lambda>(r, s).
            if r \<noteq> 0 then let (_, s) = libc (Z_close (user k) efd) s in Inr (-1, s)
            else Inr (efd, s)))"

subsection \<open>Input\<close>

text \<open>One round of the loop in \<open>client_conn_handle_input\<close>; \<open>Some r\<close> where it returns \<open>r\<close>.\<close>

definition input_round ::
  "'w kernel \<Rightarrow> nat \<Rightarrow> 'w client_thread_t \<Rightarrow> (int option \<times> 'w client_thread_t) res" where
  "input_round k c s =
     (let conn = ct_conns s ! c in
      if in_left conn = 0 \<and> st_received (status conn) = st_total (status conn) then Inr (Some 0, s)
      else
        let s = (if in_left conn = 0 then upd_cl c (in_left_update (\<lambda>_. int sizeof_response)) s else s);
            conn = ct_conns s ! c;
            (r, s) = libc (Z_recv (user k) (cl_fd conn) (nat (in_left conn)) 0) s in
        if sr_ret r = -1 then Inr (Some (if ct_errno s = EAGAIN then 0 else -1), s)
        else
          bind_res (store_bytes (nat (int sizeof_response - in_left conn)) (sr_bytes r) (in_msg conn))
            (\<lambda>m.
              let s = upd_cl c (\<lambda>x. x\<lparr>in_msg := m, in_left := in_left x - sr_ret r\<rparr>) s in
              Inr (None, if in_left (ct_conns s ! c) = 0
                         then upd_status c (st_received_update (\<lambda>x. x + 1)) s else s)))"

definition client_conn_handle_input ::
  "nat \<Rightarrow> 'w kernel \<Rightarrow> nat \<Rightarrow> 'w client_thread_t \<Rightarrow> (int \<times> 'w client_thread_t) res" where
  "client_conn_handle_input n k c s = loop_res n (input_round k c) s"

subsection \<open>Output\<close>

text \<open>
  A new request gets the number of requests sent as its id; its data is never filled in.
\<close>

definition new_request ::
  "nat \<Rightarrow> 'w client_thread_t \<Rightarrow> 'w client_thread_t res" where
  "new_request c s =
     (let conn = ct_conns s ! c in
      bind_res (store_bytes req_off (le_bytes 4 (unat (st_sent (status conn)))) (out_msg conn)) (\<lambda>m.
        Inr (upd_cl c (\<lambda>x. x\<lparr>out_left := int sizeof_request, out_msg := m\<rparr>) s)))"

definition output_round ::
  "'w kernel \<Rightarrow> nat \<Rightarrow> 'w client_thread_t \<Rightarrow> (int option \<times> 'w client_thread_t) res" where
  "output_round k c s =
     (let conn = ct_conns s ! c in
      if out_left conn = 0 \<and> ct_stopping s (ct_world s) \<noteq> 0 then
        Inr (Some 0, upd_status c (\<lambda>x. x\<lparr>st_total := st_sent x\<rparr>) s)
      else
        bind_res (if out_left conn = 0 then new_request c s else Inr s) (\<lambda>s.
        let conn = ct_conns s ! c in
        bind_res (load_bytes (nat (int sizeof_request - out_left conn)) (nat (out_left conn)) (out_msg conn))
          (\<lambda>bs.
        let (r, s) = libc (Z_send (user k) (cl_fd conn) bs 0) s in
        if sr_ret r = -1 then Inr (Some (if ct_errno s = EAGAIN then 0 else -1), s)
        else
          let s = upd_cl c (\<lambda>x. x\<lparr>out_left := out_left x - sr_ret r\<rparr>) s in
          if out_left (ct_conns s ! c) = 0 then
            let s = upd_status c (st_sent_update (\<lambda>x. x + 1)) s; st = status (ct_conns s ! c) in
            Inr (if st_sent st = st_total st then Some 0 else None, s)
          else Inr (None, s))))"

definition client_conn_handle_output ::
  "nat \<Rightarrow> 'w kernel \<Rightarrow> nat \<Rightarrow> 'w client_thread_t \<Rightarrow> (int \<times> 'w client_thread_t) res" where
  "client_conn_handle_output n k c s = loop_res n (output_round k c) s"

subsection \<open>Events\<close>

text \<open>\<open>clock_gettime\<close> into a time of the connection's status.\<close>

definition stamp ::
  "'w clock \<Rightarrow> nat \<Rightarrow> (timespec \<Rightarrow> client_status_t \<Rightarrow> client_status_t) \<Rightarrow> 'w client_thread_t
    \<Rightarrow> bool \<times> 'w client_thread_t" where
  "stamp clock c put s =
     (case clock (ct_world s) of
        (None, w) \<Rightarrow> (False, s\<lparr>ct_world := w\<rparr>)
      | (Some t, w) \<Rightarrow> (True, upd_status c (put t) (s\<lparr>ct_world := w\<rparr>)))"

definition output_event ::
  "nat \<Rightarrow> 'w kernel \<Rightarrow> 'w clock \<Rightarrow> nat \<Rightarrow> int \<Rightarrow> 'w client_thread_t
    \<Rightarrow> (int \<times> 'w client_thread_t) res" where
  "output_event n k clock c epollfd s =
     (let (ok, s) = (if st_sent (status (ct_conns s ! c)) = 0
                     then stamp clock c (\<lambda>t. start_time_update (\<lambda>_. t)) s else (True, s)) in
      if \<not> ok then Inr (-1, s)
      else
        bind_res (client_conn_handle_output n k c s) (\<lambda>(r, s).
        if r \<noteq> 0 then Inr (-1, s)
        else if st_sent (status (ct_conns s ! c)) = st_total (status (ct_conns s ! c)) then
          let (r, s) = epoll_set_conn k epollfd c EPOLLIN s in Inr (if r \<noteq> 0 then -1 else 0, s)
        else Inr (0, s)))"

definition input_event ::
  "nat \<Rightarrow> 'w kernel \<Rightarrow> 'w clock \<Rightarrow> nat \<Rightarrow> int \<Rightarrow> 'w client_thread_t
    \<Rightarrow> (int \<times> 'w client_thread_t) res" where
  "input_event n k clock c epollfd s =
     bind_res (client_conn_handle_input n k c s) (\<lambda>(r, s).
     if r \<noteq> 0 then Inr (-1, s)
     else if st_received (status (ct_conns s ! c)) = st_total (status (ct_conns s ! c)) then
       let (ok, s) = stamp clock c (\<lambda>t. end_time_update (\<lambda>_. t)) s in
       if \<not> ok then Inr (-1, s)
       else
         let (r, s) = epoll_set_conn k epollfd c 0 s in
         if r \<noteq> 0 then Inr (-1, s)
         else
           let (_, s) = libc (Z_close (user k) (cl_fd (ct_conns s ! c))) s in
           Inr (0, upd_cl c (cl_fd_update (\<lambda>_. -1)) s)
     else Inr (0, s))"

definition handle_client_epoll_event ::
  "nat \<Rightarrow> 'w kernel \<Rightarrow> 'w clock \<Rightarrow> nat \<Rightarrow> int \<Rightarrow> epoll_event \<Rightarrow> 'w client_thread_t
    \<Rightarrow> (int \<times> 'w client_thread_t) res" where
  "handle_client_epoll_event n k clock c epollfd ev s =
     bind_res (index_res (ct_conns s) c) (\<lambda>_.
     bind_res (if ev_events ev AND EPOLLOUT \<noteq> 0 then output_event n k clock c epollfd s
               else Inr (0, s)) (\<lambda>(r, s).
     if r \<noteq> 0 then Inr (-1, s)
     else if ev_events ev AND EPOLLIN \<noteq> 0 then input_event n k clock c epollfd s
     else Inr (0, s)))"

subsection \<open>The worker\<close>

text \<open>The number of connections with responses outstanding, as an \<open>int\<close>.\<close>

definition thread_has_active_connections :: "'w client_thread_t \<Rightarrow> int" where
  "thread_has_active_connections s =
     int (length (filter (\<lambda>x. st_received (status x) < st_total (status x))
       (take (unat (nr_connections (ct_cfg s))) (ct_conns s))))"

text \<open>
  The \<open>data\<close> union read as a descriptor: of a pointer, its low half, which \<open>low\<close> gives.
  An event for the wake-up descriptor or an error ends the round, not the loop.
\<close>

definition data_fd :: "(nat \<Rightarrow> int) \<Rightarrow> epoll_data \<Rightarrow> int" where
  "data_fd low d = (case d of DataPtr c \<Rightarrow> low c | DataNull \<Rightarrow> 0 | DataFd f \<Rightarrow> f)"

fun client_events ::
  "nat \<Rightarrow> 'w kernel \<Rightarrow> 'w clock \<Rightarrow> (nat \<Rightarrow> int) \<Rightarrow> int \<Rightarrow> int \<Rightarrow> epoll_event list
    \<Rightarrow> int \<times> 'w client_thread_t \<Rightarrow> (int \<times> 'w client_thread_t) res" where
  "client_events n k clock low wfd epollfd [] (ret, s) = Inr (ret, s)"
| "client_events n k clock low wfd epollfd (ev # evs) (ret, s) =
     (if data_fd low (ev_data ev) = wfd then Inr (ret, s)
      else
        case ev_data ev of
          DataPtr c \<Rightarrow>
            bind_res (handle_client_epoll_event n k clock c epollfd ev s) (\<lambda>(r, s).
              if r \<noteq> 0 then Inr (-1, s) else client_events n k clock low wfd epollfd evs (ret, s))
        | _ \<Rightarrow> Inl Fault)"

definition client_worker_round ::
  "nat \<Rightarrow> 'w kernel \<Rightarrow> 'w clock \<Rightarrow> (nat \<Rightarrow> int) \<Rightarrow> int \<Rightarrow> int \<Rightarrow> int \<times> 'w client_thread_t
    \<Rightarrow> (int option \<times> int \<times> 'w client_thread_t) res" where
  "client_worker_round n k clock low wfd epollfd = (\<lambda>(ret, s).
     if thread_has_active_connections s = 0 then Inr (Some ret, ret, s)
     else
       let (r, s) = libc (Z_epoll_wait (user k) epollfd CLIENT_MAX_EVENTS 100) s in
       if sr_ret r = -1 then
         (if ct_errno s = EINTR then Inr (None, ret, s) else Inr (Some (-1), -1, s))
       else
         bind_res (client_events n k clock low wfd epollfd (take (nat (sr_ret r)) (sr_events r)) (ret, s))
           (\<lambda>(ret, s). Inr (None, ret, s)))"

definition client_worker ::
  "nat \<Rightarrow> 'w kernel \<Rightarrow> 'w clock \<Rightarrow> (nat \<Rightarrow> int) \<Rightarrow> int \<Rightarrow> 'w client_thread_t
    \<Rightarrow> (int \<times> 'w client_thread_t) res" where
  "client_worker n k clock low wfd s =
     bind_res (init_client_thread_epoll k wfd s) (\<lambda>(epollfd, s).
     if epollfd < 0 then Inr (-1, s)
     else
       bind_res (loop_res n (client_worker_round n k clock low wfd epollfd) (0, s)) (\<lambda>(ret, _, s).
         let (_, s) = libc (Z_close (user k) epollfd) s in Inr (ret, s)))"

end
