(* ===== verification/Client_Steps.thy ===== *)
theory Client_Steps
  imports Client
begin

section \<open>What a client connection sends and counts\<close>

text \<open>
  The bytes a connection has put on its socket are the requests 0, 1, 2, ... in order and
  the beginning of the next one; the responses it counts are the whole responses it has
  received. Both loops end, the input loop only while the server does not hang up.
\<close>

subsection \<open>Accessing one connection\<close>

lemma libc_frame [simp]:
  "ct_cfg (snd (libc call s)) = ct_cfg s" "ct_stopping (snd (libc call s)) = ct_stopping s"
  "ct_conns (snd (libc call s)) = ct_conns s"
  by (simp_all add: libc_def split: prod.splits)

lemma upd_cl_frame [simp]:
  "ct_cfg (upd_cl c f s) = ct_cfg s" "ct_stopping (upd_cl c f s) = ct_stopping s"
  "ct_errno (upd_cl c f s) = ct_errno s" "ct_world (upd_cl c f s) = ct_world s"
  "length (ct_conns (upd_cl c f s)) = length (ct_conns s)"
  by (simp_all add: upd_cl_def)

lemma upd_cl_nth [simp]:
  "c < length (ct_conns s) \<Longrightarrow> ct_conns (upd_cl c f s) ! c = f (ct_conns s ! c)"
  "d \<noteq> c \<Longrightarrow> ct_conns (upd_cl c f s) ! d = ct_conns s ! d"
  by (simp_all add: upd_cl_def)

subsection \<open>The environment\<close>

text \<open>
  \<open>out w f\<close> is what the kernel has accepted on descriptor \<open>f\<close>, \<open>got w f\<close> what it has
  delivered: a send appends the bytes it reports as sent, a receive those it stores, and
  nothing else changes them. A send of at least one byte takes one or fails.
\<close>

definition send_log :: "'w kernel \<Rightarrow> ('w \<Rightarrow> int \<Rightarrow> byte list) \<Rightarrow> bool" where
  "send_log k out \<longleftrightarrow> (\<forall>req w r w'. enter k req w = (r, w') \<longrightarrow> out w' =
     (case req of
        SysSendto f bs fl \<Rightarrow> (out w)(f := out w f @ take (nat (sr_ret r)) bs) | _ \<Rightarrow> out w))"

definition recv_log :: "'w kernel \<Rightarrow> ('w \<Rightarrow> int \<Rightarrow> byte list) \<Rightarrow> bool" where
  "recv_log k got \<longleftrightarrow> (\<forall>req w r w'. enter k req w = (r, w') \<longrightarrow> got w' =
     (case req of
        SysRecvfrom f n fl \<Rightarrow> (got w)(f := got w f @ (if 0 \<le> sr_ret r then sr_bytes r else []))
      | _ \<Rightarrow> got w))"

definition send_progress :: "'w kernel \<Rightarrow> bool" where
  "send_progress k \<longleftrightarrow> (\<forall>f bs fl w r w'. enter k (SysSendto f bs fl) w = (r, w') \<longrightarrow> bs \<noteq> []
     \<longrightarrow> sr_ret r \<noteq> 0)"

lemma send_call:
  assumes k: "send_contract k" "send_log k out" "send_progress k"
    and c: "libc (Z_send k f bs fl) s = (r, s')" and ne: "bs \<noteq> []"
  shows "sr_ret r = -1 \<and> out (ct_world s') = out (ct_world s)
    \<or> 0 < sr_ret r \<and> sr_ret r \<le> int (length bs)
      \<and> out (ct_world s') = (out (ct_world s))(f := out (ct_world s) f @ take (nat (sr_ret r)) bs)"
proof -
  obtain r0 w where e: "enter k (SysSendto f bs fl) (ct_world s) = (r0, w)" by fastforce
  with k(2) have o: "out w = (out (ct_world s))(f := out (ct_world s) f @ take (nat (sr_ret r0)) bs)"
    by (simp add: send_log_def)
  from e k(1,3) ne have "sr_ret r0 \<noteq> 0" "sr_ret r0 \<le> int (length bs)"
    by (fastforce simp: send_contract_def send_progress_def)+
  with o c e show ?thesis
    by (auto simp: libc_def Z_send_def Z_syscall_enter SYSCALL_RETURN_def split: if_splits)
qed

lemma recv_call:
  assumes k: "recv_contract k" "recv_log k got"
    and c: "libc (Z_recv k f n fl) s = (r, s')"
  shows "sr_ret r = -1 \<and> got (ct_world s') = got (ct_world s)
    \<or> 0 \<le> sr_ret r \<and> sr_ret r \<le> int n \<and> int (length (sr_bytes r)) = sr_ret r
      \<and> got (ct_world s') = (got (ct_world s))(f := got (ct_world s) f @ sr_bytes r)"
proof -
  obtain r0 w where e: "enter k (SysRecvfrom f n fl) (ct_world s) = (r0, w)" by fastforce
  with k(2) have o: "got w = (got (ct_world s))(f := got (ct_world s) f
      @ (if 0 \<le> sr_ret r0 then sr_bytes r0 else []))"
    by (simp add: recv_log_def)
  from e k(1) have "sr_ret r0 \<le> int n" "0 \<le> sr_ret r0 \<Longrightarrow> int (length (sr_bytes r0)) = sr_ret r0"
    unfolding recv_contract_def by blast+
  with o c e show ?thesis
    by (auto simp: libc_def Z_recv_def Z_syscall_enter SYSCALL_RETURN_def split: if_splits)
qed

subsection \<open>Output\<close>

text \<open>Request number \<open>i\<close> with the given data.\<close>

definition request_bytes :: "byte list \<Rightarrow> nat \<Rightarrow> byte list" where
  "request_bytes data i = le_bytes 4 i @ data"

definition sent_stream :: "byte list \<Rightarrow> client_connection_t \<Rightarrow> byte list" where
  "sent_stream data x = concat (map (request_bytes data) [0..<unat (st_sent (status x))])
     @ (if out_left x = 0 then [] else take (nat (1024 - out_left x)) (out_msg x))"

text \<open>
  A connection between two system calls: \<open>pre\<close> is what was on its socket at the start, and
  the request in progress is the next one.
\<close>

definition out_ok ::
  "('w \<Rightarrow> int \<Rightarrow> byte list) \<Rightarrow> byte list \<Rightarrow> byte list \<Rightarrow> nat \<Rightarrow> 'w client_thread_t \<Rightarrow> bool" where
  "out_ok out pre data c s \<longleftrightarrow> c < length (ct_conns s)
     \<and> (let x = ct_conns s ! c in
        length (out_msg x) = 1024 \<and> drop 4 (out_msg x) = data \<and> 0 \<le> out_left x \<and> out_left x \<le> 1024
        \<and> (out_left x \<noteq> 0 \<longrightarrow> take 4 (out_msg x) = le_bytes 4 (unat (st_sent (status x))))
        \<and> out (ct_world s) (cl_fd x) = pre @ sent_stream data x)"

text \<open>The bytes of all requests still to be sent.\<close>

definition out_todo :: "client_connection_t \<Rightarrow> nat" where
  "out_todo x = 1024 * (unat (st_total (status x)) - unat (st_sent (status x)))
     - (if out_left x = 0 then 0 else nat (1024 - out_left x))"

text \<open>After the first half of a round there is a request to send.\<close>

lemma new_request_step:
  assumes "out_ok out pre data c s" and "out_left (ct_conns s ! c) = 0"
  shows "\<exists>s1. new_request c s = Inr s1 \<and> out_ok out pre data c s1 \<and> out_left (ct_conns s1 ! c) = 1024
    \<and> status (ct_conns s1 ! c) = status (ct_conns s ! c) \<and> ct_stopping s1 = ct_stopping s"
proof -
  let ?x = "ct_conns s ! c" and ?b = "le_bytes 4 (unat (st_sent (status (ct_conns s ! c))))"
  have x: "length (out_msg ?x) = 1024" "drop 4 (out_msg ?x) = data" "c < length (ct_conns s)"
    using assms(1) by (simp_all add: out_ok_def Let_def)
  then have st: "store_bytes req_off ?b (out_msg ?x) = Inr (?b @ data)"
    by (simp add: store_bytes_def)
  have "length data = 1020" using x(1,2) by auto
  with st x assms show ?thesis
    by (simp add: new_request_def Let_def out_ok_def sent_stream_def)
qed

lemma take_append_sent:
  assumes "length m = 1024" and "0 < L" and "L \<le> 1024" and "0 \<le> v" and "v \<le> L"
  shows "take (nat (1024 - L)) m @ take (nat v) (take (nat L) (drop (nat (1024 - L)) m))
    = take (nat (1024 - (L - v))) m"
proof -
  have "nat (1024 - (L - v)) = nat (1024 - L) + nat v" using assms by linarith
  moreover have "take (nat v) (take (nat L) (drop (nat (1024 - L)) m)) = take (nat v) (drop (nat (1024 - L)) m)"
    using assms by (simp add: min_def)
  ultimately show ?thesis by (simp only: take_add)
qed

lemma unat_Suc_below:
  fixes a b :: u64
  assumes "unat a < unat b"
  shows "unat (a + 1) = Suc (unat a)"
  using assms unsigned_less [of b, where ?'a = nat] by (simp add: unat_plus_if' )

text \<open>The second half of a round, on a connection with a request in progress.\<close>

definition send_rest ::
  "'w kernel \<Rightarrow> nat \<Rightarrow> 'w client_thread_t \<Rightarrow> (int option \<times> 'w client_thread_t) res" where
  "send_rest k c s =
     (let conn = ct_conns s ! c in
      bind_res (load_bytes (nat (int sizeof_request - out_left conn)) (nat (out_left conn)) (out_msg conn))
          (\<lambda>bs.
        let (r, s) = libc (Z_send (user k) (cl_fd conn) bs 0) s in
        if sr_ret r = -1 then Inr (Some (if ct_errno s = EAGAIN then 0 else -1), s)
        else
          let s = upd_cl c (\<lambda>x. x\<lparr>out_left := out_left x - sr_ret r\<rparr>) s in
          if out_left (ct_conns s ! c) = 0 then
            let s = upd_status c (st_sent_update (\<lambda>x. x + 1)) s; st = status (ct_conns s ! c) in
            Inr (if st_sent st = st_total st then Some 0 else None, s)
          else Inr (None, s)))"

lemma output_round_split:
  "output_round k c s =
     (if out_left (ct_conns s ! c) = 0 \<and> ct_stopping s (ct_world s) \<noteq> 0 then
        Inr (Some 0, upd_status c (\<lambda>x. x\<lparr>st_total := st_sent x\<rparr>) s)
      else bind_res (if out_left (ct_conns s ! c) = 0 then new_request c s else Inr s) (send_rest k c))"
  by (simp add: output_round_def send_rest_def [abs_def] Let_def)

definition output_inv ::
  "('w \<Rightarrow> int \<Rightarrow> byte list) \<Rightarrow> byte list \<Rightarrow> byte list \<Rightarrow> nat \<Rightarrow> 'w client_thread_t \<Rightarrow> bool" where
  "output_inv out pre data c s \<longleftrightarrow> out_ok out pre data c s
     \<and> unat (st_sent (status (ct_conns s ! c))) < unat (st_total (status (ct_conns s ! c)))"

text \<open>What holds when the output loop is left with \<open>r\<close>.\<close>

definition output_done ::
  "('w \<Rightarrow> int \<Rightarrow> byte list) \<Rightarrow> byte list \<Rightarrow> byte list \<Rightarrow> nat \<Rightarrow> int \<Rightarrow> 'w client_thread_t \<Rightarrow> bool" where
  "output_done out pre data c r s \<longleftrightarrow> out_ok out pre data c s
     \<and> unat (st_sent (status (ct_conns s ! c))) \<le> unat (st_total (status (ct_conns s ! c)))
     \<and> (if r = 0 then ct_errno s = EAGAIN
            \<or> st_sent (status (ct_conns s ! c)) = st_total (status (ct_conns s ! c)) \<and> out_left (ct_conns s ! c) = 0
        else r = -1 \<and> ct_errno s \<noteq> EAGAIN)"

lemma send_rest_step:
  assumes k: "send_contract (user k)" "send_log (user k) out" "send_progress (user k)"
    and I: "output_inv out pre data c s" and L: "out_left (ct_conns s ! c) \<noteq> 0"
  shows "\<exists>o' s1. send_rest k c s = Inr (o', s1)
    \<and> (case o' of
         None \<Rightarrow> output_inv out pre data c s1 \<and> out_todo (ct_conns s1 ! c) < out_todo (ct_conns s ! c)
       | Some r \<Rightarrow> output_done out pre data c r s1)"
proof -
  let ?x = "ct_conns s ! c" and ?L = "out_left (ct_conns s ! c)"
  let ?n = "unat (st_sent (status ?x))"
  have x: "length (out_msg ?x) = 1024" "drop 4 (out_msg ?x) = data" "0 < ?L" "?L \<le> 1024"
    "take 4 (out_msg ?x) = le_bytes 4 ?n" "c < length (ct_conns s)"
    "out (ct_world s) (cl_fd ?x) = pre @ sent_stream data ?x" "?n < unat (st_total (status ?x))"
    using I L by (auto simp: output_inv_def out_ok_def Let_def)
  let ?bs = "take (nat ?L) (drop (nat (1024 - ?L)) (out_msg ?x))"
  have ld: "load_bytes (nat (1024 - ?L)) (nat ?L) (out_msg ?x) = Inr ?bs" "length ?bs = nat ?L" "?bs \<noteq> []"
    using x(1,3,4) by (auto simp: load_bytes_def)
  obtain r s1 where c: "libc (Z_send (user k) (cl_fd ?x) ?bs 0) s = (r, s1)" by fastforce
  then have cs: "ct_conns s1 = ct_conns s" "ct_stopping s1 = ct_stopping s"
    using libc_frame [of "Z_send (user k) (cl_fd ?x) ?bs 0" s] by simp_all
  from send_call [OF k c ld(3)] show ?thesis
  proof (elim disjE conjE)
    assume r: "sr_ret r = -1" and o: "out (ct_world s1) = out (ct_world s)"
    with I have "output_done out pre data c (if ct_errno s1 = EAGAIN then 0 else -1) s1"
      by (simp add: output_done_def output_inv_def out_ok_def cs)
    with r ld(1) c show ?thesis by (simp add: send_rest_def Let_def)
  next
    assume v: "0 < sr_ret r" "sr_ret r \<le> int (length ?bs)"
      and o: "out (ct_world s1) = (out (ct_world s))(cl_fd ?x := out (ct_world s) (cl_fd ?x) @ take (nat (sr_ret r)) ?bs)"
    have vL: "sr_ret r \<le> ?L" using v(2) ld(2) x(3) by simp
    let ?v = "sr_ret r" and ?t = "take (nat (1024 - (?L - sr_ret r))) (out_msg ?x)"
    have app: "take (nat (1024 - ?L)) (out_msg ?x) @ take (nat ?v) ?bs = ?t"
      by (rule take_append_sent [OF x(1,3,4)]) (use v vL in simp_all)
    then have o1: "out (ct_world s1) (cl_fd ?x)
        = pre @ concat (map (request_bytes data) [0..<?n]) @ ?t"
      using x(3,7) by (simp add: o sent_stream_def)
    let ?s2 = "upd_cl c (\<lambda>x. x\<lparr>out_left := out_left x - ?v\<rparr>) s1"
    show ?thesis
    proof (cases "?L - ?v = 0")
      case False
      with x vL v o1 have I2: "output_inv out pre data c ?s2"
        by (simp add: output_inv_def out_ok_def Let_def cs sent_stream_def)
      moreover have "out_todo (ct_conns ?s2 ! c) < out_todo ?x"
        using False x(3,4,6,8) vL v(1) by (simp add: out_todo_def cs)
      ultimately show ?thesis
        using False v ld(1) c x(6) by (simp add: send_rest_def Let_def cs)
    next
      case True
      let ?s3 = "upd_status c (st_sent_update (\<lambda>x. x + 1)) ?s2"
      have n1: "unat (st_sent (status ?x) + 1) = Suc ?n" by (rule unat_Suc_below [OF x(8)])
      have "out_msg ?x = request_bytes data ?n"
        using append_take_drop_id [of 4 "out_msg ?x"] x(2,5) by (simp add: request_bytes_def)
      with True x(1) o1 have "out (ct_world s1) (cl_fd ?x)
          = pre @ concat (map (request_bytes data) [0..<Suc ?n])" by simp
      with x True n1 have ok: "out_ok out pre data c ?s3"
        by (simp add: out_ok_def Let_def cs sent_stream_def)
      have st: "status (ct_conns ?s3 ! c) = (status ?x)\<lparr>st_sent := st_sent (status ?x) + 1\<rparr>"
        "out_left (ct_conns ?s3 ! c) = 0" using x(6) True by (simp_all add: cs)
      have run: "send_rest k c s = Inr (if st_sent (status (ct_conns ?s3 ! c)) = st_total (status (ct_conns ?s3 ! c))
          then Some 0 else None, ?s3)"
        using True v ld(1) c x(6) by (simp add: send_rest_def Let_def cs)
      show ?thesis
      proof (cases "st_sent (status ?x) + 1 = st_total (status ?x)")
        case True
        with ok run st show ?thesis by (simp add: output_done_def)
      next
        case False
        then have "Suc ?n \<noteq> unat (st_total (status ?x))"
          using n1 by (metis word_unat_eq_iff)
        then have "output_inv out pre data c ?s3" "out_todo (ct_conns ?s3 ! c) < out_todo ?x"
          using ok st n1 x(3,4,8) by (auto simp: output_inv_def out_todo_def)
        with False run st show ?thesis by simp
      qed
    qed
  qed
qed

lemma output_round_step:
  assumes k: "send_contract (user k)" "send_log (user k) out" "send_progress (user k)"
    and I: "output_inv out pre data c s"
  shows "\<exists>o' s1. output_round k c s = Inr (o', s1)
    \<and> (case o' of
         None \<Rightarrow> output_inv out pre data c s1 \<and> out_todo (ct_conns s1 ! c) < out_todo (ct_conns s ! c)
       | Some r \<Rightarrow> output_done out pre data c r s1)"
proof (cases "out_left (ct_conns s ! c) = 0")
  case False
  then show ?thesis using send_rest_step [OF k I False] by (simp add: output_round_split)
next
  case True
  have ok: "out_ok out pre data c s" using I by (simp add: output_inv_def)
  show ?thesis
  proof (cases "ct_stopping s (ct_world s) = 0")
    case False
    let ?s = "upd_status c (\<lambda>x. x\<lparr>st_total := st_sent x\<rparr>) s"
    have "output_done out pre data c 0 ?s"
      using ok True by (simp add: output_done_def out_ok_def Let_def sent_stream_def)
    with True False show ?thesis by (simp add: output_round_split)
  next
    case go: True
    from new_request_step [OF ok True] obtain s1 where
      s1: "new_request c s = Inr s1" "out_ok out pre data c s1" "out_left (ct_conns s1 ! c) = 1024"
      "status (ct_conns s1 ! c) = status (ct_conns s ! c)" by blast
    then have "output_inv out pre data c s1" "out_left (ct_conns s1 ! c) \<noteq> 0"
      using I by (simp_all add: output_inv_def)
    have e: "out_todo (ct_conns s ! c) = out_todo (ct_conns s1 ! c)"
      using s1(3,4) True by (simp add: out_todo_def)
    have run: "output_round k c s = send_rest k c s1"
      using s1(1) True go by (simp add: output_round_split)
    show ?thesis unfolding e run by (rule send_rest_step [OF k]) fact+
  qed
qed

lemma client_output_total:
  assumes k: "send_contract (user k)" "send_log (user k) out" "send_progress (user k)"
    and I: "output_inv out pre data c s" and n: "out_todo (ct_conns s ! c) < n"
  shows "\<exists>r s'. client_conn_handle_output n k c s = Inr (r, s') \<and> output_done out pre data c r s'"
  unfolding client_conn_handle_output_def
  by (rule loop_res_total [where I = "output_inv out pre data c" and \<mu> = "\<lambda>s. out_todo (ct_conns s ! c)"])
    (use I n output_round_step [OF k] in auto)

subsection \<open>Input\<close>

text \<open>
  \<open>bs\<close> are the bytes received since the start: the counted responses and the beginning of
  the next one, which is in the buffer.
\<close>

definition in_part :: "client_connection_t \<Rightarrow> nat" where
  "in_part x = (if in_left x = 0 then 0 else nat (24 - in_left x))"

definition in_ok ::
  "('w \<Rightarrow> int \<Rightarrow> byte list) \<Rightarrow> byte list \<Rightarrow> nat \<Rightarrow> byte list \<Rightarrow> 'w client_thread_t \<Rightarrow> bool" where
  "in_ok got pre c bs s \<longleftrightarrow> c < length (ct_conns s)
     \<and> (let x = ct_conns s ! c; n = unat (st_received (status x)) in
        length (in_msg x) = 24 \<and> 0 \<le> in_left x \<and> in_left x \<le> 24
        \<and> n \<le> unat (st_total (status x)) \<and> (in_left x \<noteq> 0 \<longrightarrow> n < unat (st_total (status x)))
        \<and> got (ct_world s) (cl_fd x) = pre @ bs
        \<and> length bs = 24 * n + in_part x \<and> take (in_part x) (in_msg x) = drop (24 * n) bs)"

definition in_todo :: "client_connection_t \<Rightarrow> nat" where
  "in_todo x = 24 * (unat (st_total (status x)) - unat (st_received (status x))) - in_part x"

definition recv_progress :: "'w kernel \<Rightarrow> bool" where
  "recv_progress k \<longleftrightarrow> (\<forall>f n fl w r w'. enter k (SysRecvfrom f n fl) w = (r, w') \<longrightarrow> sr_ret r \<noteq> 0)"

lemma recv_progress_call:
  assumes "recv_progress k" and "libc (Z_recv k f n fl) s = (r, s')"
  shows "sr_ret r \<noteq> 0"
proof -
  obtain r0 w where e: "enter k (SysRecvfrom f n fl) (ct_world s) = (r0, w)" by fastforce
  with assms(1) have "sr_ret r0 \<noteq> 0" unfolding recv_progress_def by blast
  with assms(2) e show ?thesis
    by (auto simp: libc_def Z_recv_def Z_syscall_enter SYSCALL_RETURN_def split: if_splits)
qed

text \<open>A round on a connection with a response outstanding.\<close>

definition recv_rest ::
  "'w kernel \<Rightarrow> nat \<Rightarrow> 'w client_thread_t \<Rightarrow> (int option \<times> 'w client_thread_t) res" where
  "recv_rest k c s =
     (let conn = ct_conns s ! c;
          (r, s) = libc (Z_recv (user k) (cl_fd conn) (nat (in_left conn)) 0) s in
      if sr_ret r = -1 then Inr (Some (if ct_errno s = EAGAIN then 0 else -1), s)
      else
        bind_res (store_bytes (nat (int sizeof_response - in_left conn)) (sr_bytes r) (in_msg conn))
          (\<lambda>m.
            let s = upd_cl c (\<lambda>x. x\<lparr>in_msg := m, in_left := in_left x - sr_ret r\<rparr>) s in
            Inr (None, if in_left (ct_conns s ! c) = 0
                       then upd_status c (st_received_update (\<lambda>x. x + 1)) s else s)))"

lemma input_round_split:
  "input_round k c s =
     (if in_left (ct_conns s ! c) = 0
         \<and> st_received (status (ct_conns s ! c)) = st_total (status (ct_conns s ! c))
      then Inr (Some 0, s)
      else recv_rest k c
        (if in_left (ct_conns s ! c) = 0 then upd_cl c (in_left_update (\<lambda>_. int sizeof_response)) s else s))"
  unfolding input_round_def recv_rest_def Let_def ..

text \<open>What holds when the input loop is left with \<open>r\<close>.\<close>

definition input_done ::
  "('w \<Rightarrow> int \<Rightarrow> byte list) \<Rightarrow> byte list \<Rightarrow> nat \<Rightarrow> int \<Rightarrow> 'w client_thread_t \<Rightarrow> bool" where
  "input_done got pre c r s \<longleftrightarrow> (\<exists>bs. in_ok got pre c bs s)
     \<and> (if r = 0 then ct_errno s = EAGAIN
            \<or> st_received (status (ct_conns s ! c)) = st_total (status (ct_conns s ! c)) \<and> in_left (ct_conns s ! c) = 0
        else r = -1 \<and> ct_errno s \<noteq> EAGAIN)"

lemma stored_prefix:
  assumes "length m = 24" and "p + length bs \<le> 24" and "store_bytes p bs m = Inr m'"
  shows "take (p + length bs) m' = take p m @ bs" "length m' = 24"
  using assms by (auto simp: store_bytes_def split: if_splits)

lemma recv_rest_step:
  assumes k: "recv_contract (user k)" "recv_log (user k) got" "recv_progress (user k)"
    and I: "in_ok got pre c bs s" and L: "in_left (ct_conns s ! c) \<noteq> 0"
  shows "\<exists>o' s1 bs'. recv_rest k c s = Inr (o', s1) \<and> in_ok got pre c bs' s1
    \<and> (case o' of
         None \<Rightarrow> in_todo (ct_conns s1 ! c) < in_todo (ct_conns s ! c)
       | Some r \<Rightarrow> input_done got pre c r s1)"
proof -
  let ?x = "ct_conns s ! c" and ?L = "in_left (ct_conns s ! c)"
  let ?n = "unat (st_received (status ?x))"
  have x: "length (in_msg ?x) = 24" "0 < ?L" "?L \<le> 24" "?n < unat (st_total (status ?x))"
    "c < length (ct_conns s)" "got (ct_world s) (cl_fd ?x) = pre @ bs"
    "length bs = 24 * ?n + nat (24 - ?L)" "take (nat (24 - ?L)) (in_msg ?x) = drop (24 * ?n) bs"
    using I L by (auto simp: in_ok_def in_part_def Let_def)
  obtain r s1 where c: "libc (Z_recv (user k) (cl_fd ?x) (nat ?L) 0) s = (r, s1)" by fastforce
  then have cs: "ct_conns s1 = ct_conns s"
    using libc_frame(3) [of "Z_recv (user k) (cl_fd ?x) (nat ?L) 0" s] by simp
  from recv_call [OF k(1,2) c] show ?thesis
  proof (elim disjE conjE)
    assume r: "sr_ret r = -1" and o: "got (ct_world s1) = got (ct_world s)"
    then have I1: "in_ok got pre c bs s1" using I by (simp add: in_ok_def cs)
    then have "input_done got pre c (if ct_errno s1 = EAGAIN then 0 else -1) s1"
      by (auto simp: input_done_def)
    with I1 r c show ?thesis
      by (intro exI [of _ "Some (if ct_errno s1 = EAGAIN then 0 else -1)"] exI [of _ s1] exI [of _ bs])
        (simp add: recv_rest_def Let_def)
  next
    let ?v = "sr_ret r"
    assume v0: "0 \<le> ?v" and v: "?v \<le> int (nat ?L)" "int (length (sr_bytes r)) = ?v"
      and g: "got (ct_world s1) = (got (ct_world s))(cl_fd ?x := got (ct_world s) (cl_fd ?x) @ sr_bytes r)"
    have vp: "0 < ?v" using v0 recv_progress_call [OF k(3) c] by simp
    have vL: "?v \<le> ?L" using v(1) x(2) by simp
    have len: "nat (24 - ?L) + length (sr_bytes r) = nat (24 - (?L - ?v))"
      using v(2) vL x(3) v0 by linarith
    then have le: "nat (24 - ?L) + length (sr_bytes r) \<le> 24" using vL by simp
    then obtain m where m: "store_bytes (nat (24 - ?L)) (sr_bytes r) (in_msg ?x) = Inr m"
      using x(1) by (auto simp: store_bytes_def)
    note sp = stored_prefix [OF x(1) le m]
    let ?bs = "bs @ sr_bytes r"
    let ?s2 = "upd_cl c (\<lambda>x. x\<lparr>in_msg := m, in_left := in_left x - ?v\<rparr>) s1"
    have tk: "take (nat (24 - (?L - ?v))) m = drop (24 * ?n) ?bs"
      using sp(1) x(7,8) by (simp add: len)
    have lbs: "length ?bs = 24 * ?n + nat (24 - (?L - ?v))" using x(7) len by simp
    have run: "recv_rest k c s = Inr (None, if ?L - ?v = 0
        then upd_status c (st_received_update (\<lambda>x. x + 1)) ?s2 else ?s2)"
      using c m vp x(5) by (simp add: recv_rest_def Let_def cs)
    show ?thesis
    proof (cases "?L - ?v = 0")
      case False
      then have "in_ok got pre c ?bs ?s2"
        using x vL v0 lbs tk sp(2) by (simp add: in_ok_def in_part_def Let_def cs g)
      moreover have "in_todo (ct_conns ?s2 ! c) < in_todo ?x"
        using False x(2-5) vL vp by (simp add: in_todo_def in_part_def cs)
      ultimately show ?thesis using run False by auto
    next
      case True
      let ?s3 = "upd_status c (st_received_update (\<lambda>x. x + 1)) ?s2"
      have n1: "unat (st_received (status ?x) + 1) = Suc ?n" by (rule unat_Suc_below [OF x(4)])
      have "length ?bs = 24 * Suc ?n" using lbs True by simp
      then have "in_ok got pre c ?bs ?s3"
        using x True sp(2) n1 by (simp add: in_ok_def in_part_def Let_def cs g)
      moreover have "in_todo (ct_conns ?s3 ! c) < in_todo ?x"
        using True x(2-5) n1 by (simp add: in_todo_def in_part_def cs)
      ultimately show ?thesis using run True by auto
    qed
  qed
qed

lemma input_round_step:
  assumes k: "recv_contract (user k)" "recv_log (user k) got" "recv_progress (user k)"
    and I: "in_ok got pre c bs s"
  shows "\<exists>o' s1 bs'. input_round k c s = Inr (o', s1) \<and> in_ok got pre c bs' s1
    \<and> (case o' of
         None \<Rightarrow> in_todo (ct_conns s1 ! c) < in_todo (ct_conns s ! c)
       | Some r \<Rightarrow> input_done got pre c r s1)"
proof (cases "in_left (ct_conns s ! c) = 0")
  case False
  then have "input_round k c s = recv_rest k c s" by (simp add: input_round_split)
  with recv_rest_step [OF k I False] show ?thesis by simp
next
  case True
  let ?x = "ct_conns s ! c"
  show ?thesis
  proof (cases "st_received (status ?x) = st_total (status ?x)")
    case fin: True
    with True I have "input_done got pre c 0 s" by (auto simp: input_done_def)
    with fin True I show ?thesis
      by (intro exI [of _ "Some 0"] exI [of _ s] exI [of _ bs]) (simp add: input_round_split)
  next
    case False
    let ?s = "upd_cl c (in_left_update (\<lambda>_. 24)) s"
    have "c < length (ct_conns s)" using I by (simp add: in_ok_def)
    moreover have "unat (st_received (status ?x)) \<noteq> unat (st_total (status ?x))"
      using False by (metis word_unat_eq_iff)
    ultimately have I1: "in_ok got pre c bs ?s" and L: "in_left (ct_conns ?s ! c) \<noteq> 0"
      using I True by (auto simp: in_ok_def in_part_def Let_def)
    have e: "in_todo ?x = in_todo (ct_conns ?s ! c)" "input_round k c s = recv_rest k c ?s"
      using True False \<open>c < length (ct_conns s)\<close> by (simp_all add: in_todo_def in_part_def input_round_split)
    show ?thesis unfolding e by (rule recv_rest_step [OF k I1 L])
  qed
qed

lemma client_input_total:
  assumes k: "recv_contract (user k)" "recv_log (user k) got" "recv_progress (user k)"
    and I: "in_ok got pre c bs s" and n: "in_todo (ct_conns s ! c) < n"
  shows "\<exists>r s'. client_conn_handle_input n k c s = Inr (r, s') \<and> input_done got pre c r s'"
  unfolding client_conn_handle_input_def
proof (rule loop_res_total [where I = "\<lambda>s. \<exists>bs. in_ok got pre c bs s"
      and \<mu> = "\<lambda>s. in_todo (ct_conns s ! c)"])
  show "\<exists>bs. in_ok got pre c bs s" using I by blast
  show "in_todo (ct_conns s ! c) < n" by (rule n)
  fix s assume "\<exists>bs. in_ok got pre c bs s"
  then obtain bs where "in_ok got pre c bs s" by blast
  from input_round_step [OF k this] show "\<exists>o' s1. input_round k c s = Inr (o', s1)
      \<and> (case o' of None \<Rightarrow> (\<exists>bs. in_ok got pre c bs s1) \<and> in_todo (ct_conns s1 ! c) < in_todo (ct_conns s ! c)
         | Some r \<Rightarrow> input_done got pre c r s1)"
    by (fastforce split: option.splits)
qed

end
