(* ===== verification/Client_Props.thy ===== *)
theory Client_Props
  imports Client_Steps
begin

section \<open>Properties of a client thread\<close>

subsection \<open>A small kernel\<close>

text \<open>
  The world is what was sent, delivered and is pending on every descriptor. A send takes
  at most 700 bytes, a receive what is pending, or fails with \<open>EAGAIN\<close>;
  \<open>epoll_wait\<close> always reports connection 0 ready.
\<close>

type_synonym demo_world = "(int \<Rightarrow> byte list) \<times> (int \<Rightarrow> byte list) \<times> (int \<Rightarrow> byte list)"

definition demo_call :: "sysreq \<Rightarrow> demo_world \<Rightarrow> sysres \<times> demo_world" where
  "demo_call req w = (case w of (snt, dlv, pnd) \<Rightarrow>
     (case req of
        SysSendto f bs fl \<Rightarrow>
          (\<lparr>sr_ret = int (min 700 (length bs)), sr_bytes = [], sr_events = []\<rparr>,
           (snt(f := snt f @ take (min 700 (length bs)) bs), dlv, pnd))
      | SysRecvfrom f n fl \<Rightarrow>
          (let bs = take n (pnd f) in
           (\<lparr>sr_ret = (if bs = [] then - EAGAIN else int (length bs)), sr_bytes = bs, sr_events = []\<rparr>,
            (snt, dlv(f := dlv f @ bs), pnd(f := drop n (pnd f)))))
      | SysEpollWait f m t \<Rightarrow>
          (\<lparr>sr_ret = 1, sr_bytes = [],
             sr_events = [\<lparr>ev_events = EPOLLIN OR EPOLLOUT, ev_data = DataPtr 0\<rparr>]\<rparr>, w)
      | _ \<Rightarrow> (\<lparr>sr_ret = 0, sr_bytes = [], sr_events = []\<rparr>, w)))"

definition demo_ck :: "demo_world kernel" where
  "demo_ck = \<lparr>k_syscall = demo_call, k_gate = demo_call, k_cs = (\<lambda>_. 3)\<rparr>"

lemma demo_enter: "enter (user demo_ck) = demo_call"
  by (simp add: enter_def demo_ck_def user_def fun_eq_iff)

lemma demo_contracts:
  "send_contract (user demo_ck)" "send_log (user demo_ck) fst" "send_progress (user demo_ck)"
  "recv_contract (user demo_ck)" "recv_log (user demo_ck) (fst \<circ> snd)" "recv_progress (user demo_ck)"
  unfolding send_contract_def send_log_def send_progress_def recv_contract_def recv_log_def
    recv_progress_def demo_enter
  by (auto simp: demo_call_def EAGAIN_def Let_def split: prod.splits sysreq.splits if_splits)

text \<open>A thread with one fresh connection on descriptor 5 that is to send two requests.\<close>

definition demo_status :: client_status_t where
  "demo_status = \<lparr>start_time = Timespec 0 0, end_time = Timespec 0 0, st_sent = 0, st_received = 0,
     st_total = 2\<rparr>"

definition demo_thread :: "demo_world client_thread_t" where
  "demo_thread = \<lparr>ct_cfg = \<lparr>server_path = [], nr_threads = 1, nr_connections = 1, nr_requests = 2, duration = -1\<rparr>,
     ct_stopping = (\<lambda>_. 0),
     ct_conns = [\<lparr>cl_state = CONN_OPEN, cl_fd = 5, out_msg = replicate 1024 0, out_left = 0,
       in_msg = replicate 24 0, in_left = 0, status = demo_status\<rparr>],
     ct_errno = 0, ct_world = ((\<lambda>_. []), (\<lambda>_. []), (\<lambda>_. replicate 30 8))\<rparr>"

subsection \<open>Properties\<close>

text \<open>C31 (functional): what a client connection sends. Called on a connection with requests
  left, \<open>client_conn_handle_output\<close> returns within as many rounds as bytes are left to
  send; and the bytes on the socket are then exactly the requests 0 to \<open>sent - 1\<close>, each with
  its number as id, and the first bytes of request \<open>sent\<close>, however the kernel cut the sends.
  It returns 0 when the socket is full or the last request is out, and -1 on an error.\<close>

theorem client_output_stream:
  assumes "send_contract (user k)" and "send_log (user k) out" and "send_progress (user k)"
    and "out_ok out pre data c s"
    and "unat (st_sent (status (ct_conns s ! c))) < unat (st_total (status (ct_conns s ! c)))"
    and "out_todo (ct_conns s ! c) < n"
  shows "\<exists>r s'. client_conn_handle_output n k c s = Inr (r, s')
    \<and> (let x = ct_conns s' ! c in
       out (ct_world s') (cl_fd x) = pre @ concat (map (request_bytes data) [0..<unat (st_sent (status x))])
         @ (if out_left x = 0 then [] else take (nat (1024 - out_left x)) (request_bytes data (unat (st_sent (status x)))))
       \<and> unat (st_sent (status x)) \<le> unat (st_total (status x))
       \<and> (if r = 0 then ct_errno s' = EAGAIN \<or> st_sent (status x) = st_total (status x) \<and> out_left x = 0
          else r = -1 \<and> ct_errno s' \<noteq> EAGAIN))"
proof -
  have "output_inv out pre data c s" using assms(4,5) by (simp add: output_inv_def)
  from client_output_total [OF assms(1-3) this assms(6)] obtain r s' where
    run: "client_conn_handle_output n k c s = Inr (r, s')" and d: "output_done out pre data c r s'" by blast
  let ?x = "ct_conns s' ! c"
  have "out_msg ?x = request_bytes data (unat (st_sent (status ?x)))" if "out_left ?x \<noteq> 0"
    using d that append_take_drop_id [of 4 "out_msg ?x"]
    by (simp add: output_done_def out_ok_def Let_def request_bytes_def)
  with run d show ?thesis
    by (intro exI [of _ r] exI [of _ s'])
      (auto simp: output_done_def out_ok_def Let_def sent_stream_def)
qed

theorem client_output_stream_witness:
  "\<exists>r s. client_conn_handle_output 5000 demo_ck 0 demo_thread = Inr (r, s)
    \<and> unat (st_sent (status (ct_conns s ! 0))) \<le> unat (st_total (status (ct_conns s ! 0)))"
proof -
  have ok: "out_ok fst [] (replicate 1020 0) 0 demo_thread"
    by (simp add: out_ok_def sent_stream_def demo_thread_def demo_status_def Let_def)
  have "unat (st_sent (status (ct_conns demo_thread ! 0))) < unat (st_total (status (ct_conns demo_thread ! 0)))"
    "out_todo (ct_conns demo_thread ! 0) < 5000"
    by (simp_all add: out_todo_def demo_thread_def demo_status_def)
  from client_output_stream [OF demo_contracts(1-3) ok this] show ?thesis
    by (auto simp: Let_def)
qed



text \<open>C34 (error): a server that hangs up blocks the client for ever. Once \<open>recv\<close> returns 0
  (end of file) on a connection with responses outstanding, \<open>client_conn_handle_input\<close>
  returns for no number of rounds: it calls \<open>recv\<close> again and again.\<close>

theorem client_input_eof_loops:
  assumes "\<And>m fl w. \<exists>w'. enter (user k) (SysRecvfrom f m fl) w
      = (\<lparr>sr_ret = 0, sr_bytes = [], sr_events = []\<rparr>, w')"
    and "c < length (ct_conns s)" and "cl_fd (ct_conns s ! c) = f"
    and "0 \<le> in_left (ct_conns s ! c)" and "in_left (ct_conns s ! c) \<le> 24"
    and "length (in_msg (ct_conns s ! c)) = 24"
    and "in_left (ct_conns s ! c) \<noteq> 0 \<or> st_received (status (ct_conns s ! c)) \<noteq> st_total (status (ct_conns s ! c))"
  shows "client_conn_handle_input n k c s = Inl OutOfFuel"
  unfolding client_conn_handle_input_def
proof (rule loop_res_diverges)
  let ?I = "\<lambda>s. c < length (ct_conns s) \<and> cl_fd (ct_conns s ! c) = f
    \<and> 0 \<le> in_left (ct_conns s ! c) \<and> in_left (ct_conns s ! c) \<le> 24 \<and> length (in_msg (ct_conns s ! c)) = 24
    \<and> (in_left (ct_conns s ! c) \<noteq> 0
       \<or> st_received (status (ct_conns s ! c)) \<noteq> st_total (status (ct_conns s ! c)))"
  show "?I s" using assms by blast
  have rest: "\<exists>s1. recv_rest k c s = Inr (None, s1) \<and> ?I s1"
    if I: "?I s" and L: "in_left (ct_conns s ! c) \<noteq> 0" for s
  proof -
    from assms(1) [of "nat (in_left (ct_conns s ! c))" 0 "ct_world s"] obtain w' where
      e: "enter (user k) (SysRecvfrom f (nat (in_left (ct_conns s ! c))) 0) (ct_world s)
        = (\<lparr>sr_ret = 0, sr_bytes = [], sr_events = []\<rparr>, w')" by blast
    let ?s1 = "s\<lparr>ct_world := w'\<rparr>"
    have l: "libc (Z_recv (user k) f (nat (in_left (ct_conns s ! c))) 0) s
        = (\<lparr>sr_ret = 0, sr_bytes = [], sr_events = []\<rparr>, ?s1)"
      by (simp add: libc_def Z_recv_def Z_syscall_enter e SYSCALL_RETURN_def)
    have "store_bytes (nat (24 - in_left (ct_conns s ! c))) [] (in_msg (ct_conns s ! c))
        = Inr (in_msg (ct_conns s ! c))"
      using I by (auto simp: store_bytes_def)
    with l I L have "recv_rest k c s = Inr (None,
        upd_cl c (\<lambda>x. x\<lparr>in_msg := in_msg (ct_conns s ! c), in_left := in_left x\<rparr>) ?s1)"
      by (simp add: recv_rest_def Let_def)
    with I L show ?thesis by simp
  qed
  show "\<exists>s1. input_round k c s = Inr (None, s1) \<and> ?I s1" if I: "?I s" for s
  proof (cases "in_left (ct_conns s ! c) = 0")
    case False
    with rest [OF I False] show ?thesis by (simp add: input_round_split)
  next
    case True
    let ?s = "upd_cl c (in_left_update (\<lambda>_. 24)) s"
    from I True have "?I ?s" "in_left (ct_conns ?s ! c) \<noteq> 0" by simp_all
    from rest [OF this] I True show ?thesis by (simp add: input_round_split)
  qed
qed

theorem client_input_eof_loops_witness:
  "client_conn_handle_input 50
     (demo_ck\<lparr>k_syscall := (\<lambda>_ w. (\<lparr>sr_ret = 0, sr_bytes = [], sr_events = []\<rparr>, w))\<rparr>) 0 demo_thread
   = Inl OutOfFuel"
proof (rule client_input_eof_loops [of _ 5])
  show "\<exists>w'. enter (user (demo_ck\<lparr>k_syscall := (\<lambda>_ w. (\<lparr>sr_ret = 0, sr_bytes = [], sr_events = []\<rparr>, w))\<rparr>))
      (SysRecvfrom 5 m fl) w = (\<lparr>sr_ret = 0, sr_bytes = [], sr_events = []\<rparr>, w')" for m fl w
    by (cases w) (simp add: enter_def user_def demo_ck_def can_use_call_def get_cpl_def)
qed (simp_all add: demo_thread_def demo_status_def)

subsection \<open>When the worker ends\<close>

text \<open>The value of a round: 0 or -1, and -1 stays.\<close>

lemma client_events_ret:
  assumes "client_events n k clock low wfd epollfd evs (ret, s) = Inr (ret', s')"
  shows "ret' = ret \<or> ret' = -1"
  using assms
proof (induction evs arbitrary: ret s)
  case Nil
  then show ?case by simp
next
  case (Cons ev evs)
  then show ?case
    by (auto split: if_splits epoll_data.splits elim!: bind_res_InrE)
qed

lemma client_worker_round_ret:
  assumes "client_worker_round n k clock low wfd epollfd (ret, s) = Inr (out, ret', s')"
    and "ret \<in> {0, -1}"
  shows "ret' \<in> {0, -1}"
    and "out = Some r \<Longrightarrow> r = ret' \<and> (r = 0 \<longrightarrow> thread_has_active_connections s' = 0)"
proof -
  have "ret' \<in> {0, -1}
    \<and> (out = Some r \<longrightarrow> r = ret' \<and> (r = 0 \<longrightarrow> thread_has_active_connections s' = 0))"
  proof (cases "thread_has_active_connections s = 0")
    case True
    with assms show ?thesis by (auto simp: client_worker_round_def)
  next
    case False
    obtain x s1 where c: "libc (Z_epoll_wait (user k) epollfd CLIENT_MAX_EVENTS 100) s = (x, s1)"
      by fastforce
    show ?thesis
    proof (cases "sr_ret x = -1")
      case True
      with False c assms show ?thesis by (auto simp: client_worker_round_def split: if_splits)
    next
      case no: False
      with False c assms(1) obtain
        "client_events n k clock low wfd epollfd (take (nat (sr_ret x)) (sr_events x)) (ret, s1)
          = Inr (ret', s')" "out = None"
        by (auto simp: client_worker_round_def elim!: bind_res_InrE)
      with client_events_ret assms(2) show ?thesis by blast
    qed
  qed
  then show "ret' \<in> {0, -1}"
    "out = Some r \<Longrightarrow> r = ret' \<and> (r = 0 \<longrightarrow> thread_has_active_connections s' = 0)" by auto
qed

lemma libc_active [simp]:
  "thread_has_active_connections (snd (libc call s)) = thread_has_active_connections s"
  by (simp add: thread_has_active_connections_def)


text \<open>A whole run: two requests out, two responses of 24 bytes in, the socket closed.\<close>

definition demo_run :: "(int \<times> demo_world client_thread_t) res" where
  "demo_run = client_worker 10 demo_ck (\<lambda>w. (Some (Timespec 3 4), w)) (\<lambda>_. 1000) 7
     (demo_thread\<lparr>ct_world := ((\<lambda>_. []), (\<lambda>_. []), (\<lambda>_. replicate 48 8))\<rparr>)"

lemma demo_run_returns:
  "(case demo_run of Inl _ \<Rightarrow> False
     | Inr (ret, s) \<Rightarrow> ret = 0 \<and> cl_fd (ct_conns s ! 0) = -1 \<and> length (fst (ct_world s) 5) = 2048)"
  by code_simp


end
