(* ===== verification/Client_Main.thy ===== *)
theory Client_Main
  imports Client Thread Command
begin

section \<open>The client program (src/client/main.c)\<close>

text \<open>
  The parameter table, the context with its threads and their connections, its start, the
  reports, and \<open>main\<close>. The arrays of connections are heap objects: a thread holds a pointer
  to its array, and access through a pointer that was freed is a fault.
\<close>

subsection \<open>Parameters\<close>

definition CLIENT_PATH_LEN :: nat where "CLIENT_PATH_LEN = 128"
definition sizeof_client_config :: nat where "sizeof_client_config = 144"

definition client_params :: "param_t list" where
  "client_params =
    [PARAM_STR ''server_path'' 0 CLIENT_PATH_LEN ''/tmp/bench-server'',
     PARAM_UINT ''nr_threads'' 128 1,
     PARAM_UINT ''nr_connections'' 132 20,
     PARAM_UINT ''nr_requests'' 136 100000,
     PARAM_INT ''duration'' 140 (-1)]"

definition client_config_of :: "byte list \<Rightarrow> client_config_t" where
  "client_config_of m =
     \<lparr>server_path = take CLIENT_PATH_LEN m, nr_threads = u32_at 128 m, nr_connections = u32_at 132 m,
      nr_requests = u32_at 136 m, duration = sint (u32_at 140 m)\<rparr>"

subsection \<open>State\<close>

text \<open>A slot of \<open>client_threads\<close>; the back pointer to the context is left out.\<close>

record client_slot_t =
  cs_init :: int
  cs_ti :: "nat option"
  cs_conns :: "nat option"

record client_context_t =
  cx_stopping :: int
  cx_cfg :: client_config_t
  client_threads :: "client_slot_t list"
  start_barrier :: barrier_t
  deadline :: u64

datatype client_routine = ClientWorker

text \<open>
  The process: the context, the arrays of connections that are allocated, the library's
  state, the sockets opened so far, and how often the barrier was destroyed and waited for.
\<close>

record client_proc =
  cx :: client_context_t
  arrays :: "nat \<rightharpoonup> client_connection_t list"
  clib :: "(client_routine, nat) threads"
  opened :: "int list"
  bar_destroyed :: nat
  bar_waits :: nat

text \<open>What system calls return while the client starts, by thread and connection.\<close>

record client_env =
  ce_threads :: thread_env
  ce_socket :: "nat \<Rightarrow> nat \<Rightarrow> int"
  ce_connect :: "nat \<Rightarrow> nat \<Rightarrow> byte list \<Rightarrow> int"
  ce_getfl :: "nat \<Rightarrow> nat \<Rightarrow> int"
  ce_setfl :: "nat \<Rightarrow> nat \<Rightarrow> u32 \<Rightarrow> int"
  ce_barrier :: int
  ce_now :: timespec

definition blank_status :: client_status_t where
  "blank_status = \<lparr>start_time = Timespec 0 0, end_time = Timespec 0 0, st_sent = 0, st_received = 0,
     st_total = 0\<rparr>"

text \<open>A connection as \<open>calloc\<close> leaves it.\<close>

definition blank_conn :: client_connection_t where
  "blank_conn = \<lparr>cl_state = 0, cl_fd = 0, out_msg = replicate sizeof_request 0, out_left = 0,
     in_msg = replicate sizeof_response 0, in_left = 0, status = blank_status\<rparr>"

definition blank_client :: "client_config_t \<Rightarrow> client_context_t" where
  "blank_client c = \<lparr>cx_stopping = 0, cx_cfg = c,
     client_threads = replicate MAX_CLIENT_THREADS \<lparr>cs_init = 0, cs_ti = None, cs_conns = None\<rparr>,
     start_barrier = \<lparr>bar_init = 0, bar_count = 0\<rparr>, deadline = 0\<rparr>"

subsection \<open>Access\<close>

definition calloc :: "client_env \<Rightarrow> client_proc \<Rightarrow> nat option \<times> client_proc" where
  "calloc e p = (case alloc (mem_av (ce_threads e)) (th_mem (clib p)) of
     (a, m) \<Rightarrow> (a, p\<lparr>clib := (clib p)\<lparr>th_mem := m\<rparr>\<rparr>))"

definition cfree :: "nat option \<Rightarrow> client_proc \<Rightarrow> client_proc res" where
  "cfree a p = bind_res (free a (th_mem (clib p))) (\<lambda>m.
     Inr (p\<lparr>clib := (clib p)\<lparr>th_mem := m\<rparr>,
            arrays := (case a of None \<Rightarrow> arrays p | Some a \<Rightarrow> (arrays p)(a := None))\<rparr>))"

definition cclose :: "int \<Rightarrow> client_proc \<Rightarrow> client_proc" where
  "cclose sock p = p\<lparr>clib := (clib p)\<lparr>th_closed := th_closed (clib p) @ [sock]\<rparr>\<rparr>"

definition get_slot :: "nat \<Rightarrow> client_proc \<Rightarrow> client_slot_t res" where
  "get_slot i p = index_res (client_threads (cx p)) i"

definition put_slot :: "nat \<Rightarrow> (client_slot_t \<Rightarrow> client_slot_t) \<Rightarrow> client_proc \<Rightarrow> client_proc res" where
  "put_slot i f p = bind_res (get_slot i p) (\<lambda>x.
     Inr (p\<lparr>cx := (cx p)\<lparr>client_threads := (client_threads (cx p))[i := f x]\<rparr>\<rparr>))"

definition get_conns :: "nat \<Rightarrow> client_proc \<Rightarrow> (nat \<times> client_connection_t list) res" where
  "get_conns i p = bind_res (get_slot i p) (\<lambda>x. bind_res (deref (cs_conns x)) (\<lambda>a.
     bind_res (deref (arrays p a)) (\<lambda>xs. Inr (a, xs))))"

definition get_conn :: "nat \<Rightarrow> nat \<Rightarrow> client_proc \<Rightarrow> client_connection_t res" where
  "get_conn i j p = bind_res (get_conns i p) (\<lambda>(a, xs). index_res xs j)"

definition put_conn ::
  "nat \<Rightarrow> nat \<Rightarrow> (client_connection_t \<Rightarrow> client_connection_t) \<Rightarrow> client_proc \<Rightarrow> client_proc res" where
  "put_conn i j f p = bind_res (get_conns i p) (\<lambda>(a, xs). bind_res (index_res xs j) (\<lambda>x.
     Inr (p\<lparr>arrays := (arrays p)(a \<mapsto> xs[j := f x])\<rparr>)))"

subsection \<open>Connections\<close>

text \<open>\<open>sun_path\<close> has 108 bytes; the path is cut to it.\<close>

definition init_client_conn ::
  "client_env \<Rightarrow> nat \<Rightarrow> nat \<Rightarrow> client_proc \<Rightarrow> (int \<times> client_proc) res" where
  "init_client_conn e i j p =
     (let sock = ce_socket e i j;
          p = (if sock < 0 then p else p\<lparr>opened := opened p @ [sock]\<rparr>) in
      bind_res (put_conn i j (cl_fd_update (\<lambda>_. sock)) p) (\<lambda>p.
      if sock < 0 then Inr (-1, p)
      else if ce_connect e i j (strncpy 108 (server_path (cx_cfg (cx p)))) \<noteq> 0 then
        Inr (-1, cclose sock p)
      else if setnonblock (ce_getfl e i j) (ce_setfl e i j) \<noteq> 0 then Inr (-1, cclose sock p)
      else
        bind_res (put_conn i j (\<lambda>x. x\<lparr>cl_state := CONN_OPEN,
            status := (status x)\<lparr>st_total := ucast (nr_requests (cx_cfg (cx p)))\<rparr>\<rparr>) p)
          (\<lambda>p. Inr (0, p))))"

definition cleanup_client_conn :: "nat \<Rightarrow> nat \<Rightarrow> client_proc \<Rightarrow> client_proc res" where
  "cleanup_client_conn i j p =
     bind_res (get_conn i j p) (\<lambda>x.
       let p = (if cl_fd x > 0 then cclose (cl_fd x) p else p) in
       put_conn i j (cl_state_update (\<lambda>_. 0)) p)"

subsection \<open>Threads\<close>

definition cleanup_client_thread :: "nat \<Rightarrow> client_proc \<Rightarrow> client_proc res" where
  "cleanup_client_thread i p =
     bind_res (for_res (unat (nr_connections (cx_cfg (cx p)))) 0 (\<lambda>j p.
         bind_res (get_conn i j p) (\<lambda>x.
           if cl_state x = CONN_OPEN
           then bind_res (cleanup_client_conn i j p) (\<lambda>p. Inr (0, p)) else Inr (0, p))) p)
       (\<lambda>(_, p).
     bind_res (get_slot i p) (\<lambda>x.
     bind_res (cfree (cs_conns x) p) (\<lambda>p.
     put_slot i (cs_init_update (\<lambda>_. 0)) p)))"

definition init_client_thread :: "client_env \<Rightarrow> nat \<Rightarrow> client_proc \<Rightarrow> (int \<times> client_proc) res" where
  "init_client_thread e i p =
     (let n = unat (nr_connections (cx_cfg (cx p))); (a, p) = calloc e p in
      bind_res (put_slot i (cs_conns_update (\<lambda>_. a)) p) (\<lambda>p.
      case a of
        None \<Rightarrow> Inr (-1, p)
      | Some a \<Rightarrow>
          let p = p\<lparr>arrays := (arrays p)(a \<mapsto> replicate n blank_conn)\<rparr> in
          bind_res (for_res n 0 (init_client_conn e i) p) (\<lambda>(r, p).
          if r \<noteq> 0 then bind_res (cleanup_client_thread i p) (\<lambda>p. Inr (-1, p))
          else bind_res (put_slot i (cs_init_update (\<lambda>_. 1)) p) (\<lambda>p. Inr (0, p)))))"

subsection \<open>The context\<close>

definition cleanup_client :: "nat \<Rightarrow> client_proc \<Rightarrow> client_proc res" where
  "cleanup_client addr p =
     (let p = (if barrier_destroy (start_barrier (cx p))
               then p\<lparr>bar_destroyed := bar_destroyed p + 1\<rparr> else p) in
      bind_res (for_res (unat (nr_threads (cx_cfg (cx p)))) 0 (\<lambda>i p.
          bind_res (get_slot i p) (\<lambda>x.
            if cs_init x \<noteq> 0 then bind_res (cleanup_client_thread i p) (\<lambda>p. Inr (0, p))
            else Inr (0, p))) p)
        (\<lambda>(_, p). cfree (Some addr) p))"

definition client_deadline :: "timespec \<Rightarrow> int \<Rightarrow> u64" where
  "client_deadline now dur =
     (if dur = -1 then -1 else as_nanoseconds (Timespec (tv_sec now + dur) (tv_nsec now)))"

definition init_client ::
  "client_env \<Rightarrow> client_config_t \<Rightarrow> client_proc \<Rightarrow> (nat option \<times> client_proc) res" where
  "init_client e c p =
     (let (a, p) = calloc e p in
      case a of
        None \<Rightarrow> Inr (None, p)
      | Some addr \<Rightarrow>
          let p = p\<lparr>cx := blank_client c\<rparr> in
          bind_res (for_res (unat (nr_threads c)) 0 (init_client_thread e) p) (\<lambda>(r, p).
          if r \<noteq> 0 then bind_res (cleanup_client addr p) (\<lambda>p. Inr (None, p))
          else
            bind_res (barrier_init (ce_barrier e) (start_barrier (cx p)) (sint (nr_threads c + 1)))
              (\<lambda>(r, b).
            let p = p\<lparr>cx := (cx p)\<lparr>start_barrier := b\<rparr>\<rparr> in
            if r \<noteq> 0 then bind_res (cleanup_client addr p) (\<lambda>p. Inr (None, p))
            else
              Inr (Some addr,
                p\<lparr>cx := (cx p)\<lparr>deadline := client_deadline (ce_now e) (duration c)\<rparr>\<rparr>))))"

definition prepare_client ::
  "client_env \<Rightarrow> client_config_t \<Rightarrow> client_proc \<Rightarrow> (nat option \<times> client_proc) res" where
  "prepare_client e c p = init_client e c p"

subsection \<open>Starting and joining the threads\<close>

definition client_thread_name :: "nat \<Rightarrow> string" where
  "client_thread_name i = take (THREAD_NAME_MAX - 1) (''client:'' @ decimal i)"

definition start_client_thread :: "client_env \<Rightarrow> nat \<Rightarrow> client_proc \<Rightarrow> (int \<times> client_proc) res" where
  "start_client_thread e i p =
     bind_res (create_thread (ce_threads e) (client_thread_name i) ClientWorker i (clib p))
       (\<lambda>(t, l).
     let p = p\<lparr>clib := l\<rparr> in
     if t = None then Inr (-1, p)
     else bind_res (put_slot i (cs_ti_update (\<lambda>_. t)) p) (\<lambda>p. Inr (0, p)))"

definition start_client_threads :: "client_env \<Rightarrow> client_proc \<Rightarrow> (int \<times> client_proc) res" where
  "start_client_threads e p =
     for_res (unat (nr_threads (cx_cfg (cx p)))) 0 (start_client_thread e) p"

definition start_client :: "client_env \<Rightarrow> client_proc \<Rightarrow> (int \<times> client_proc) res" where
  "start_client e p =
     bind_res (start_client_threads e p) (\<lambda>(r, p).
       if r \<noteq> 0 then Inr (-1, p) else Inr (0, p\<lparr>bar_waits := bar_waits p + 1\<rparr>))"

text \<open>
  The verdict of \<open>thread_join\<close> is read from freed memory: \<open>stale\<close>. Every thread is
  joined, whatever the ones before returned.
\<close>

definition join_client_thread ::
  "((client_routine, nat) thread_info_t \<Rightarrow> int) \<Rightarrow> nat \<Rightarrow> int \<times> client_proc
    \<Rightarrow> (int \<times> int \<times> client_proc) res" where
  "join_client_thread stale i = (\<lambda>(err, p).
     bind_res (get_slot i p) (\<lambda>x.
       case cs_ti x of
         None \<Rightarrow> Inr (0, err, p)
       | Some ti \<Rightarrow>
           bind_res (thread_join stale ti (clib p)) (\<lambda>(r, l).
             Inr (0, if r \<noteq> 0 then 1 else err, p\<lparr>clib := l\<rparr>))))"

definition join_client_threads ::
  "((client_routine, nat) thread_info_t \<Rightarrow> int) \<Rightarrow> client_proc \<Rightarrow> (int \<times> client_proc) res" where
  "join_client_threads stale p =
     bind_res (for_res (unat (nr_threads (cx_cfg (cx p)))) 0 (join_client_thread stale) (0, p))
       (\<lambda>(_, err, p). Inr (err, p))"

definition join_client ::
  "((client_routine, nat) thread_info_t \<Rightarrow> int) \<Rightarrow> client_proc \<Rightarrow> (int \<times> client_proc) res" where
  "join_client stale p = join_client_threads stale p"

subsection \<open>Reports\<close>

text \<open>The integers that are computed; what is printed of them in floating point is left out.\<close>

definition client_nr_threads_done :: "client_proc \<Rightarrow> int res" where
  "client_nr_threads_done p =
     bind_res (for_res (unat (nr_threads (cx_cfg (cx p)))) 0 (\<lambda>i n.
         bind_res (get_slot i p) (\<lambda>x. bind_res (deref (cs_ti x)) (\<lambda>t.
         bind_res (deref (infos (clib p) t)) (\<lambda>ti. Inr (0, n + returned ti))))) 0)
       (\<lambda>(_, n). Inr n)"

definition client_threads_done :: "client_proc \<Rightarrow> bool res" where
  "client_threads_done p = bind_res (client_nr_threads_done p) (\<lambda>n.
     Inr (of_int n = nr_threads (cx_cfg (cx p))))"

text \<open>Both reports go over all connections of all threads.\<close>

definition for_conns :: "(client_status_t \<Rightarrow> 'a \<Rightarrow> 'a) \<Rightarrow> client_proc \<Rightarrow> 'a \<Rightarrow> 'a res" where
  "for_conns f p a =
     bind_res (for_res (unat (nr_threads (cx_cfg (cx p)))) 0 (\<lambda>i.
         for_res (unat (nr_connections (cx_cfg (cx p)))) 0 (\<lambda>j a.
           bind_res (get_conn i j p) (\<lambda>x. Inr (0, f (status x) a)))) a)
       (\<lambda>(_, a). Inr a)"

record client_stats =
  cst_start :: u64
  cst_end :: u64
  cst_requests :: u64

definition stats_step :: "client_status_t \<Rightarrow> client_stats \<Rightarrow> client_stats" where
  "stats_step st a =
     (let s = as_nanoseconds (start_time st); e = as_nanoseconds (end_time st) in
      \<lparr>cst_start = (if cst_start a > s then s else cst_start a),
       cst_end = (if cst_end a < e then e else cst_end a),
       cst_requests = cst_requests a + st_sent st\<rparr>)"

text \<open>The totals and the average time of a request; dividing by zero is a fault.\<close>

definition report_client_stats :: "client_proc \<Rightarrow> (client_stats \<times> u64) res" where
  "report_client_stats p =
     bind_res (for_conns stats_step p \<lparr>cst_start = -1, cst_end = 0, cst_requests = 0\<rparr>) (\<lambda>a.
       if cst_requests a = 0 then Inl Fault
       else Inr (a, (cst_end a - cst_start a) div cst_requests a))"

record client_progress_t =
  threads_active :: u64
  conns_active :: u64
  sent_total :: u64
  received_total :: u64
  timestamp :: timespec

definition progress_step ::
  "u32 \<Rightarrow> client_status_t \<Rightarrow> client_progress_t \<Rightarrow> client_progress_t" where
  "progress_step nreq st a =
     a\<lparr>conns_active := conns_active a + (if st_received st < ucast nreq then 1 else 0),
       sent_total := sent_total a + st_sent st,
       received_total := received_total a + st_received st\<rparr>"

text \<open>The number of requests of the whole run: a product of 32 bits, widened afterwards.\<close>

definition progress_total :: "client_config_t \<Rightarrow> u64" where
  "progress_total c = ucast (nr_threads c * nr_connections c * nr_requests c)"

text \<open>The deltas to the last report, in 32 bits: nanoseconds, requests and responses.\<close>

definition progress_deltas :: "client_progress_t \<Rightarrow> client_progress_t \<Rightarrow> u32 \<times> u32 \<times> u32" where
  "progress_deltas new old =
     (ucast (as_nanoseconds (timestamp new) - as_nanoseconds (timestamp old)),
      ucast (sent_total new - sent_total old), ucast (received_total new - received_total old))"

definition report_progress :: "timespec \<Rightarrow> client_proc \<Rightarrow> client_progress_t res" where
  "report_progress now p =
     (let c = cx_cfg (cx p) in
      bind_res (for_conns (progress_step (nr_requests c)) p
          \<lparr>threads_active = 0, conns_active = 0, sent_total = 0, received_total = 0, timestamp = now\<rparr>)
        (\<lambda>new.
      bind_res (client_nr_threads_done p) (\<lambda>n.
        Inr (new\<lparr>threads_active := ucast (nr_threads c - of_int n)\<rparr>))))"

subsection \<open>The run\<close>

text \<open>
  \<open>now i\<close> are the two clock readings of round \<open>i\<close>, \<open>work i\<close> what the threads do while it
  sleeps. The loop gives the process and the last progress.
\<close>

fun run_wait ::
  "nat \<Rightarrow> (nat \<Rightarrow> timespec \<times> timespec) \<Rightarrow> (nat \<Rightarrow> client_proc \<Rightarrow> client_proc) \<Rightarrow> nat
    \<Rightarrow> client_progress_t \<Rightarrow> client_proc \<Rightarrow> (client_progress_t \<times> client_proc) res" where
  "run_wait 0 now work i prog p = Inl OutOfFuel"
| "run_wait (Suc n) now work i prog p =
     bind_res (client_threads_done p) (\<lambda>fin.
     if fin then Inr (prog, p)
     else
       bind_res (report_progress (fst (now i)) p) (\<lambda>prog.
       let p = (if cur_nanoseconds (snd (now i)) \<ge> deadline (cx p)
                then p\<lparr>cx := (cx p)\<lparr>cx_stopping := 1\<rparr>\<rparr> else p)
       in run_wait n now work (Suc i) prog (work i p)))"

definition no_progress :: client_progress_t where
  "no_progress = \<lparr>threads_active = 0, conns_active = 0, sent_total = 0, received_total = 0,
     timestamp = Timespec 0 0\<rparr>"

definition run_client ::
  "client_env \<Rightarrow> ((client_routine, nat) thread_info_t \<Rightarrow> int) \<Rightarrow> nat
    \<Rightarrow> (nat \<Rightarrow> timespec \<times> timespec) \<Rightarrow> (nat \<Rightarrow> client_proc \<Rightarrow> client_proc) \<Rightarrow> client_config_t
    \<Rightarrow> client_proc \<Rightarrow> (int \<times> client_proc) res" where
  "run_client e stale n now work c p =
     bind_res (prepare_client e c p) (\<lambda>(ctx, p).
     case ctx of
       None \<Rightarrow> Inr (-1, p)
     | Some addr \<Rightarrow>
         bind_res (start_client e p) (\<lambda>(err, p).
         if err \<noteq> 0 then bind_res (cleanup_client addr p) (\<lambda>p. Inr (err, p))
         else
           bind_res (run_wait n now work 0 no_progress p) (\<lambda>(_, p).
           bind_res (join_client stale p) (\<lambda>(err, p).
           if err \<noteq> 0 then bind_res (cleanup_client addr p) (\<lambda>p. Inr (err, p))
           else
             bind_res (report_client_stats p) (\<lambda>_.
             bind_res (cleanup_client addr p) (\<lambda>p. Inr (err, p)))))))"

definition client_main ::
  "client_env \<Rightarrow> ((client_routine, nat) thread_info_t \<Rightarrow> int) \<Rightarrow> nat
    \<Rightarrow> (nat \<Rightarrow> timespec \<times> timespec) \<Rightarrow> (nat \<Rightarrow> client_proc \<Rightarrow> client_proc)
    \<Rightarrow> (nat \<Rightarrow> byte list) \<Rightarrow> byte list \<Rightarrow> string list \<Rightarrow> client_proc \<Rightarrow> (int \<times> client_proc) res" where
  "client_main e stale n now work junk cfg0 argv p =
     bind_res (parse_command_args junk argv cfg0
         \<lparr>progname = (case argv of [] \<Rightarrow> [] | a # _ \<Rightarrow> a), description = ''PIOT benchmark client'',
          params = client_params\<rparr>) (\<lambda>(r, m).
     if r \<noteq> 0 then Inr (1, p) else run_client e stale n now work (client_config_of m) p)"

end
