(* ===== verification/Client_Start.thy ===== *)
theory Client_Start
  imports Client_Main "HOL-Library.Multiset"
begin

section \<open>Starting and cleaning up the client\<close>

text \<open>
  What the context's creation builds, what its cleaning up gives back, and that a creation
  that fails gives back all it took.
\<close>

subsection \<open>The connections of a thread\<close>

text \<open>
  \<open>owns A B X as k p\<close>: the threads \<open>k\<close>, ... of the context are initialised, thread \<open>t\<close>
  with the connections \<open>X t\<close> in the array at address \<open>as ! t\<close>; \<open>A\<close> is what else is
  allocated, \<open>B\<close> the other arrays.
\<close>

definition owns ::
  "nat set \<Rightarrow> (nat \<rightharpoonup> client_connection_t list) \<Rightarrow> (nat \<Rightarrow> client_connection_t list) \<Rightarrow> nat list
    \<Rightarrow> nat \<Rightarrow> client_proc \<Rightarrow> bool" where
  "owns A B X as k p \<longleftrightarrow>
     length (client_threads (cx p)) = MAX_CLIENT_THREADS \<and> length as \<le> MAX_CLIENT_THREADS
     \<and> (\<forall>t < MAX_CLIENT_THREADS. cs_init (client_threads (cx p) ! t) = (if k \<le> t \<and> t < length as then 1 else 0))
     \<and> (\<forall>t. k \<le> t \<longrightarrow> t < length as \<longrightarrow> cs_conns (client_threads (cx p) ! t) = Some (as ! t)
          \<and> arrays p (as ! t) = Some (X t) \<and> length (X t) = unat (nr_connections (cx_cfg (cx p))))
     \<and> distinct as \<and> set as \<inter> A = {} \<and> mem_ok (th_mem (clib p))
     \<and> allocated (th_mem (clib p)) = A \<union> set (drop k as)
     \<and> (\<forall>a. a \<notin> set (drop k as) \<longrightarrow> arrays p a = B a) \<and> dom B \<subseteq> A"

lemma ownsD:
  assumes "owns A B X as k p"
  shows "length (client_threads (cx p)) = MAX_CLIENT_THREADS" "length as \<le> MAX_CLIENT_THREADS"
    "\<And>t. t < MAX_CLIENT_THREADS \<Longrightarrow> cs_init (client_threads (cx p) ! t) = (if k \<le> t \<and> t < length as then 1 else 0)"
    "\<And>t. k \<le> t \<Longrightarrow> t < length as \<Longrightarrow> cs_conns (client_threads (cx p) ! t) = Some (as ! t)"
    "\<And>t. k \<le> t \<Longrightarrow> t < length as \<Longrightarrow> arrays p (as ! t) = Some (X t)"
    "\<And>t. k \<le> t \<Longrightarrow> t < length as \<Longrightarrow> length (X t) = unat (nr_connections (cx_cfg (cx p)))"
    "distinct as" "set as \<inter> A = {}" "mem_ok (th_mem (clib p))"
    "allocated (th_mem (clib p)) = A \<union> set (drop k as)"
    "\<And>a. a \<notin> set (drop k as) \<Longrightarrow> arrays p a = B a" "dom B \<subseteq> A"
  using assms unfolding owns_def by blast+

lemma owns_opened: "owns A B X as k (p\<lparr>opened := os\<rparr>) \<longleftrightarrow> owns A B X as k p"
  by (simp add: owns_def)

text \<open>The thread \<open>i\<close> has its connections \<open>xs\<close> at \<open>a\<close>.\<close>

definition has_conns :: "nat \<Rightarrow> nat \<Rightarrow> client_connection_t list \<Rightarrow> client_proc \<Rightarrow> bool" where
  "has_conns i a xs p \<longleftrightarrow> i < length (client_threads (cx p))
     \<and> cs_conns (client_threads (cx p) ! i) = Some a \<and> arrays p a = Some xs"

lemma has_conns_access:
  assumes "has_conns i a xs p"
  shows "get_slot i p = Inr (client_threads (cx p) ! i)" "get_conns i p = Inr (a, xs)"
    "j < length xs \<Longrightarrow> get_conn i j p = Inr (xs ! j)"
    "j < length xs \<Longrightarrow> put_conn i j f p = Inr (p\<lparr>arrays := (arrays p)(a \<mapsto> xs[j := f (xs ! j)])\<rparr>)"
  using assms
  by (simp_all add: has_conns_def get_slot_def get_conns_def get_conn_def put_conn_def index_res_ok)

lemma has_conns_upd:
  "has_conns i a xs p \<Longrightarrow> has_conns i a ys (p\<lparr>arrays := (arrays p)(a \<mapsto> ys)\<rparr>)"
  by (simp add: has_conns_def)

lemma has_conns_frame [simp]:
  "has_conns i a xs (p\<lparr>opened := os\<rparr>) = has_conns i a xs p"
  "has_conns i a xs (p\<lparr>clib := l\<rparr>) = has_conns i a xs p"
  "has_conns i a xs (cclose sock p) = has_conns i a xs p"
  by (simp_all add: has_conns_def cclose_def)

text \<open>Closing changes the list of closed descriptors only.\<close>

lemma cclose_frame [simp]:
  "cx (cclose sock p) = cx p" "arrays (cclose sock p) = arrays p" "opened (cclose sock p) = opened p"
  "th_mem (clib (cclose sock p)) = th_mem (clib p)"
  "th_closed (clib (cclose sock p)) = th_closed (clib p) @ [sock]"
  by (simp_all add: cclose_def)

subsection \<open>Cleaning up a thread\<close>

definition open_fds :: "client_connection_t list \<Rightarrow> int list" where
  "open_fds xs = map cl_fd (filter (\<lambda>x. cl_state x = CONN_OPEN \<and> 0 < cl_fd x) xs)"

lemma open_fds_simps [simp]:
  "open_fds [] = []" "open_fds (xs @ ys) = open_fds xs @ open_fds ys"
  "open_fds (x # xs) = (if cl_state x = CONN_OPEN \<and> 0 < cl_fd x then cl_fd x # open_fds xs else open_fds xs)"
  by (simp_all add: open_fds_def)

definition shut :: "client_connection_t \<Rightarrow> client_connection_t" where
  "shut x = (if cl_state x = CONN_OPEN then x\<lparr>cl_state := 0\<rparr> else x)"

abbreviation shut_round :: "nat \<Rightarrow> nat \<Rightarrow> client_proc \<Rightarrow> (int \<times> client_proc) res" where
  "shut_round i \<equiv> (\<lambda>j p. bind_res (get_conn i j p) (\<lambda>x. if cl_state x = CONN_OPEN
       then bind_res (cleanup_client_conn i j p) (\<lambda>p. Inr (0, p)) else Inr (0, p)))"

text \<open>The state after the connections \<open>ys\<close> of thread \<open>i\<close> have been shut.\<close>

definition shut_state ::
  "nat \<Rightarrow> client_connection_t list \<Rightarrow> client_connection_t list \<Rightarrow> client_proc \<Rightarrow> client_proc" where
  "shut_state a ys zs p = p\<lparr>arrays := (arrays p)(a \<mapsto> map shut ys @ zs),
     clib := (clib p)\<lparr>th_closed := th_closed (clib p) @ open_fds ys\<rparr>\<rparr>"

lemma shut_round_step:
  assumes "has_conns i a (map shut ys @ z # zs) (shut_state a ys (z # zs) p)"
  shows "shut_round i (length ys) (shut_state a ys (z # zs) p) = Inr (0, shut_state a (ys @ [z]) zs p)"
proof -
  let ?p = "shut_state a ys (z # zs) p"
  have nth: "(map shut ys @ z # zs) ! length ys = z" by (simp add: nth_append)
  have upd: "(map shut ys @ z # zs)[length ys := y] = map shut ys @ y # zs" for y
    using list_update_length [of "map shut ys" z zs y] by simp
  note acc = has_conns_access(3,4) [OF assms, of "length ys", simplified nth upd]
  show ?thesis
  proof (cases "cl_state z = CONN_OPEN")
    case True
    have "has_conns i a (map shut ys @ z # zs) (cclose (cl_fd z) ?p)" using assms by simp
    note acc2 = has_conns_access(4) [OF this, of "length ys", simplified nth upd]
    have s: "shut z = z\<lparr>cl_state := 0\<rparr>" using True by (simp add: shut_def)
    show ?thesis
    proof (cases "0 < cl_fd z")
      case pos: True
      have "cleanup_client_conn i (length ys) ?p = put_conn i (length ys) (cl_state_update (\<lambda>_. 0)) (cclose (cl_fd z) ?p)"
        using acc(1) pos by (simp add: cleanup_client_conn_def)
      with True pos acc(1) acc2 s show ?thesis by (simp add: shut_state_def cclose_def)
    next
      case neg: False
      have "cleanup_client_conn i (length ys) ?p = put_conn i (length ys) (cl_state_update (\<lambda>_. 0)) ?p"
        using acc(1) neg by (simp add: cleanup_client_conn_def)
      with True neg acc s show ?thesis by (simp add: shut_state_def)
    qed
  next
    case False
    then have "shut z = z" by (simp add: shut_def)
    with False acc(1) show ?thesis by (simp add: shut_state_def)
  qed
qed

lemma shut_loop:
  assumes "has_conns i a (ys @ zs) p"
  shows "for_res (length zs) (length ys) (shut_round i) (shut_state a ys zs p)
    = Inr (0, shut_state a (ys @ zs) [] p)"
  using assms
proof (induction zs arbitrary: ys)
  case (Cons z zs)
  have "has_conns i a (map shut ys @ z # zs) (shut_state a ys (z # zs) p)"
    using Cons.prems by (simp add: has_conns_def shut_state_def)
  from shut_round_step [OF this] Cons.IH [of "ys @ [z]"] Cons.prems show ?case by simp
qed (simp add: shut_state_def)

text \<open>Cleaning up a thread closes its open sockets and frees its array.\<close>

lemma cleanup_client_thread_ok:
  assumes h: "has_conns i a xs p" and n: "length xs = unat (nr_connections (cx_cfg (cx p)))"
    and m: "mem_ok (th_mem (clib p))" "a \<in> allocated (th_mem (clib p))"
  shows "\<exists>m'. cleanup_client_thread i p = Inr (p\<lparr>arrays := (arrays p)(a := None),
      clib := (clib p)\<lparr>th_mem := m', th_closed := th_closed (clib p) @ open_fds xs\<rparr>,
      cx := (cx p)\<lparr>client_threads := (client_threads (cx p))
        [i := (client_threads (cx p) ! i)\<lparr>cs_init := 0\<rparr>]\<rparr>\<rparr>)
    \<and> mem_ok m' \<and> allocated m' = allocated (th_mem (clib p)) - {a}"
proof -
  from heap.release_live [OF m] obtain m' where
    f: "free (Some a) (th_mem (clib p)) = Inr m'" "mem_ok m'"
    "allocated m' = allocated (th_mem (clib p)) - {a}" by blast
  have "shut_state a [] xs p = p"
    using h by (simp add: shut_state_def has_conns_def fun_upd_idem_iff)
  with shut_loop [of i a "[]" xs p] h n have
    "for_res (unat (nr_connections (cx_cfg (cx p)))) 0 (shut_round i) p = Inr (0, shut_state a xs [] p)"
    by simp
  with h f show ?thesis
    by (intro exI [of _ m']) (simp add: cleanup_client_thread_def has_conns_def get_slot_def put_slot_def index_res_ok
        shut_state_def cfree_def)
qed

subsection \<open>Cleaning up the context\<close>

text \<open>What neither the creation nor the cleaning up of threads and connections touches.\<close>

definition same_rest :: "client_proc \<Rightarrow> client_proc \<Rightarrow> bool" where
  "same_rest p p' \<longleftrightarrow> cx_cfg (cx p') = cx_cfg (cx p) \<and> cx_stopping (cx p') = cx_stopping (cx p)
     \<and> start_barrier (cx p') = start_barrier (cx p)
     \<and> infos (clib p') = infos (clib p) \<and> started (clib p') = started (clib p)
     \<and> bar_destroyed p' = bar_destroyed p \<and> bar_waits p' = bar_waits p"

lemma same_rest_refl [simp]: "same_rest p p"
  by (simp add: same_rest_def)

lemma same_rest_trans [trans]: "same_rest p q \<Longrightarrow> same_rest q r \<Longrightarrow> same_rest p r"
  by (simp add: same_rest_def)

lemma cleanup_owned:
  assumes O: "owns A B X as k p" and k: "k < length as"
  obtains p' where "cleanup_client_thread k p = Inr p'" and "owns A B X as (Suc k) p'"
    and "th_closed (clib p') = th_closed (clib p) @ open_fds (X k)"
    and "opened p' = opened p" and "same_rest p p'"
proof -
  note d = ownsD [OF O]
  have kM: "k < MAX_CLIENT_THREADS" using k d(2) by simp
  have dr: "drop k as = as ! k # drop (Suc k) as" using k by (simp add: Cons_nth_drop_Suc)
  have nin: "as ! k \<notin> set (drop (Suc k) as)" using d(7) dr distinct_drop [of as k] by simp
  have Bk: "B (as ! k) = None" using d(8,12) nth_mem [OF k] by blast
  have h: "has_conns k (as ! k) (X k) p"
    using d(1,4,5) k kM by (simp add: has_conns_def)
  have "as ! k \<in> allocated (th_mem (clib p))" using d(10) dr by simp
  from cleanup_client_thread_ok [OF h d(6) [OF order_refl k] d(9) this] obtain m where
    c: "cleanup_client_thread k p = Inr (p\<lparr>arrays := (arrays p)(as ! k := None),
      clib := (clib p)\<lparr>th_mem := m, th_closed := th_closed (clib p) @ open_fds (X k)\<rparr>,
      cx := (cx p)\<lparr>client_threads := (client_threads (cx p))
        [k := (client_threads (cx p) ! k)\<lparr>cs_init := 0\<rparr>]\<rparr>\<rparr>)" (is "_ = Inr ?p'")
    and m: "mem_ok m" "allocated m = allocated (th_mem (clib p)) - {as ! k}" by blast
  have al: "allocated m = A \<union> set (drop (Suc k) as)"
    using m(2) d(8,10) dr nin k by (auto dest: nth_mem)
  have arr: "arrays ?p' (as ! t) = Some (X t)" if "Suc k \<le> t" "t < length as" for t
    using that d(5) [of t] d(7) k by (simp add: nth_eq_iff_index_eq)
  show thesis
  proof (rule that [OF c])
    show "owns A B X as (Suc k) ?p'"
      unfolding owns_def
    proof (intro conjI allI impI)
      show "arrays ?p' a = B a" if "a \<notin> set (drop (Suc k) as)" for a
        using that d(11) [of a] dr Bk by (cases "a = as ! k") auto
    qed (use d arr al m(1) k kM in \<open>auto simp: nth_list_update\<close>)
  qed (simp_all add: same_rest_def)
qed

abbreviation cleanup_round :: "nat \<Rightarrow> client_proc \<Rightarrow> (int \<times> client_proc) res" where
  "cleanup_round \<equiv> (\<lambda>i p. bind_res (get_slot i p) (\<lambda>x.
     if cs_init x \<noteq> 0 then bind_res (cleanup_client_thread i p) (\<lambda>p. Inr (0, p)) else Inr (0, p)))"

lemma cleanup_round_skip:
  assumes "owns A B X as k p" and "length as \<le> t" and "t < MAX_CLIENT_THREADS"
  shows "cleanup_round t p = Inr (0, p)"
  using ownsD(1,3) [OF assms(1)] assms(2,3) by (simp add: get_slot_def index_res_ok)

lemma cleanup_skips:
  assumes "owns A B X as k p" and "length as \<le> t" and "t + n \<le> MAX_CLIENT_THREADS"
  shows "for_res n t cleanup_round p = Inr (0, p)"
  using assms(2,3)
  by (induction n arbitrary: t) (simp_all add: cleanup_round_skip [OF assms(1)])

lemma cleanup_threads:
  assumes "owns A B X as k p" and "k \<le> length as" and "length as \<le> k + n" and "k + n \<le> MAX_CLIENT_THREADS"
  shows "\<exists>p'. for_res n k cleanup_round p = Inr (0, p') \<and> owns A B X as (length as) p'
    \<and> th_closed (clib p') = th_closed (clib p) @ concat (map (\<lambda>t. open_fds (X t)) [k..<length as])
    \<and> opened p' = opened p \<and> same_rest p p'"
  using assms
proof (induction n arbitrary: k p)
  case (Suc n)
  show ?case
  proof (cases "k < length as")
    case True
    obtain p1 where 1: "cleanup_client_thread k p = Inr p1" "owns A B X as (Suc k) p1"
      "th_closed (clib p1) = th_closed (clib p) @ open_fds (X k)" "opened p1 = opened p" "same_rest p p1"
      by (rule cleanup_owned [OF Suc.prems(1) True]) (rule that)
    have "cs_init (client_threads (cx p) ! k) = 1" "k < length (client_threads (cx p))"
      using ownsD(1,2,3) [OF Suc.prems(1)] True by simp_all
    with 1(1) have r: "cleanup_round k p = Inr (0, p1)" by (simp add: get_slot_def index_res_ok)
    from Suc.IH [OF 1(2)] Suc.prems True obtain p' where
      2: "for_res n (Suc k) cleanup_round p1 = Inr (0, p')" "owns A B X as (length as) p'"
      "th_closed (clib p') = th_closed (clib p1) @ concat (map (\<lambda>t. open_fds (X t)) [Suc k..<length as])"
      "opened p' = opened p1" "same_rest p1 p'" by auto
    have "[k..<length as] = k # [Suc k..<length as]" using True by (simp add: upt_conv_Cons)
    with 1 2 r show ?thesis by (auto intro: same_rest_trans)
  next
    case False
    then have k: "k = length as" using Suc.prems(2) by simp
    with cleanup_skips [OF Suc.prems(1), of k "Suc n"] Suc.prems(1,4) show ?thesis by simp
  qed
qed auto

text \<open>
  Cleaning up a context: every open socket of an initialised thread is closed, in order,
  every array and the context are freed, and nothing else.
\<close>

lemma cleanup_client_ok:
  assumes O: "owns A B X as 0 p" and addr: "addr \<in> A" "B addr = None"
    and n: "length as \<le> unat (nr_threads (cx_cfg (cx p)))" "unat (nr_threads (cx_cfg (cx p))) \<le> MAX_CLIENT_THREADS"
  shows "\<exists>p'. cleanup_client addr p = Inr p' \<and> mem_ok (th_mem (clib p'))
    \<and> allocated (th_mem (clib p')) = A - {addr} \<and> arrays p' = B \<and> opened p' = opened p
    \<and> th_closed (clib p') = th_closed (clib p) @ concat (map (\<lambda>t. open_fds (X t)) [0..<length as])
    \<and> infos (clib p') = infos (clib p) \<and> started (clib p') = started (clib p)
    \<and> bar_destroyed p' = bar_destroyed p + (if bar_init (start_barrier (cx p)) = 0 then 0 else 1)
    \<and> bar_waits p' = bar_waits p"
proof -
  let ?p = "if barrier_destroy (start_barrier (cx p)) then p\<lparr>bar_destroyed := bar_destroyed p + 1\<rparr> else p"
  have "owns A B X as 0 ?p" using O by (simp add: owns_def)
  from cleanup_threads [OF this, of "unat (nr_threads (cx_cfg (cx p)))"] n obtain p1 where
    1: "for_res (unat (nr_threads (cx_cfg (cx p)))) 0 cleanup_round ?p = Inr (0, p1)"
    "owns A B X as (length as) p1"
    "th_closed (clib p1) = th_closed (clib p) @ concat (map (\<lambda>t. open_fds (X t)) [0..<length as])"
    "opened p1 = opened p" "same_rest ?p p1" by auto
  note d = ownsD [OF 1(2)]
  have al: "allocated (th_mem (clib p1)) = A" "arrays p1 = B" using d(10,11) by auto
  with addr(1) have "addr \<in> allocated (th_mem (clib p1))" by simp
  from heap.release_live [OF d(9) this] obtain m where
    m: "free (Some addr) (th_mem (clib p1)) = Inr m" "mem_ok m"
    "allocated m = allocated (th_mem (clib p1)) - {addr}" by blast
  let ?p' = "p1\<lparr>clib := (clib p1)\<lparr>th_mem := m\<rparr>, arrays := (arrays p1)(addr := None)\<rparr>"
  have arr: "(arrays p1)(addr := None) = B" using al(2) addr(2) by (simp add: fun_upd_idem)
  have f: "cfree (Some addr) p1 = Inr ?p'" using m(1) by (simp add: cfree_def)
  have c: "cx_cfg (cx ?p) = cx_cfg (cx p)" by simp
  have "cleanup_client addr p = Inr ?p'"
    unfolding cleanup_client_def Let_def c 1(1) bind_res_simps prod.case f ..
  with 1 m al arr show ?thesis
    by (intro exI [of _ ?p']) (auto simp: same_rest_def barrier_destroy_def)
qed

subsection \<open>Opening the connections of a thread\<close>

text \<open>A connection as the start leaves it: open, with all its requests ahead.\<close>

definition fresh_conn :: "client_env \<Rightarrow> client_config_t \<Rightarrow> nat \<Rightarrow> nat \<Rightarrow> client_connection_t" where
  "fresh_conn e c i j = blank_conn\<lparr>cl_state := CONN_OPEN, cl_fd := ce_socket e i j,
     status := blank_status\<lparr>st_total := ucast (nr_requests c)\<rparr>\<rparr>"

definition connects :: "client_env \<Rightarrow> client_config_t \<Rightarrow> nat \<Rightarrow> nat \<Rightarrow> bool" where
  "connects e c i j \<longleftrightarrow> 0 \<le> ce_socket e i j \<and> ce_connect e i j (strncpy 108 (server_path c)) = 0
     \<and> setnonblock (ce_getfl e i j) (ce_setfl e i j) = 0"

abbreviation fresh_conns :: "client_env \<Rightarrow> client_config_t \<Rightarrow> nat \<Rightarrow> nat \<Rightarrow> client_connection_t list" where
  "fresh_conns e c i n \<equiv> map (fresh_conn e c i) [0..<n]"

text \<open>The state when \<open>j\<close> of \<open>n\<close> connections are open.\<close>

definition at_conn ::
  "client_env \<Rightarrow> client_config_t \<Rightarrow> nat \<Rightarrow> nat \<Rightarrow> nat \<Rightarrow> nat \<Rightarrow> client_proc \<Rightarrow> client_proc" where
  "at_conn e c i a n j p = p\<lparr>
     arrays := (arrays p)(a \<mapsto> fresh_conns e c i j @ replicate (n - j) blank_conn),
     opened := opened p @ map (ce_socket e i) [0..<j]\<rparr>"

text \<open>The state when connection \<open>l\<close> failed, after its socket (\<open>os\<close>) was closed again.\<close>

definition failed_at ::
  "client_env \<Rightarrow> client_config_t \<Rightarrow> nat \<Rightarrow> nat \<Rightarrow> nat \<Rightarrow> nat \<Rightarrow> int list \<Rightarrow> client_proc \<Rightarrow> client_proc" where
  "failed_at e c i a n l os p = p\<lparr>
     arrays := (arrays p)(a \<mapsto> fresh_conns e c i l @ blank_conn\<lparr>cl_fd := ce_socket e i l\<rparr>
       # replicate (n - Suc l) blank_conn),
     opened := opened p @ map (ce_socket e i) [0..<l] @ os,
     clib := (clib p)\<lparr>th_closed := th_closed (clib p) @ os\<rparr>\<rparr>"

lemma at_conn_conns:
  "i < length (client_threads (cx p)) \<Longrightarrow> cs_conns (client_threads (cx p) ! i) = Some a
    \<Longrightarrow> has_conns i a (fresh_conns e c i j @ replicate (n - j) blank_conn) (at_conn e c i a n j p)"
  by (simp add: has_conns_def at_conn_def)

lemma fresh_conns_upd:
  "j < n \<Longrightarrow> (fresh_conns e c i j @ replicate (n - j) blank_conn)[j := y]
    = fresh_conns e c i j @ y # replicate (n - Suc j) blank_conn"
  by (simp add: list_update_append Suc_diff_Suc [symmetric])

lemma fresh_conns_nth:
  "j < n \<Longrightarrow> (fresh_conns e c i j @ replicate (n - j) blank_conn) ! j = blank_conn"
  by (simp add: nth_append)

lemma init_client_conn_step:
  assumes i: "i < length (client_threads (cx p))" "cs_conns (client_threads (cx p) ! i) = Some a"
    and c: "cx_cfg (cx p) = c" and j: "j < n"
  shows "connects e c i j \<Longrightarrow> init_client_conn e i j (at_conn e c i a n j p) = Inr (0, at_conn e c i a n (Suc j) p)"
    and "\<not> connects e c i j \<Longrightarrow> \<exists>os. init_client_conn e i j (at_conn e c i a n j p) = Inr (-1, failed_at e c i a n j os p)"
proof -
  let ?sock = "ce_socket e i j" and ?p = "at_conn e c i a n j p"
  let ?q = "if ?sock < 0 then ?p else ?p\<lparr>opened := opened ?p @ [?sock]\<rparr>"
  let ?xs = "fresh_conns e c i j @ blank_conn\<lparr>cl_fd := ?sock\<rparr> # replicate (n - Suc j) blank_conn"
  let ?q1 = "?q\<lparr>arrays := (arrays p)(a \<mapsto> ?xs)\<rparr>"
  have h: "has_conns i a (fresh_conns e c i j @ replicate (n - j) blank_conn) ?q"
    using at_conn_conns [OF i] by simp
  have "put_conn i j (cl_fd_update (\<lambda>_. ?sock)) ?q
      = Inr (?q\<lparr>arrays := (arrays ?q)(a \<mapsto> ?xs)\<rparr>)"
    using has_conns_access(4) [OF h, of j] j by (simp add: fresh_conns_upd fresh_conns_nth)
  then have put: "put_conn i j (cl_fd_update (\<lambda>_. ?sock)) ?q = Inr ?q1"
    by (simp add: at_conn_def)
  have cfg: "cx_cfg (cx ?q1) = c" using c by (simp add: at_conn_def)
  let ?open = "\<lambda>x. x\<lparr>cl_state := CONN_OPEN, status := (status x)\<lparr>st_total := ucast (nr_requests c)\<rparr>\<rparr>"
  have run: "init_client_conn e i j ?p = (if ?sock < 0 then Inr (-1, ?q1)
      else if ce_connect e i j (strncpy 108 (server_path c)) \<noteq> 0 then Inr (-1, cclose ?sock ?q1)
      else if setnonblock (ce_getfl e i j) (ce_setfl e i j) \<noteq> 0 then Inr (-1, cclose ?sock ?q1)
      else bind_res (put_conn i j ?open ?q1) (\<lambda>p. Inr (0, p)))"
    unfolding init_client_conn_def Let_def put bind_res_simps cfg ..
  have q1: "?q1 = p\<lparr>arrays := (arrays p)(a \<mapsto> ?xs), opened := opened p @ map (ce_socket e i) [0..<j]
      @ (if ?sock < 0 then [] else [?sock])\<rparr>"
    by (simp add: at_conn_def)
  have h1: "has_conns i a ?xs ?q1" unfolding q1 using i by (simp add: has_conns_def)
  have "?xs ! j = blank_conn\<lparr>cl_fd := ?sock\<rparr>" by (simp add: nth_append)
  moreover have "?xs[j := y] = fresh_conns e c i j @ y # replicate (n - Suc j) blank_conn" for y
    using list_update_length [of "fresh_conns e c i j" "blank_conn\<lparr>cl_fd := ?sock\<rparr>"] by simp
  ultimately have opn: "put_conn i j ?open ?q1
      = Inr (?q1\<lparr>arrays := (arrays ?q1)(a \<mapsto> fresh_conns e c i j @ fresh_conn e c i j
          # replicate (n - Suc j) blank_conn)\<rparr>)"
    using has_conns_access(4) [OF h1, of j] by (simp add: fresh_conn_def blank_conn_def)
  show "init_client_conn e i j ?p = Inr (0, at_conn e c i a n (Suc j) p)" if g: "connects e c i j"
    using g run opn unfolding q1 by (simp add: connects_def at_conn_def)
  show "\<exists>os. init_client_conn e i j ?p = Inr (-1, failed_at e c i a n j os p)" if b: "\<not> connects e c i j"
  proof (cases "?sock < 0")
    case True
    with run show ?thesis unfolding q1 by (intro exI [of _ "[]"]) (simp add: failed_at_def)
  next
    case False
    with run b show ?thesis unfolding q1
      by (intro exI [of _ "[?sock]"]) (simp add: connects_def cclose_def failed_at_def)
  qed
qed

text \<open>The loop over the connections of a thread opens all of them, or fails at some \<open>l\<close>.\<close>

lemma init_conns_loop:
  assumes i: "i < length (client_threads (cx p))" "cs_conns (client_threads (cx p) ! i) = Some a"
    and c: "cx_cfg (cx p) = c" and "j + k = n"
  shows "for_res k j (init_client_conn e i) (at_conn e c i a n j p) = Inr (0, at_conn e c i a n n p)
      \<and> (\<forall>l. j \<le> l \<longrightarrow> l < n \<longrightarrow> connects e c i l)
    \<or> (\<exists>l os. j \<le> l \<and> l < n \<and> \<not> connects e c i l
      \<and> for_res k j (init_client_conn e i) (at_conn e c i a n j p) = Inr (-1, failed_at e c i a n l os p)
      \<and> (\<forall>m < l. j \<le> m \<longrightarrow> connects e c i m))"
  using \<open>j + k = n\<close>
proof (induction k arbitrary: j)
  case (Suc k)
  then have j: "j < n" by simp
  note step = init_client_conn_step [OF i c j, of e]
  show ?case
  proof (cases "connects e c i j")
    case True
    have all: "\<forall>m < l. j \<le> m \<longrightarrow> connects e c i m" if "\<forall>m < l. Suc j \<le> m \<longrightarrow> connects e c i m" for l
      using that True by (metis Suc_leI le_neq_implies_less)
    have run: "for_res (Suc k) j (init_client_conn e i) (at_conn e c i a n j p)
        = for_res k (Suc j) (init_client_conn e i) (at_conn e c i a n (Suc j) p)"
      using step(1) [OF True] by simp
    have "Suc j + k = n" using Suc.prems by simp
    from Suc.IH [OF this] show ?thesis
    proof (elim disjE exE conjE)
      assume "for_res k (Suc j) (init_client_conn e i) (at_conn e c i a n (Suc j) p) = Inr (0, at_conn e c i a n n p)"
        and "\<forall>l. Suc j \<le> l \<longrightarrow> l < n \<longrightarrow> connects e c i l"
      with run all [of n] show ?thesis by auto
    next
      fix l os assume *: "Suc j \<le> l" "l < n" "\<not> connects e c i l" "\<forall>m < l. Suc j \<le> m \<longrightarrow> connects e c i m"
        "for_res k (Suc j) (init_client_conn e i) (at_conn e c i a n (Suc j) p) = Inr (-1, failed_at e c i a n l os p)"
      show ?thesis
        by (intro disjI2 exI [of _ l] exI [of _ os]) (use * run all [OF *(4)] in simp)
    qed
  next
    case False
    from step(2) [OF this] obtain os where "init_client_conn e i j (at_conn e c i a n j p) = Inr (-1, failed_at e c i a n j os p)" by blast
    with False j show ?thesis by (intro disjI2 exI [of _ j] exI [of _ os]) simp
  qed
qed simp

subsection \<open>Initialising a thread\<close>

lemma mset_fresh:
  "(\<And>j. ce_socket e i j \<noteq> 0) \<Longrightarrow> (\<And>j. j < l \<Longrightarrow> connects e c i j)
    \<Longrightarrow> open_fds (fresh_conns e c i l) = map (ce_socket e i) [0..<l]"
proof (induction l)
  case (Suc l)
  have "0 < ce_socket e i l"
    using Suc.prems(1) [of l] Suc.prems(2) [of l] by (auto simp: connects_def order_less_le)
  with Suc show ?case by (simp add: fresh_conn_def)
qed simp

lemma open_fds_blank [simp]:
  "open_fds (replicate n blank_conn) = []" "cl_state blank_conn \<noteq> CONN_OPEN"
  by (simp_all add: open_fds_def blank_conn_def CONN_OPEN_def)

text \<open>A context whose initialisation is under way, before its \<open>length as\<close>th thread.\<close>

definition takes_slot :: "nat set \<Rightarrow> nat list \<Rightarrow> nat \<Rightarrow> client_proc \<Rightarrow> client_proc \<Rightarrow> bool" where
  "takes_slot A as a p p1 \<longleftrightarrow>
     (\<exists>m. p1 = p\<lparr>clib := (clib p)\<lparr>th_mem := m\<rparr>,
        cx := (cx p)\<lparr>client_threads := (client_threads (cx p))
          [length as := (client_threads (cx p) ! length as)\<lparr>cs_conns := Some a\<rparr>]\<rparr>\<rparr>
      \<and> mem_ok m \<and> a \<notin> A \<and> a \<notin> set as \<and> allocated m = A \<union> set as \<union> {a})"

lemma takes_slotD:
  assumes "takes_slot A as a p p1"
  shows "cx_cfg (cx p1) = cx_cfg (cx p)" "arrays p1 = arrays p" "opened p1 = opened p"
    "th_closed (clib p1) = th_closed (clib p)" "same_rest p p1" "mem_ok (th_mem (clib p1))"
    "a \<notin> A" "a \<notin> set as" "allocated (th_mem (clib p1)) = A \<union> set as \<union> {a}"
    "client_threads (cx p1) = (client_threads (cx p))
      [length as := (client_threads (cx p) ! length as)\<lparr>cs_conns := Some a\<rparr>]"
proof -
  from assms obtain m where
    p1: "p1 = p\<lparr>clib := (clib p)\<lparr>th_mem := m\<rparr>,
        cx := (cx p)\<lparr>client_threads := (client_threads (cx p))
          [length as := (client_threads (cx p) ! length as)\<lparr>cs_conns := Some a\<rparr>]\<rparr>\<rparr>"
    and m: "mem_ok m" "a \<notin> A" "a \<notin> set as" "allocated m = A \<union> set as \<union> {a}"
    unfolding takes_slot_def by blast
  show "a \<notin> A" "a \<notin> set as" by (rule m)+
  show "cx_cfg (cx p1) = cx_cfg (cx p)" "arrays p1 = arrays p" "opened p1 = opened p"
    "th_closed (clib p1) = th_closed (clib p)" "same_rest p p1" "mem_ok (th_mem (clib p1))"
    "allocated (th_mem (clib p1)) = A \<union> set as \<union> {a}"
    "client_threads (cx p1) = (client_threads (cx p))
      [length as := (client_threads (cx p) ! length as)\<lparr>cs_conns := Some a\<rparr>]"
    unfolding p1 using m by (simp_all add: same_rest_def)
qed

text \<open>A thread that was initialised extends the context by one.\<close>

lemma owns_extend:
  assumes O: "owns A B X as 0 p" and t: "takes_slot A as a p p1" and k: "length as < MAX_CLIENT_THREADS"
    and x: "length xs = unat (nr_connections (cx_cfg (cx p)))"
  shows "owns A B (X(length as := xs)) (as @ [a]) 0 (p1\<lparr>arrays := (arrays p1)(a \<mapsto> xs),
    cx := (cx p1)\<lparr>client_threads := (client_threads (cx p1))
      [length as := (client_threads (cx p1) ! length as)\<lparr>cs_init := 1\<rparr>]\<rparr>\<rparr>)" (is "owns A B _ _ 0 ?q")
proof -
  note d = ownsD [OF O] and e = takes_slotD [OF t]
  have arr: "arrays ?q ((as @ [a]) ! t) = Some ((X(length as := xs)) t)" if "t < length (as @ [a])" for t
    using that d(5) [of t] e(2,8) by (auto simp: nth_append dest: nth_mem)
  have slot: "client_threads (cx ?q) ! t = (if t = length as
      then (client_threads (cx p) ! t)\<lparr>cs_conns := Some a, cs_init := 1\<rparr> else client_threads (cx p) ! t)"
    if "t < MAX_CLIENT_THREADS" for t
    using that d(1) k e(10) by (simp add: nth_list_update)
  have init: "cs_init (client_threads (cx ?q) ! t) = (if 0 \<le> t \<and> t < length (as @ [a]) then 1 else 0)"
    if "t < MAX_CLIENT_THREADS" for t
    using that slot [OF that] d(3) [OF that] by auto
  have conns: "cs_conns (client_threads (cx ?q) ! t) = Some ((as @ [a]) ! t)" if "t < length (as @ [a])" for t
    using that slot [of t] d(4) [of t] k by (auto simp: nth_append)
  have len: "length (client_threads (cx ?q)) = MAX_CLIENT_THREADS" using d(1) e(10) by simp
  have "length ((X(length as := xs)) t) = unat (nr_connections (cx_cfg (cx ?q)))" if "t < length (as @ [a])" for t
    using that d(6) [of t] x e(1) by auto
  moreover have "arrays ?q b = B b" if "b \<notin> set (drop 0 (as @ [a]))" for b
    using that d(11) [of b] e(2) by simp
  moreover have "allocated (th_mem (clib ?q)) = A \<union> set (drop 0 (as @ [a]))" using e(9) by simp
  moreover have "distinct (as @ [a])" "set (as @ [a]) \<inter> A = {}" using d(7,8) e(7,8) by simp_all
  moreover have "length (as @ [a]) \<le> MAX_CLIENT_THREADS" using k by simp
  moreover have "mem_ok (th_mem (clib ?q))" using e(6) by simp
  ultimately show ?thesis
    unfolding owns_def using arr init conns len d(12) by blast
qed

text \<open>A slot behind the last initialised thread may change, as long as it is marked empty.\<close>

lemma owns_other:
  assumes O: "owns A B X as 0 p" and cfg: "cx_cfg (cx p') = cx_cfg (cx p)"
    and sl: "client_threads (cx p') = (client_threads (cx p))[length as := s]" and s: "cs_init s = 0"
    and arr: "arrays p' = arrays p"
    and m: "mem_ok (th_mem (clib p'))" "allocated (th_mem (clib p')) = allocated (th_mem (clib p))"
  shows "owns A B X as 0 p'"
proof -
  note d = ownsD [OF O]
  have "cs_init (client_threads (cx p') ! t) = (if 0 \<le> t \<and> t < length as then 1 else 0)"
    if "t < MAX_CLIENT_THREADS" for t
    using that d(1) d(3) [OF that] s by (simp add: sl nth_list_update)
  moreover have "client_threads (cx p') ! t = client_threads (cx p) ! t" if "t < length as" for t
    using that by (simp add: sl)
  ultimately show ?thesis
    unfolding owns_def using d m arr cfg sl by (simp del: drop_0)
qed

lemma calloc_cases:
  assumes "mem_ok (th_mem (clib p))"
  obtains m where "calloc e p = (None, p\<lparr>clib := (clib p)\<lparr>th_mem := m\<rparr>\<rparr>)" "mem_ok m"
      "allocated m = allocated (th_mem (clib p))"
    | a m where "calloc e p = (Some a, p\<lparr>clib := (clib p)\<lparr>th_mem := m\<rparr>\<rparr>)" "mem_ok m"
      "a \<notin> allocated (th_mem (clib p))" "allocated m = insert a (allocated (th_mem (clib p)))"
proof -
  obtain r m where c: "alloc (mem_av (ce_threads e)) (th_mem (clib p)) = (r, m)" by fastforce
  show thesis
  proof (cases r)
    case None
    with heap.new_none [OF assms] c that(1) [of m] show thesis by (simp add: calloc_def)
  next
    case (Some a)
    with heap.new_some [OF assms] c that(2) [of a m] show thesis by (simp add: calloc_def)
  qed
qed

text \<open>What \<open>init_client_thread\<close> does of its slot before it opens connections.\<close>

lemma init_client_thread_split:
  assumes c: "calloc e p = (Some a, p\<lparr>clib := (clib p)\<lparr>th_mem := m\<rparr>\<rparr>)"
    and k: "i < length (client_threads (cx p))" and n: "n = unat (nr_connections (cx_cfg (cx p)))"
    and cfg: "cx_cfg (cx p) = c0"
  defines "p1 \<equiv> p\<lparr>clib := (clib p)\<lparr>th_mem := m\<rparr>,
      cx := (cx p)\<lparr>client_threads := (client_threads (cx p))
        [i := (client_threads (cx p) ! i)\<lparr>cs_conns := Some a\<rparr>]\<rparr>\<rparr>"
  shows "init_client_thread e i p
    = bind_res (for_res n 0 (init_client_conn e i) (at_conn e c0 i a n 0 p1)) (\<lambda>(r, p).
        if r \<noteq> 0 then bind_res (cleanup_client_thread i p) (\<lambda>p. Inr (-1, p))
        else bind_res (put_slot i (cs_init_update (\<lambda>_. 1)) p) (\<lambda>p. Inr (0, p)))"
  using c k
  by (simp add: init_client_thread_def Let_def put_slot_def get_slot_def index_res_ok at_conn_def n p1_def)

lemma init_client_thread_fails:
  assumes O: "owns A B X as 0 p" and t: "takes_slot A as a p p1" and k: "length as < MAX_CLIENT_THREADS"
    and n: "n = unat (nr_connections (cx_cfg (cx p)))"
    and s: "\<And>j. ce_socket e (length as) j \<noteq> 0" and l: "l < n" "\<And>j. j < l \<Longrightarrow> connects e c (length as) j"
  shows "\<exists>p' xs ys. cleanup_client_thread (length as) (failed_at e c (length as) a n l os p1) = Inr p'
    \<and> owns A B X as 0 p' \<and> same_rest p p' \<and> opened p' = opened p @ xs
    \<and> th_closed (clib p') = th_closed (clib p) @ ys \<and> mset xs = mset ys"
proof -
  note d = ownsD [OF O] and e = takes_slotD [OF t]
  let ?q = "failed_at e c (length as) a n l os p1"
  let ?xs = "fresh_conns e c (length as) l @ blank_conn\<lparr>cl_fd := ce_socket e (length as) l\<rparr>
      # replicate (n - Suc l) blank_conn"
  have h: "has_conns (length as) a ?xs ?q" using d(1) k e(10) by (simp add: has_conns_def failed_at_def)
  have len: "length ?xs = unat (nr_connections (cx_cfg (cx ?q)))" using l(1) n e(1) by (simp add: failed_at_def)
  have mem: "mem_ok (th_mem (clib ?q))" "a \<in> allocated (th_mem (clib ?q))"
    using e(6,9) by (simp_all add: failed_at_def)
  from cleanup_client_thread_ok [OF h len mem] obtain m' where
    c: "cleanup_client_thread (length as) ?q = Inr (?q\<lparr>arrays := (arrays ?q)(a := None),
      clib := (clib ?q)\<lparr>th_mem := m', th_closed := th_closed (clib ?q) @ open_fds ?xs\<rparr>,
      cx := (cx ?q)\<lparr>client_threads := (client_threads (cx ?q))
        [length as := (client_threads (cx ?q) ! length as)\<lparr>cs_init := 0\<rparr>]\<rparr>\<rparr>)" (is "_ = Inr ?p'")
    and m: "mem_ok m'" "allocated m' = allocated (th_mem (clib ?q)) - {a}" by blast
  have fds: "open_fds ?xs = map (ce_socket e (length as)) [0..<l]"
    using mset_fresh [of e "length as" l c, OF s l(2)] by simp
  have arrB: "arrays p a = None" using d(8,10-12) e(7,8) by (auto simp: domIff subset_iff)
  have rest: "opened ?p' = opened p @ map (ce_socket e (length as)) [0..<l] @ os"
    "th_closed (clib ?p') = th_closed (clib p) @ os @ map (ce_socket e (length as)) [0..<l]"
    "same_rest p ?p'" "cx_cfg (cx ?p') = cx_cfg (cx p)"
    using e(1,3,4,5) fds by (simp_all add: failed_at_def same_rest_def)
  have "owns A B X as 0 ?p'"
  proof (rule owns_other [OF O rest(4)])
    show "client_threads (cx ?p') = (client_threads (cx p))[length as :=
        (client_threads (cx p) ! length as)\<lparr>cs_conns := Some a, cs_init := 0\<rparr>]"
      using d(1) k e(10) by (simp add: failed_at_def)
    show "arrays ?p' = arrays p" using e(2) arrB by (auto simp: failed_at_def fun_eq_iff)
    show "allocated (th_mem (clib ?p')) = allocated (th_mem (clib p))"
      using m(2) e(7-9) d(10) by (auto simp: failed_at_def)
  qed (use m(1) in simp_all)
  with c rest show ?thesis by auto
qed

text \<open>The two ways \<open>init_client_thread\<close> ends.\<close>

definition balanced :: "client_proc \<Rightarrow> client_proc \<Rightarrow> int list \<Rightarrow> bool" where
  "balanced p p' fds \<longleftrightarrow> (\<exists>xs ys. opened p' = opened p @ xs
     \<and> th_closed (clib p') = th_closed (clib p) @ ys \<and> mset xs = mset ys + mset fds)"

lemma balanced_trans:
  "balanced p q xs \<Longrightarrow> balanced q r ys \<Longrightarrow> balanced p r (xs @ ys)"
  unfolding balanced_def by (elim exE conjE) (auto simp: ac_simps)

lemma init_client_thread_ok:
  assumes O: "owns A B X as 0 p" and k: "length as < MAX_CLIENT_THREADS" and c: "cx_cfg (cx p) = c"
    and n: "n = unat (nr_connections c)" and s: "\<And>j. ce_socket e (length as) j \<noteq> 0"
  shows "\<exists>r p'. init_client_thread e (length as) p = Inr (r, p') \<and> same_rest p p'
    \<and> (if r = 0 then (\<exists>a. owns A B (X(length as := fresh_conns e c (length as) n)) (as @ [a]) 0 p')
          \<and> opened p' = opened p @ map (ce_socket e (length as)) [0..<n]
          \<and> th_closed (clib p') = th_closed (clib p) \<and> (\<forall>j < n. connects e c (length as) j)
       else owns A B X as 0 p' \<and> balanced p p' [])"
proof -
  note d = ownsD [OF O]
  have kl: "length as < length (client_threads (cx p))" using d(1) k by simp
  let ?i = "length as"
  show ?thesis
  proof (rule calloc_cases [OF d(9), of e])
    fix m assume m: "calloc e p = (None, p\<lparr>clib := (clib p)\<lparr>th_mem := m\<rparr>\<rparr>)" "mem_ok m"
      "allocated m = allocated (th_mem (clib p))"
    let ?s = "(client_threads (cx p) ! ?i)\<lparr>cs_conns := None\<rparr>"
    let ?p' = "p\<lparr>clib := (clib p)\<lparr>th_mem := m\<rparr>,
      cx := (cx p)\<lparr>client_threads := (client_threads (cx p))[?i := ?s]\<rparr>\<rparr>"
    have "cs_init ?s = 0" using d(3) [OF k] by simp
    from owns_other [OF O _ _ this, of ?p'] m(2,3) have "owns A B X as 0 ?p'" by simp
    moreover have "init_client_thread e ?i p = Inr (-1, ?p')"
      using m(1) kl by (simp add: init_client_thread_def put_slot_def get_slot_def index_res_ok)
    ultimately show ?thesis
      by (intro exI [of _ "-1"] exI [of _ ?p']) (simp add: same_rest_def balanced_def)
  next
    fix a m assume m: "calloc e p = (Some a, p\<lparr>clib := (clib p)\<lparr>th_mem := m\<rparr>\<rparr>)" "mem_ok m"
      "a \<notin> allocated (th_mem (clib p))" "allocated m = insert a (allocated (th_mem (clib p)))"
    let ?p1 = "p\<lparr>clib := (clib p)\<lparr>th_mem := m\<rparr>,
      cx := (cx p)\<lparr>client_threads := (client_threads (cx p))
        [?i := (client_threads (cx p) ! ?i)\<lparr>cs_conns := Some a\<rparr>]\<rparr>\<rparr>"
    have n': "n = unat (nr_connections (cx_cfg (cx p)))" using n c by simp
    note split = init_client_thread_split [OF m(1) kl n' c]
    have t: "takes_slot A as a p ?p1"
      unfolding takes_slot_def by (rule exI [of _ m]) (use m d(10) in auto)
    have sl: "?i < length (client_threads (cx ?p1))" "cs_conns (client_threads (cx ?p1) ! ?i) = Some a"
      "cx_cfg (cx ?p1) = c" using kl c by simp_all
    from init_conns_loop [OF sl add_0, of n e] show ?thesis
    proof (elim disjE exE conjE)
      assume l: "for_res n 0 (init_client_conn e ?i) (at_conn e c ?i a n 0 ?p1) = Inr (0, at_conn e c ?i a n n ?p1)"
        and g: "\<forall>l. 0 \<le> l \<longrightarrow> l < n \<longrightarrow> connects e c ?i l"
      let ?q = "at_conn e c ?i a n n ?p1"
      let ?p' = "?q\<lparr>cx := (cx ?q)\<lparr>client_threads := (client_threads (cx ?q))
        [?i := (client_threads (cx ?q) ! ?i)\<lparr>cs_init := 1\<rparr>]\<rparr>\<rparr>"
      have "put_slot ?i (cs_init_update (\<lambda>_. 1)) ?q = Inr ?p'"
        using kl by (simp add: put_slot_def get_slot_def index_res_ok at_conn_def)
      with split l have r: "init_client_thread e ?i p = Inr (0, ?p')" by simp
      let ?r = "?p1\<lparr>arrays := (arrays ?p1)(a \<mapsto> fresh_conns e c ?i n),
        cx := (cx ?p1)\<lparr>client_threads := (client_threads (cx ?p1))
          [?i := (client_threads (cx ?p1) ! ?i)\<lparr>cs_init := 1\<rparr>]\<rparr>\<rparr>"
      have "owns A B (X(?i := fresh_conns e c ?i n)) (as @ [a]) 0 ?r"
        by (rule owns_extend [OF O t k]) (simp add: n')
      moreover have "?p' = ?r\<lparr>opened := opened p @ map (ce_socket e ?i) [0..<n]\<rparr>"
        by (simp add: at_conn_def)
      ultimately have "owns A B (X(?i := fresh_conns e c ?i n)) (as @ [a]) 0 ?p'"
        by (simp only: owns_opened)
      moreover have "opened ?p' = opened p @ map (ce_socket e ?i) [0..<n]"
        "th_closed (clib ?p') = th_closed (clib p)" "same_rest p ?p'"
        by (simp_all add: at_conn_def same_rest_def)
      ultimately show ?thesis using r g by (intro exI [of _ 0] exI [of _ ?p']) auto
    next
      fix l os assume l: "0 \<le> l" "l < n" "\<forall>m < l. 0 \<le> m \<longrightarrow> connects e c ?i m"
        "for_res n 0 (init_client_conn e ?i) (at_conn e c ?i a n 0 ?p1) = Inr (-1, failed_at e c ?i a n l os ?p1)"
      have "\<And>j. j < l \<Longrightarrow> connects e c ?i j" using l(3) by simp
      from init_client_thread_fails [OF O t k n' s l(2) this, of os] obtain p' xs ys where
        f: "cleanup_client_thread ?i (failed_at e c ?i a n l os ?p1) = Inr p'" "owns A B X as 0 p'"
        "same_rest p p'" "opened p' = opened p @ xs" "th_closed (clib p') = th_closed (clib p) @ ys"
        "mset xs = mset ys" by blast
      from split l(4) f(1) have "init_client_thread e ?i p = Inr (-1, p')" by simp
      moreover have "balanced p p' []" using f(4-6) by (auto simp: balanced_def)
      ultimately show ?thesis using f(2,3) by (intro exI [of _ "-1"] exI [of _ p']) simp
    qed
  qed
qed

subsection \<open>Initialising the context\<close>

text \<open>The sockets of the threads \<open>k\<close> to \<open>l - 1\<close>, each with \<open>n\<close> connections.\<close>

definition sockets :: "client_env \<Rightarrow> nat \<Rightarrow> nat \<Rightarrow> nat \<Rightarrow> int list" where
  "sockets e n k l = concat (map (\<lambda>t. map (ce_socket e t) [0..<n]) [k..<l])"

lemma sockets_simps [simp]: "sockets e n k k = []"
  by (simp add: sockets_def)

lemma sockets_Cons: "k < l \<Longrightarrow> sockets e n k l = map (ce_socket e k) [0..<n] @ sockets e n (Suc k) l"
  by (simp add: sockets_def upt_conv_Cons)

definition conns_of :: "client_config_t \<Rightarrow> nat" where
  "conns_of c = unat (nr_connections c)"

abbreviation all_fresh :: "client_env \<Rightarrow> client_config_t \<Rightarrow> nat \<Rightarrow> client_connection_t list" where
  "all_fresh e c \<equiv> (\<lambda>t. fresh_conns e c t (conns_of c))"

lemma init_threads_loop:
  assumes O: "owns A B (all_fresh e c) as 0 p" and k: "length as + k \<le> MAX_CLIENT_THREADS"
    and c: "cx_cfg (cx p) = c" and s: "\<And>i j. ce_socket e i j \<noteq> 0"
  shows "\<exists>r p' bs. for_res k (length as) (init_client_thread e) p = Inr (r, p') \<and> same_rest p p'
    \<and> owns A B (all_fresh e c) bs 0 p' \<and> length as \<le> length bs \<and> length bs \<le> length as + k
    \<and> balanced p p' (sockets e (conns_of c) (length as) (length bs))
    \<and> (\<forall>t. length as \<le> t \<longrightarrow> t < length bs \<longrightarrow> (\<forall>j < conns_of c. connects e c t j))
    \<and> (r = 0 \<longrightarrow> length bs = length as + k \<and> th_closed (clib p') = th_closed (clib p)
        \<and> opened p' = opened p @ sockets e (conns_of c) (length as) (length as + k))"
  using O k c
proof (induction k arbitrary: as p)
  case 0
  then show ?case by (auto simp: balanced_def)
next
  case (Suc k)
  have triv: "(all_fresh e c)(length as := fresh_conns e c (length as) (conns_of c)) = all_fresh e c"
    by (simp add: fun_eq_iff)
  have "length as < MAX_CLIENT_THREADS" using Suc.prems(2) by simp
  from init_client_thread_ok [OF Suc.prems(1) this Suc.prems(3) conns_of_def s] obtain r p1 where
    1: "init_client_thread e (length as) p = Inr (r, p1)" "same_rest p p1"
    and r: "if r = 0 then (\<exists>a. owns A B (all_fresh e c) (as @ [a]) 0 p1)
          \<and> opened p1 = opened p @ map (ce_socket e (length as)) [0..<conns_of c]
          \<and> th_closed (clib p1) = th_closed (clib p) \<and> (\<forall>j < conns_of c. connects e c (length as) j)
       else owns A B (all_fresh e c) as 0 p1 \<and> balanced p p1 []"
    unfolding triv by blast
  show ?case
  proof (cases "r = 0")
    case True
    with r obtain a where a: "owns A B (all_fresh e c) (as @ [a]) 0 p1"
      "opened p1 = opened p @ map (ce_socket e (length as)) [0..<conns_of c]"
      "th_closed (clib p1) = th_closed (clib p)" "\<forall>j < conns_of c. connects e c (length as) j" by auto
    have bal: "balanced p p1 (map (ce_socket e (length as)) [0..<conns_of c])"
      using a(2,3) by (simp add: balanced_def)
    have "length (as @ [a]) + k \<le> MAX_CLIENT_THREADS" "cx_cfg (cx p1) = c"
      using Suc.prems(2,3) 1(2) by (simp_all add: same_rest_def)
    from Suc.IH [OF a(1) this] obtain r' p' bs where
      2: "for_res k (Suc (length as)) (init_client_thread e) p1 = Inr (r', p')" "same_rest p1 p'"
        "owns A B (all_fresh e c) bs 0 p'" "Suc (length as) \<le> length bs" "length bs \<le> Suc (length as + k)"
        "balanced p1 p' (sockets e (conns_of c) (Suc (length as)) (length bs))"
      and g: "\<forall>t. Suc (length as) \<le> t \<longrightarrow> t < length bs \<longrightarrow> (\<forall>j < conns_of c. connects e c t j)"
      and z: "r' = 0 \<longrightarrow> length bs = Suc (length as + k) \<and> th_closed (clib p') = th_closed (clib p1)
        \<and> opened p' = opened p1 @ sockets e (conns_of c) (Suc (length as)) (Suc (length as + k))"
      by auto
    have "balanced p p' (sockets e (conns_of c) (length as) (length bs))"
      using balanced_trans [OF bal 2(6)] 2(4) by (simp add: sockets_Cons)
    moreover have "connects e c t j" if "length as \<le> t" "t < length bs" "j < conns_of c" for t j
      using that g a(4) by (cases "t = length as") auto
    moreover have "for_res (Suc k) (length as) (init_client_thread e) p = Inr (r', p')"
      using 1(1) True 2(1) by simp
    moreover have "r' = 0 \<longrightarrow> opened p' = opened p @ sockets e (conns_of c) (length as) (Suc (length as + k))"
      using z a(2) by (simp add: sockets_Cons)
    ultimately show ?thesis
      using 2(2-5) z a(3) same_rest_trans [OF 1(2) 2(2)]
      by (intro exI [of _ r'] exI [of _ p'] exI [of _ bs]) simp
  next
    case False
    with 1 r Suc.prems show ?thesis
      by (intro exI [of _ r] exI [of _ p1] exI [of _ as]) simp
  qed
qed

end
