(* ===== verification/Client_Run.thy ===== *)
theory Client_Run
  imports Client_Start
begin

section \<open>Properties of the client program\<close>

subsection \<open>Creation\<close>

definition proc_ok :: "client_proc \<Rightarrow> bool" where
  "proc_ok p \<longleftrightarrow> mem_ok (th_mem (clib p)) \<and> dom (arrays p) \<subseteq> allocated (th_mem (clib p))"

text \<open>A new context: all slots empty.\<close>

lemma blank_owns:
  assumes "proc_ok p" and "mem_ok m" and "allocated m = insert addr (allocated (th_mem (clib p)))"
  shows "owns (insert addr (allocated (th_mem (clib p)))) (arrays p) X [] 0
    (p\<lparr>clib := (clib p)\<lparr>th_mem := m\<rparr>, cx := blank_client c\<rparr>)"
  using assms by (auto simp: owns_def blank_client_def proc_ok_def)

lemma owns_get_conn:
  assumes "owns A B X as 0 p" and "i < length as" and "j < length (X i)"
  shows "get_conn i j p = Inr (X i ! j)"
proof -
  note d = ownsD [OF assms(1)]
  have "has_conns i (as ! i) (X i) p"
    using d(1,2) d(4) [of i] d(5) [of i] assms(2) by (simp add: has_conns_def)
  from has_conns_access(3) [OF this assms(3)] show ?thesis .
qed

text \<open>What the failure of a creation leaves, and what a context holds that was created.\<close>

definition nothing_taken :: "client_proc \<Rightarrow> client_proc \<Rightarrow> bool" where
  "nothing_taken p p' \<longleftrightarrow> allocated (th_mem (clib p')) = allocated (th_mem (clib p))
     \<and> arrays p' = arrays p \<and> infos (clib p') = infos (clib p) \<and> started (clib p') = started (clib p)
     \<and> (\<exists>xs ys. opened p' = opened p @ xs \<and> th_closed (clib p') = th_closed (clib p) @ ys
          \<and> mset xs = mset ys)"

definition all_open :: "client_env \<Rightarrow> client_config_t \<Rightarrow> client_proc \<Rightarrow> client_proc \<Rightarrow> bool" where
  "all_open e c p p' \<longleftrightarrow> cx_cfg (cx p') = c \<and> cx_stopping (cx p') = 0
     \<and> start_barrier (cx p') = \<lparr>bar_init = 1, bar_count = sint (nr_threads c + 1)\<rparr>
     \<and> (\<forall>i < unat (nr_threads c). \<forall>j < conns_of c. get_conn i j p' = Inr (fresh_conn e c i j) \<and> connects e c i j)
     \<and> opened p' = opened p @ sockets e (conns_of c) 0 (unat (nr_threads c))
     \<and> th_closed (clib p') = th_closed (clib p)
     \<and> deadline (cx p') = client_deadline (ce_now e) (duration c)"

lemma cleanup_gives_back:
  assumes O: "owns (insert addr A) B (all_fresh e c) as 0 q" and cfg: "cx_cfg (cx q) = c"
    and addr: "addr \<notin> A" "dom B \<subseteq> A"
    and n: "length as \<le> unat (nr_threads c)" "unat (nr_threads c) \<le> MAX_CLIENT_THREADS"
    and bal: "balanced p q (sockets e (conns_of c) 0 (length as))"
    and con: "\<forall>t < length as. \<forall>j < conns_of c. connects e c t j" and s: "\<And>i j. ce_socket e i j \<noteq> 0"
  shows "\<exists>p'. cleanup_client addr q = Inr p' \<and> allocated (th_mem (clib p')) = A \<and> arrays p' = B
    \<and> infos (clib p') = infos (clib q) \<and> started (clib p') = started (clib q) \<and> balanced p p' []"
proof -
  have B: "B addr = None" using addr by (auto simp: domIff)
  have n': "length as \<le> unat (nr_threads (cx_cfg (cx q)))" "unat (nr_threads (cx_cfg (cx q))) \<le> MAX_CLIENT_THREADS"
    using n cfg by simp_all
  have "concat (map (\<lambda>t. open_fds (all_fresh e c t)) [0..<length as]) = sockets e (conns_of c) 0 (length as)"
    unfolding sockets_def using con by (intro arg_cong [of _ _ concat] map_cong refl mset_fresh s) simp
  with cleanup_client_ok [OF O insertI1 B n'] obtain p' where
    1: "cleanup_client addr q = Inr p'" "allocated (th_mem (clib p')) = insert addr A - {addr}" "arrays p' = B"
    "opened p' = opened q" "th_closed (clib p') = th_closed (clib q) @ sockets e (conns_of c) 0 (length as)"
    "infos (clib p') = infos (clib q)" "started (clib p') = started (clib q)" by auto
  moreover have "balanced p p' []"
    using bal 1(4,5) by (auto simp: balanced_def)
  ultimately show ?thesis using addr(1) by auto
qed

lemma init_client_ok:
  assumes p: "proc_ok p" and n: "unat (nr_threads c) \<le> MAX_CLIENT_THREADS" and s: "\<And>i j. ce_socket e i j \<noteq> 0"
  shows "\<exists>r p'. init_client e c p = Inr (r, p')
    \<and> (case r of None \<Rightarrow> nothing_taken p p'
       | Some addr \<Rightarrow> all_open e c p p' \<and> addr \<notin> allocated (th_mem (clib p))
         \<and> (\<exists>as. length as = unat (nr_threads c)
            \<and> owns (insert addr (allocated (th_mem (clib p)))) (arrays p) (all_fresh e c) as 0 p')
         \<and> infos (clib p') = infos (clib p) \<and> started (clib p') = started (clib p))"
proof -
  let ?A = "allocated (th_mem (clib p))"
  have m0: "mem_ok (th_mem (clib p))" "dom (arrays p) \<subseteq> ?A" using p by (simp_all add: proc_ok_def)
  show ?thesis
  proof (rule calloc_cases [OF m0(1), of e])
    fix m assume m: "calloc e p = (None, p\<lparr>clib := (clib p)\<lparr>th_mem := m\<rparr>\<rparr>)" "mem_ok m" "allocated m = ?A"
    then have "init_client e c p = Inr (None, p\<lparr>clib := (clib p)\<lparr>th_mem := m\<rparr>\<rparr>)"
      by (simp add: init_client_def)
    with m(3) show ?thesis
      by (intro exI [of _ None] exI [of _ "p\<lparr>clib := (clib p)\<lparr>th_mem := m\<rparr>\<rparr>"]) (simp add: nothing_taken_def)
  next
    fix addr m assume m: "calloc e p = (Some addr, p\<lparr>clib := (clib p)\<lparr>th_mem := m\<rparr>\<rparr>)" "mem_ok m"
      "addr \<notin> ?A" "allocated m = insert addr ?A"
    let ?b = "p\<lparr>clib := (clib p)\<lparr>th_mem := m\<rparr>, cx := blank_client c\<rparr>"
    have O: "owns (insert addr ?A) (arrays p) (all_fresh e c) [] 0 ?b" by (rule blank_owns [OF p m(2,4)])
    have "length ([] :: nat list) + unat (nr_threads c) \<le> MAX_CLIENT_THREADS" "cx_cfg (cx ?b) = c"
      using n by (simp_all add: blank_client_def)
    from init_threads_loop [OF O this s] obtain r q as where
      l: "for_res (unat (nr_threads c)) 0 (init_client_thread e) ?b = Inr (r, q)" "same_rest ?b q"
      and Oq: "owns (insert addr ?A) (arrays p) (all_fresh e c) as 0 q" "length as \<le> unat (nr_threads c)"
      and bal: "balanced ?b q (sockets e (conns_of c) 0 (length as))"
      and con: "\<forall>t < length as. \<forall>j < conns_of c. connects e c t j"
      and z: "r = 0 \<longrightarrow> length as = unat (nr_threads c) \<and> th_closed (clib q) = th_closed (clib p)
        \<and> opened q = opened p @ sockets e (conns_of c) 0 (unat (nr_threads c))" by auto
    have cfg: "cx_cfg (cx q) = c" "cx_stopping (cx q) = 0"
      "start_barrier (cx q) = \<lparr>bar_init = 0, bar_count = 0\<rparr>" "infos (clib q) = infos (clib p)"
      "started (clib q) = started (clib p)"
      using l(2) by (simp_all add: same_rest_def blank_client_def)
    have balp: "balanced p q (sockets e (conns_of c) 0 (length as))" using bal by (simp add: balanced_def)
    have gives: "\<exists>p'. cleanup_client addr (q\<lparr>cx := (cx q)\<lparr>start_barrier := b\<rparr>\<rparr>) = Inr p' \<and> nothing_taken p p'" for b
    proof -
      let ?q = "q\<lparr>cx := (cx q)\<lparr>start_barrier := b\<rparr>\<rparr>"
      have "owns (insert addr ?A) (arrays p) (all_fresh e c) as 0 ?q" using Oq(1) by (simp add: owns_def)
      moreover have "balanced p ?q (sockets e (conns_of c) 0 (length as))" using balp by (simp add: balanced_def)
      moreover have "cx_cfg (cx ?q) = c" using cfg(1) by simp
      ultimately obtain p' where "cleanup_client addr ?q = Inr p'" "allocated (th_mem (clib p')) = ?A"
        "arrays p' = arrays p" "infos (clib p') = infos (clib ?q)" "started (clib p') = started (clib ?q)"
        "balanced p p' []"
        using cleanup_gives_back [OF _ _ m(3) m0(2) Oq(2) n _ con s] by blast
      with cfg show ?thesis by (auto simp: nothing_taken_def balanced_def)
    qed
    let ?q0 = "q\<lparr>cx := (cx q)\<lparr>start_barrier := \<lparr>bar_init = 0, bar_count = 0\<rparr>\<rparr>\<rparr>"
    have run: "init_client e c p = (if r \<noteq> 0 then bind_res (cleanup_client addr q) (\<lambda>p. Inr (None, p))
        else if ce_barrier e \<noteq> 0 then bind_res (cleanup_client addr ?q0) (\<lambda>p. Inr (None, p))
        else Inr (Some addr, q\<lparr>cx := (cx q)\<lparr>start_barrier := \<lparr>bar_init = 1, bar_count = sint (nr_threads c + 1)\<rparr>,
          deadline := client_deadline (ce_now e) (duration c)\<rparr>\<rparr>))"
      using m(1) l(1) cfg(3) by (simp add: init_client_def barrier_init_def Let_def)
    show ?thesis
    proof (cases "r \<noteq> 0 \<or> ce_barrier e \<noteq> 0")
      case True
      with run gives [of "start_barrier (cx q)"] gives [of "\<lparr>bar_init = 0, bar_count = 0\<rparr>"]
      obtain p' where "init_client e c p = Inr (None, p')" "nothing_taken p p'"
        by (cases "r = 0") auto
      then show ?thesis by (intro exI [of _ None] exI [of _ p']) simp
    next
      case False
      let ?p' = "q\<lparr>cx := (cx q)\<lparr>start_barrier := \<lparr>bar_init = 1, bar_count = sint (nr_threads c + 1)\<rparr>,
          deadline := client_deadline (ce_now e) (duration c)\<rparr>\<rparr>"
      from False z have e: "length as = unat (nr_threads c)" "th_closed (clib q) = th_closed (clib p)"
        "opened q = opened p @ sockets e (conns_of c) 0 (unat (nr_threads c))" by auto
      have O': "owns (insert addr ?A) (arrays p) (all_fresh e c) as 0 ?p'" using Oq(1) by (simp add: owns_def)
      have "all_open e c p ?p'"
        unfolding all_open_def using cfg con e owns_get_conn [OF O'] by simp
      with run False O' e(1) m(3) cfg show ?thesis
        by (intro exI [of _ "Some addr"] exI [of _ ?p']) auto
    qed
  qed
qed

text \<open>A small client: two threads with two connections, sockets 10, 11, 12 and 13.\<close>

definition demo_ccfg :: client_config_t where
  "demo_ccfg = \<lparr>server_path = [97, 0], nr_threads = 2, nr_connections = 2, nr_requests = 5, duration = -1\<rparr>"

definition demo_cenv :: "(nat \<Rightarrow> nat \<Rightarrow> int) \<Rightarrow> (nat \<Rightarrow> int) \<Rightarrow> client_env" where
  "demo_cenv con create = \<lparr>
     ce_threads = \<lparr>mem_av = (\<lambda>_. True), eventfd_ret = (\<lambda>i. 20 + int i), create_ret = create\<rparr>,
     ce_socket = (\<lambda>i j. 10 + 2 * int i + int j), ce_connect = (\<lambda>i j _. con i j), ce_getfl = (\<lambda>_ _. 2),
     ce_setfl = (\<lambda>_ _ _. 0), ce_barrier = 0, ce_now = Timespec 7 0\<rparr>"

definition demo_cproc :: client_proc where
  "demo_cproc = \<lparr>cx = blank_client demo_ccfg, arrays = Map.empty,
     clib = \<lparr>th_mem = \<lparr>n_alloc = 0, live_objs = []\<rparr>, infos = Map.empty, started = [], th_closed = []\<rparr>,
     opened = [], bar_destroyed = 0, bar_waits = 0\<rparr>"

lemma demo_cproc_ok:
  "proc_ok demo_cproc" "unat (nr_threads demo_ccfg) \<le> MAX_CLIENT_THREADS"
  "ce_socket (demo_cenv con create) i j \<noteq> 0"
  by (simp_all add: proc_ok_def mem_ok_def demo_cproc_def demo_ccfg_def MAX_CLIENT_THREADS_def demo_cenv_def)



subsection \<open>Starting the threads\<close>

text \<open>The threads \<open>ts\<close> have been started since \<open>p0\<close>, thread \<open>i\<close> on its slot.\<close>

definition launched :: "client_env \<Rightarrow> client_proc \<Rightarrow> nat list \<Rightarrow> client_proc \<Rightarrow> bool" where
  "launched e p0 ts p \<longleftrightarrow>
     threads_ok (clib p) \<and> distinct ts \<and> set ts \<inter> allocated (th_mem (clib p0)) = {}
     \<and> allocated (th_mem (clib p)) = allocated (th_mem (clib p0)) \<union> set ts
     \<and> started (clib p) = started (clib p0) @ ts \<and> opened p = opened p0
     \<and> cx_cfg (cx p) = cx_cfg (cx p0) \<and> start_barrier (cx p) = start_barrier (cx p0)
     \<and> length (client_threads (cx p)) = length (client_threads (cx p0)) \<and> arrays p = arrays p0
     \<and> (\<forall>i < length (client_threads (cx p0)). cs_init (client_threads (cx p) ! i) = cs_init (client_threads (cx p0) ! i)
          \<and> cs_conns (client_threads (cx p) ! i) = cs_conns (client_threads (cx p0) ! i))
     \<and> (\<forall>i < length ts. cs_ti (client_threads (cx p) ! i) = Some (ts ! i)
          \<and> infos (clib p) (ts ! i) = Some (new_info (ce_threads e) (client_thread_name i) ClientWorker i
              DEFAULT_GROUP_INFO (ts ! i)))
     \<and> (\<forall>t. t \<notin> set ts \<longrightarrow> infos (clib p) t = infos (clib p0) t)"

lemma launchedD:
  assumes "launched e p0 ts p"
  shows "threads_ok (clib p)" "distinct ts" "set ts \<inter> allocated (th_mem (clib p0)) = {}"
    "allocated (th_mem (clib p)) = allocated (th_mem (clib p0)) \<union> set ts"
    "started (clib p) = started (clib p0) @ ts" "opened p = opened p0"
    "cx_cfg (cx p) = cx_cfg (cx p0)" "start_barrier (cx p) = start_barrier (cx p0)"
    "length (client_threads (cx p)) = length (client_threads (cx p0))" "arrays p = arrays p0"
    "\<And>i. i < length (client_threads (cx p0)) \<Longrightarrow> cs_init (client_threads (cx p) ! i) = cs_init (client_threads (cx p0) ! i)"
    "\<And>i. i < length (client_threads (cx p0)) \<Longrightarrow> cs_conns (client_threads (cx p) ! i) = cs_conns (client_threads (cx p0) ! i)"
    "\<And>i. i < length ts \<Longrightarrow> cs_ti (client_threads (cx p) ! i) = Some (ts ! i)"
    "\<And>i. i < length ts \<Longrightarrow> infos (clib p) (ts ! i) = Some (new_info (ce_threads e) (client_thread_name i)
        ClientWorker i DEFAULT_GROUP_INFO (ts ! i))"
    "\<And>t. t \<notin> set ts \<Longrightarrow> infos (clib p) t = infos (clib p0) t"
  using assms unfolding launched_def by blast+

lemma launched_start: "threads_ok (clib p) \<Longrightarrow> launched e p [] p"
  by (simp add: launched_def)

lemma start_client_thread_step:
  assumes L: "launched e p0 ts p" and i: "length ts < length (client_threads (cx p0))"
  shows "\<exists>r p'. start_client_thread e (length ts) p = Inr (r, p')
    \<and> (if r = 0 then \<exists>ti. launched e p0 (ts @ [ti]) p' else r = -1 \<and> launched e p0 ts p')"
proof -
  note d = launchedD [OF L]
  let ?i = "length ts" and ?info = "\<lambda>ti. new_info (ce_threads e) (client_thread_name (length ts)) ClientWorker
    (length ts) DEFAULT_GROUP_INFO ti"
  obtain r l where c: "create_thread (ce_threads e) (client_thread_name ?i) ClientWorker ?i (clib p) = Inr (r, l)"
    and ok: "threads_ok l"
    and none: "r = None \<Longrightarrow> infos l = infos (clib p) \<and> started l = started (clib p)
      \<and> allocated (th_mem l) = allocated (th_mem (clib p))"
    and some: "\<And>ti. r = Some ti \<Longrightarrow> ti \<notin> allocated (th_mem (clib p)) \<and> started l = started (clib p) @ [ti]
      \<and> th_closed l = th_closed (clib p) \<and> allocated (th_mem l) = insert ti (allocated (th_mem (clib p)))
      \<and> infos l = (infos (clib p))(ti \<mapsto> ?info ti)"
    by (rule do_create_thread_step [OF d(1), of "ce_threads e" "client_thread_name ?i" ClientWorker ?i
        DEFAULT_GROUP_INFO]) (rule that [unfolded create_thread_def])
  show ?thesis
  proof (cases r)
    case None
    then have "start_client_thread e ?i p = Inr (-1, p\<lparr>clib := l\<rparr>)"
      by (simp add: start_client_thread_def c)
    moreover have "launched e p0 ts (p\<lparr>clib := l\<rparr>)"
      unfolding launched_def using d ok none [OF None] by simp
    ultimately show ?thesis by (intro exI [of _ "-1"] exI [of _ "p\<lparr>clib := l\<rparr>"]) simp
  next
    case (Some ti)
    note sm = some [OF Some]
    let ?slots = "(client_threads (cx p))[?i := (client_threads (cx p) ! ?i)\<lparr>cs_ti := Some ti\<rparr>]"
    let ?p' = "p\<lparr>clib := l, cx := (cx p)\<lparr>client_threads := ?slots\<rparr>\<rparr>"
    have run: "start_client_thread e ?i p = Inr (0, ?p')"
      using Some i d(9) by (simp add: start_client_thread_def c put_slot_def get_slot_def index_res_ok)
    have new: "ti \<notin> set ts" "ti \<notin> allocated (th_mem (clib p0))" using sm d(4) by auto
    have nth: "?slots ! j = (if j = ?i then (client_threads (cx p) ! ?i)\<lparr>cs_ti := Some ti\<rparr>
        else client_threads (cx p) ! j)" for j
      using i d(9) by (simp add: nth_list_update)
    have th: "cs_ti (?slots ! j) = Some ((ts @ [ti]) ! j)
        \<and> infos l ((ts @ [ti]) ! j) = Some (new_info (ce_threads e) (client_thread_name j) ClientWorker j
            DEFAULT_GROUP_INFO ((ts @ [ti]) ! j))" if "j < length (ts @ [ti])" for j
    proof (cases "j = ?i")
      case True
      with sm nth show ?thesis by simp
    next
      case False
      with that have j: "j < length ts" by simp
      then have "ts ! j \<noteq> ti" using new(1) by auto
      with j d(13,14) [of j] sm nth False show ?thesis by (simp add: nth_append)
    qed
    have "launched e p0 (ts @ [ti]) ?p'"
      unfolding launched_def
    proof (intro conjI allI impI)
      show "cs_ti (client_threads (cx ?p') ! j) = Some ((ts @ [ti]) ! j)" if "j < length (ts @ [ti])" for j
        using th [OF that] by simp
      show "infos (clib ?p') ((ts @ [ti]) ! j) = Some (new_info (ce_threads e) (client_thread_name j)
          ClientWorker j DEFAULT_GROUP_INFO ((ts @ [ti]) ! j))" if "j < length (ts @ [ti])" for j
        using th [OF that] by simp
      show "cs_init (client_threads (cx ?p') ! j) = cs_init (client_threads (cx p0) ! j)"
        "cs_conns (client_threads (cx ?p') ! j) = cs_conns (client_threads (cx p0) ! j)"
        if "j < length (client_threads (cx p0))" for j
        using d(11,12) [OF that] nth [of j] by (cases "j = ?i"; simp)+
      show "infos (clib ?p') t = infos (clib p0) t" if "t \<notin> set (ts @ [ti])" for t
        using that sm d(15) by simp
    qed (use d ok sm new in auto)
    with run show ?thesis by (intro exI [of _ 0] exI [of _ ?p']) auto
  qed
qed

lemma start_threads_loop:
  assumes "launched e p0 ts p" and "length ts + k \<le> length (client_threads (cx p0))"
  shows "\<exists>r p' us. for_res k (length ts) (start_client_thread e) p = Inr (r, p') \<and> launched e p0 us p'
    \<and> length us \<le> length ts + k \<and> (r = 0 \<longrightarrow> length us = length ts + k) \<and> (r = 0 \<or> r = -1)"
  using assms
proof (induction k arbitrary: ts p)
  case (Suc k)
  have i: "length ts < length (client_threads (cx p0))" using Suc.prems(2) by simp
  from start_client_thread_step [OF Suc.prems(1) i] obtain r p1 where
    1: "start_client_thread e (length ts) p = Inr (r, p1)"
    "if r = 0 then \<exists>ti. launched e p0 (ts @ [ti]) p1 else r = -1 \<and> launched e p0 ts p1" by blast
  show ?case
  proof (cases "r = 0")
    case True
    with 1(2) obtain ti where "launched e p0 (ts @ [ti]) p1" by auto
    from Suc.IH [OF this] Suc.prems(2) 1(1) True show ?thesis by auto
  next
    case False
    with 1 show ?thesis by auto
  qed
qed auto

text \<open>What \<open>start_client\<close> returns.\<close>

lemma start_client_cases:
  assumes "threads_ok (clib p)" and "unat (nr_threads (cx_cfg (cx p))) \<le> length (client_threads (cx p))"
  obtains r p' ts where "start_client e p = Inr (r, p')" and "r = 0 \<or> r = -1"
    and "launched e p ts p'" and "length ts \<le> unat (nr_threads (cx_cfg (cx p)))"
    and "r = 0 \<Longrightarrow> length ts = unat (nr_threads (cx_cfg (cx p)))"
proof -
  from start_threads_loop [OF launched_start [OF assms(1), of e], of "unat (nr_threads (cx_cfg (cx p)))"] assms(2)
  obtain r q ts where l: "start_client_threads e p = Inr (r, q)" "launched e p ts q"
    "length ts \<le> unat (nr_threads (cx_cfg (cx p)))" "r = 0 \<longrightarrow> length ts = unat (nr_threads (cx_cfg (cx p)))"
    "r = 0 \<or> r = -1" by (auto simp: start_client_threads_def)
  have L: "launched e p ts (q\<lparr>bar_waits := bar_waits q + 1\<rparr>)" using l(2) by (simp add: launched_def)
  show thesis
  proof (cases "r = 0")
    case True
    with l L show thesis by (intro that [of 0 "q\<lparr>bar_waits := bar_waits q + 1\<rparr>" ts]) (simp_all add: start_client_def)
  next
    case False
    with l show thesis by (intro that [of r q ts]) (auto simp: start_client_def)
  qed
qed

lemma launched_owns:
  assumes O: "owns A B X as 0 p" and L: "launched e p ts q"
  shows "owns (A \<union> set ts) B X as 0 q"
proof -
  note d = ownsD [OF O] and l = launchedD [OF L]
  have "set as \<inter> (A \<union> set ts) = {}" using d(8,10) l(3) by auto
  moreover have "allocated (th_mem (clib q)) = A \<union> set ts \<union> set (drop 0 as)"
    using d(10) l(4) by auto
  moreover have "mem_ok (th_mem (clib q))" using l(1) by (simp add: threads_ok_def)
  moreover have "dom B \<subseteq> A \<union> set ts" using d(12) by auto
  moreover have "arrays q a = B a" if "a \<notin> set (drop 0 as)" for a using d(11) [OF that] l(10) by simp
  moreover have "cs_conns (client_threads (cx q) ! t) = Some (as ! t) \<and> arrays q (as ! t) = Some (X t)
      \<and> length (X t) = unat (nr_connections (cx_cfg (cx q)))" if "t < length as" for t
    using that d(1,2) d(4-6) [of t] l(7,10) l(12) [of t] by simp
  moreover have "cs_init (client_threads (cx q) ! t) = (if 0 \<le> t \<and> t < length as then 1 else 0)"
    if "t < MAX_CLIENT_THREADS" for t
    using that d(1) d(3) [OF that] l(11) [of t] by simp
  ultimately show ?thesis unfolding owns_def using d(1,2,7) l(9) by auto
qed

text \<open>C36 (error): a start that fails pulls the memory from under its threads. When
  \<open>pthread_create\<close> fails for some thread, \<open>run_client\<close> returns -1 after freeing the
  context and all connections; but the threads started before are neither told nor joined:
  they are still there, not finished, each about to work on its freed connections.\<close>

theorem client_start_failure_dangles:
  assumes p: "proc_ok p" "threads_ok (clib p)" and c: "unat (nr_threads c) \<le> MAX_CLIENT_THREADS"
    and s: "\<And>i j. ce_socket e i j \<noteq> 0"
    and prep: "prepare_client e c p = Inr (Some addr, p1)"
    and start: "start_client e p1 = Inr (r, p2)" "r \<noteq> 0"
  shows "\<exists>p' ts. run_client e stale n now work c p = Inr (-1, p') \<and> arrays p' = arrays p
    \<and> started (clib p2) = started (clib p) @ ts
    \<and> allocated (th_mem (clib p')) = allocated (th_mem (clib p)) \<union> set ts
    \<and> set ts \<inter> allocated (th_mem (clib p)) = {}
    \<and> (\<forall>i < length ts. \<exists>x. infos (clib p') (ts ! i) = Some x \<and> ti_func x = ClientWorker
        \<and> ti_arg x = i \<and> returned x = 0)"
proof -
  let ?A = "allocated (th_mem (clib p))"
  from init_client_ok [OF p(1) c s] prep obtain as where
    i: "all_open e c p p1" "addr \<notin> ?A" "length as = unat (nr_threads c)"
    and O: "owns (insert addr ?A) (arrays p) (all_fresh e c) as 0 p1"
    and inf: "infos (clib p1) = infos (clib p)" "started (clib p1) = started (clib p)"
    by (auto simp: prepare_client_def)
  have cfg: "cx_cfg (cx p1) = c" using i(1) by (simp add: all_open_def)
  note d = ownsD [OF O]
  have ok: "threads_ok (clib p1)" using p(2) d(9,10) inf(1) by (auto simp: threads_ok_def)
  have "unat (nr_threads (cx_cfg (cx p1))) \<le> length (client_threads (cx p1))"
    using c cfg d(1) by simp
  from start_client_cases [OF ok this, of e] start obtain ts where
    L: "launched e p1 ts p2" "r = -1" by (metis Pair_inject sum.inject(2))
  note l = launchedD [OF L(1)]
  note O2 = launched_owns [OF O L(1)]
  have B: "arrays p addr = None" using p(1) i(2) by (auto simp: proc_ok_def domIff)
  have "length as \<le> unat (nr_threads (cx_cfg (cx p2)))" "unat (nr_threads (cx_cfg (cx p2))) \<le> MAX_CLIENT_THREADS"
    using c i(3) cfg l(7) by simp_all
  from cleanup_client_ok [OF O2 _ B this] obtain p' where
    f: "cleanup_client addr p2 = Inr p'" "allocated (th_mem (clib p')) = insert addr ?A \<union> set ts - {addr}"
    "arrays p' = arrays p" "infos (clib p') = infos (clib p2)" by auto
  have addr: "addr \<notin> set ts" using l(3) d(10) by auto
  have "run_client e stale n now work c p = Inr (-1, p')"
    using prep start L(2) f(1) by (simp add: run_client_def)
  moreover have "allocated (th_mem (clib p')) = ?A \<union> set ts" using f(2) i(2) addr by auto
  moreover have "set ts \<inter> ?A = {}" using l(3) d(10) by auto
  moreover have "started (clib p2) = started (clib p) @ ts" using l(5) inf(2) by simp
  ultimately show ?thesis using f(3,4) l(14) by (intro exI [of _ p'] exI [of _ ts]) simp
qed

lemmas client_eval =
  prepare_client_def init_client_def calloc_def alloc_def free_def Let_def for_res_numeral
  blank_client_def demo_cproc_def demo_cenv_def demo_ccfg_def init_client_thread_def put_slot_def
  get_slot_def index_res_def MAX_CLIENT_THREADS_def init_client_conn_def put_conn_def get_conns_def
  setnonblock_def barrier_init_def client_deadline_def start_client_def start_client_threads_def
  start_client_thread_def create_thread_def do_create_thread_def

lemma demo_start_failure:
  "\<exists>p1 p2. prepare_client (demo_cenv (\<lambda>_ _. 0) (\<lambda>i. if i = 4 then 11 else 0)) demo_ccfg demo_cproc
      = Inr (Some 0, p1)
    \<and> start_client (demo_cenv (\<lambda>_ _. 0) (\<lambda>i. if i = 4 then 11 else 0)) p1 = Inr (-1, p2)
    \<and> started (clib p2) = [3]"
  by (simp add: client_eval cong: bind_res_weak_cong)

theorem client_start_failure_dangles_witness:
  "\<exists>p' x. run_client (demo_cenv (\<lambda>_ _. 0) (\<lambda>i. if i = 4 then 11 else 0)) ti_ret 9
      (\<lambda>_. (Timespec 0 0, Timespec 0 0)) (\<lambda>_ p. p) demo_ccfg demo_cproc = Inr (-1, p')
    \<and> arrays p' = Map.empty \<and> infos (clib p') 3 = Some x \<and> returned x = 0"
proof -
  let ?e = "demo_cenv (\<lambda>_ _. 0) (\<lambda>i. if i = 4 then 11 else 0)"
  from demo_start_failure obtain p1 p2 where
    1: "prepare_client ?e demo_ccfg demo_cproc = Inr (Some 0, p1)" "start_client ?e p1 = Inr (-1, p2)"
      "started (clib p2) = [3]" by blast
  have "threads_ok (clib demo_cproc)" "-1 \<noteq> (0 :: int)"
    by (simp_all add: threads_ok_def mem_ok_def demo_cproc_def)
  from client_start_failure_dangles [OF demo_cproc_ok(1) this(1) demo_cproc_ok(2,3) 1(1,2) this(2),
      of ti_ret 9 "\<lambda>_. (Timespec 0 0, Timespec 0 0)" "\<lambda>_ p. p"]
  obtain p' ts where p': "run_client ?e ti_ret 9
      (\<lambda>_. (Timespec 0 0, Timespec 0 0)) (\<lambda>_ p. p) demo_ccfg demo_cproc = Inr (-1, p')"
    "arrays p' = arrays demo_cproc" "started (clib p2) = started (clib demo_cproc) @ ts"
    "\<forall>i < length ts. \<exists>x. infos (clib p') (ts ! i) = Some x \<and> returned x = 0" by blast
  have "ts = [3]" using p'(3) 1(3) by (simp add: demo_cproc_def)
  with p' show ?thesis by (auto simp: demo_cproc_def)
qed

subsection \<open>Reports\<close>

text \<open>All connections are there; their status blocks in the order the reports read them.\<close>

definition statuses :: "client_proc \<Rightarrow> client_status_t list" where
  "statuses p = concat (map (\<lambda>i. case get_conns i p of Inl _ \<Rightarrow> [] | Inr (_, xs) \<Rightarrow> map status xs)
     [0..<unat (nr_threads (cx_cfg (cx p)))])"

definition all_there :: "client_proc \<Rightarrow> bool" where
  "all_there p \<longleftrightarrow> (\<forall>i < unat (nr_threads (cx_cfg (cx p))).
     case get_conns i p of Inl _ \<Rightarrow> False | Inr (_, xs) \<Rightarrow> length xs = conns_of (cx_cfg (cx p)))"

lemma fold_concat: "fold (\<lambda>i. fold f (h i)) is a = fold f (concat (map h is)) a"
  by (induction "is" arbitrary: a) auto

lemma fold_nth: "fold (\<lambda>j. f (g (xs ! j))) [0..<length xs] a = fold f (map g xs) a"
proof -
  have "fold f (map g xs) a = fold f (map (\<lambda>j. g (xs ! j)) [0..<length xs]) a"
    by (metis (no_types, lifting) map_nth map_map comp_apply map_cong)
  then show ?thesis by (simp add: fold_map comp_def)
qed

lemma for_conns_statuses:
  assumes "all_there p"
  shows "for_conns f p a = Inr (fold f (statuses p) a)"
proof -
  let ?n = "unat (nr_threads (cx_cfg (cx p)))" and ?m = "unat (nr_connections (cx_cfg (cx p)))"
  let ?h = "\<lambda>i. case get_conns i p of Inl _ \<Rightarrow> [] | Inr (_, xs) \<Rightarrow> map status xs"
  let ?inner = "\<lambda>i j a. bind_res (get_conn i j p) (\<lambda>x. Inr (0, f (status x) a))"
  have inner: "for_res ?m 0 (?inner i) b = Inr (0, fold f (?h i) b)" if i: "i < ?n" for i b
  proof -
    from assms i obtain a xs where g: "get_conns i p = Inr (a, xs)" and l: "length xs = ?m"
      by (cases "get_conns i p") (auto simp: all_there_def conns_of_def)
    have "?inner i j b = Inr (0, f (status (xs ! j)) b)" if "j < length xs" for j b
      using that by (simp add: get_conn_def g index_res_ok)
    then have "for_res ?m 0 (?inner i) b = Inr (0, fold (\<lambda>j. f (status (xs ! j))) [0..<0 + ?m] b)"
      by (intro for_res_fold) (simp add: l)
    then show ?thesis using fold_nth [of f status xs b] g l by simp
  qed
  have "for_res ?n 0 (\<lambda>i. for_res ?m 0 (?inner i)) a = Inr (0, fold (\<lambda>i. fold f (?h i)) [0..<0 + ?n] a)"
    by (rule for_res_fold) (simp add: inner)
  then show ?thesis by (simp add: for_conns_def statuses_def fold_concat)
qed

text \<open>The steps of the reports, as sums and extrema.\<close>

lemma stats_fold:
  "fold stats_step sts a = \<lparr>cst_start = fold min (map (as_nanoseconds \<circ> start_time) sts) (cst_start a),
     cst_end = fold max (map (as_nanoseconds \<circ> end_time) sts) (cst_end a),
     cst_requests = cst_requests a + sum_list (map st_sent sts)\<rparr>"
proof (induction sts arbitrary: a)
  case (Cons st sts)
  have "stats_step st a = \<lparr>cst_start = min (as_nanoseconds (start_time st)) (cst_start a),
     cst_end = max (as_nanoseconds (end_time st)) (cst_end a), cst_requests = cst_requests a + st_sent st\<rparr>"
    by (auto simp: stats_step_def Let_def min_def max_def)
  with Cons show ?case by (simp add: ac_simps)
qed simp

lemma progress_fold:
  "fold (progress_step nreq) sts a = a\<lparr>
     conns_active := conns_active a + of_nat (length (filter (\<lambda>st. st_received st < ucast nreq) sts)),
     sent_total := sent_total a + sum_list (map st_sent sts),
     received_total := received_total a + sum_list (map st_received sts)\<rparr>"
  by (induction sts arbitrary: a) (simp_all add: progress_step_def ac_simps)

lemma fold_extrema:
  fixes a :: "'a :: linorder"
  shows "fold min xs a = Min (insert a (set xs))" "fold max xs a = Max (insert a (set xs))"
  by (simp_all add: Min.set_eq_fold [symmetric] Max.set_eq_fold [symmetric])

text \<open>
  Two threads with one connection each; the first sent 3 requests and has ended, the
  second 1.
\<close>

definition demo_info :: "nat \<Rightarrow> int \<Rightarrow> (client_routine, nat) thread_info_t" where
  "demo_info i r = \<lparr>ti_name = client_thread_name i, ti_func = ClientWorker, ti_arg = i, ti_ret = 0,
     wakefd = 23 + int i, returned = r, group_info = DEFAULT_GROUP_INFO\<rparr>"

definition demo_done :: client_proc where
  "demo_done = demo_cproc\<lparr>
     cx := (blank_client (demo_ccfg\<lparr>nr_connections := 1\<rparr>))\<lparr>client_threads :=
       \<lparr>cs_init = 1, cs_ti = Some 3, cs_conns = Some 1\<rparr> # \<lparr>cs_init = 1, cs_ti = Some 4, cs_conns = Some 2\<rparr>
       # replicate 126 \<lparr>cs_init = 0, cs_ti = None, cs_conns = None\<rparr>\<rparr>,
     arrays := [1 \<mapsto> [blank_conn\<lparr>status := blank_status\<lparr>start_time := Timespec 1 0, end_time := Timespec 1 900,
                   st_sent := 3, st_received := 3\<rparr>\<rparr>],
                2 \<mapsto> [blank_conn\<lparr>status := blank_status\<lparr>start_time := Timespec 1 100, end_time := Timespec 1 1000,
                   st_sent := 1, st_received := 1\<rparr>\<rparr>]],
     clib := (clib demo_cproc)\<lparr>infos := [3 \<mapsto> demo_info 0 1, 4 \<mapsto> demo_info 1 0]\<rparr>\<rparr>"

lemma demo_done_there:
  "all_there demo_done"
  "statuses demo_done = [blank_status\<lparr>start_time := Timespec 1 0, end_time := Timespec 1 900, st_sent := 3, st_received := 3\<rparr>,
     blank_status\<lparr>start_time := Timespec 1 100, end_time := Timespec 1 1000, st_sent := 1, st_received := 1\<rparr>]"
proof -
  have g: "get_conns 0 demo_done = Inr (1, [blank_conn\<lparr>status := blank_status\<lparr>start_time := Timespec 1 0,
      end_time := Timespec 1 900, st_sent := 3, st_received := 3\<rparr>\<rparr>])"
    "get_conns (Suc 0) demo_done = Inr (2, [blank_conn\<lparr>status := blank_status\<lparr>start_time := Timespec 1 100,
      end_time := Timespec 1 1000, st_sent := 1, st_received := 1\<rparr>\<rparr>])"
    by (simp_all add: get_conns_def get_slot_def index_res_def demo_done_def)
  have n: "unat (nr_threads (cx_cfg (cx demo_done))) = 2" "conns_of (cx_cfg (cx demo_done)) = 1"
    by (simp_all add: demo_done_def blank_client_def demo_ccfg_def conns_of_def)
  show "all_there demo_done" unfolding all_there_def n by (auto simp: less_2_cases_iff g)
  show "statuses demo_done = [blank_status\<lparr>start_time := Timespec 1 0, end_time := Timespec 1 900, st_sent := 3, st_received := 3\<rparr>,
     blank_status\<lparr>start_time := Timespec 1 100, end_time := Timespec 1 1000, st_sent := 1, st_received := 1\<rparr>]"
    unfolding statuses_def n by (simp add: upt_rec numeral_2_eq_2 g)
qed

text \<open>C37 (equivalence): what the final report computes. On a context whose connections are
  all there, \<open>report_client_stats\<close> divides the time from the earliest start to the latest
  end by the number of requests sent, over all connections of all threads; and it crashes
  (division by zero) exactly when that number is 0 in 64 bits.\<close>

theorem client_report_exact:
  assumes "all_there p"
  shows "report_client_stats p =
    (let first = Min (insert (-1) (set (map (as_nanoseconds \<circ> start_time) (statuses p))));
         last = Max (insert 0 (set (map (as_nanoseconds \<circ> end_time) (statuses p))));
         total = sum_list (map st_sent (statuses p))
     in if total = 0 then Inl Fault
        else Inr (\<lparr>cst_start = first, cst_end = last, cst_requests = total\<rparr>, (last - first) div total))"
  by (simp add: report_client_stats_def for_conns_statuses [OF assms] stats_fold fold_extrema Let_def)

theorem client_report_exact_witness:
  "report_client_stats demo_done
    = Inr (\<lparr>cst_start = 1000000000, cst_end = 1000001000, cst_requests = 4\<rparr>, 250)"
  unfolding client_report_exact [OF demo_done_there(1)] demo_done_there(2)
  by (simp add: Let_def as_nanoseconds_def blank_status_def)

text \<open>C38 (bounds): the progress report. Its sums are those over all connections; the total it
  compares them with is computed in 32 bits, so it is right exactly when the product of
  threads, connections and requests fits into them; and its time delta is the elapsed time
  up to multiples of 2^32 nanoseconds (some 4.3 seconds).\<close>

theorem client_progress_exact:
  assumes "all_there p" and "client_nr_threads_done p = Inr d" and "clock_range t0" and "clock_range t1" and "t0 \<le> t1"
  shows "\<exists>new. report_progress t1 p = Inr new \<and> timestamp new = t1
    \<and> sent_total new = sum_list (map st_sent (statuses p))
    \<and> received_total new = sum_list (map st_received (statuses p))
    \<and> threads_active new = ucast (nr_threads (cx_cfg (cx p)) - of_int d)
    \<and> uint (fst (progress_deltas new (new\<lparr>timestamp := t0\<rparr>)))
        = ((tv_sec t1 - tv_sec t0) * 1000000000 + (tv_nsec t1 - tv_nsec t0)) mod 2 ^ 32
    \<and> (let c = cx_cfg (cx p); N = unat (nr_threads c) * unat (nr_connections c) * unat (nr_requests c) in
        unat (progress_total c) = N \<longleftrightarrow> N < 2 ^ 32)"
proof -
  let ?c = "cx_cfg (cx p)"
  let ?N = "unat (nr_threads ?c) * unat (nr_connections ?c) * unat (nr_requests ?c)"
  have N: "unat (progress_total ?c) = ?N mod 2 ^ 32"
    by (simp add: progress_total_def unat_ucast_u32 unat_word_ariths mod_mult_left_eq)
  have elapsed: "uint (as_nanoseconds t1 - as_nanoseconds t0)
      = (tv_sec t1 - tv_sec t0) * 1000000000 + (tv_nsec t1 - tv_nsec t0)"
    by (rule as_nanoseconds_sub [OF assms(3-5)])
  have "uint (ucast (as_nanoseconds t1 - as_nanoseconds t0) :: u32)
      = uint (as_nanoseconds t1 - as_nanoseconds t0) mod 2 ^ 32"
    by (simp add: unsigned_ucast_eq take_bit_eq_mod)
  with elapsed show ?thesis
    using assms(2) N by (auto simp: report_progress_def Let_def for_conns_statuses [OF assms(1)]
        progress_fold progress_deltas_def)
qed

theorem client_progress_exact_witness:
  "\<exists>new. report_progress (Timespec 6 5) demo_done = Inr new \<and> sent_total new = 4 \<and> threads_active new = 1
    \<and> uint (fst (progress_deltas new (new\<lparr>timestamp := Timespec 1 5\<rparr>))) = 705032704"
proof -
  have d: "client_nr_threads_done demo_done = Inr 1"
    by (simp add: client_nr_threads_done_def for_res_numeral get_slot_def index_res_def demo_done_def
        blank_client_def demo_ccfg_def demo_info_def)
  have "clock_range (Timespec 1 5)" "clock_range (Timespec 6 5)" "Timespec 1 5 \<le> Timespec 6 5"
    by (simp_all add: clock_range_def less_eq_timespec_def)
  from client_progress_exact [OF demo_done_there(1) d this] obtain new where
    new: "report_progress (Timespec 6 5) demo_done = Inr new"
    "sent_total new = sum_list (map st_sent (statuses demo_done))"
    "threads_active new = ucast (nr_threads (cx_cfg (cx demo_done)) - of_int 1)"
    "uint (fst (progress_deltas new (new\<lparr>timestamp := Timespec 1 5\<rparr>)))
        = ((tv_sec (Timespec 6 5) - tv_sec (Timespec 1 5)) * 1000000000
           + (tv_nsec (Timespec 6 5) - tv_nsec (Timespec 1 5))) mod 2 ^ 32"
    by blast
  have "nr_threads (cx_cfg (cx demo_done)) = 2"
    by (simp add: demo_done_def blank_client_def demo_ccfg_def)
  with new show ?thesis
    by (intro exI [of _ new]) (simp add: demo_done_there(2) blank_status_def)
qed

end
