(* ===== verification/Client_Shutdown.thy ===== *)
theory Client_Shutdown
  imports Client_Run
begin

section \<open>The end of a client run\<close>

text \<open>
  While the main thread sleeps the client's threads run. What they may change is stated as a
  relation on the process; under it the main thread's loop ends once all threads have
  returned, and joining and cleaning up give back everything the start took.
\<close>

subsection \<open>What the threads may change\<close>

definition conn_arrays :: "client_proc \<Rightarrow> nat set" where
  "conn_arrays p = {a. \<exists>i < unat (nr_threads (cx_cfg (cx p))).
     cs_conns (client_threads (cx p) ! i) = Some a}"

text \<open>A thread's information changes only in its result and the flag that it has ended.\<close>

definition info_work ::
  "(nat \<rightharpoonup> ('f, 'a) thread_info_t) \<Rightarrow> (nat \<rightharpoonup> ('f, 'a) thread_info_t) \<Rightarrow> bool" where
  "info_work f g \<longleftrightarrow> (\<forall>t. case f t of None \<Rightarrow> g t = None
     | Some x \<Rightarrow> \<exists>r b. b \<in> {0, 1} \<and> g t = Some (x\<lparr>ti_ret := r, returned := b\<rparr>))"

lemma info_workD:
  assumes "info_work f g"
  shows "f t = None \<Longrightarrow> g t = None"
    "f t = Some x \<Longrightarrow> \<exists>r b. b \<in> {0, 1} \<and> g t = Some (x\<lparr>ti_ret := r, returned := b\<rparr>)"
proof -
  have *: "case f t of None \<Rightarrow> g t = None
    | Some x \<Rightarrow> \<exists>r b. b \<in> {0, 1} \<and> g t = Some (x\<lparr>ti_ret := r, returned := b\<rparr>)"
    using assms unfolding info_work_def by blast
  then show "f t = None \<Longrightarrow> g t = None" by simp
  from * show "f t = Some x \<Longrightarrow> \<exists>r b. b \<in> {0, 1} \<and> g t = Some (x\<lparr>ti_ret := r, returned := b\<rparr>)"
    by simp
qed

lemma info_workI:
  assumes "\<And>t. f t = None \<Longrightarrow> g t = None"
    and "\<And>t x. f t = Some x \<Longrightarrow> \<exists>r b. b \<in> {0, 1} \<and> g t = Some (x\<lparr>ti_ret := r, returned := b\<rparr>)"
  shows "info_work f g"
  using assms unfolding info_work_def by (simp split: option.split)

lemma info_work_trans:
  assumes "info_work f g" and "info_work g h"
  shows "info_work f h"
proof (rule info_workI)
  show "h t = None" if "f t = None" for t
    using info_workD(1) [OF assms(2) info_workD(1) [OF assms(1) that]] .
  fix t x assume "f t = Some x"
  from info_workD(2) [OF assms(1) this] obtain r b where "g t = Some (x\<lparr>ti_ret := r, returned := b\<rparr>)" by blast
  from info_workD(2) [OF assms(2) this]
  show "\<exists>r b. b \<in> {0, 1} \<and> h t = Some (x\<lparr>ti_ret := r, returned := b\<rparr>)" by simp
qed

definition client_work :: "client_proc \<Rightarrow> client_proc \<Rightarrow> bool" where
  "client_work p q \<longleftrightarrow>
     (\<exists>b. cx q = (cx p)\<lparr>cx_stopping := b\<rparr>) \<and> th_mem (clib q) = th_mem (clib p) \<and> opened q = opened p
     \<and> (\<forall>a. map_option length (arrays q a) = map_option length (arrays p a))
     \<and> (\<forall>a. a \<notin> conn_arrays p \<longrightarrow> arrays q a = arrays p a)
     \<and> info_work (infos (clib p)) (infos (clib q))"

lemma client_workD:
  assumes "client_work p q"
  shows "\<exists>b. cx q = (cx p)\<lparr>cx_stopping := b\<rparr>" "th_mem (clib q) = th_mem (clib p)" "opened q = opened p"
    "\<And>a. map_option length (arrays q a) = map_option length (arrays p a)"
    "\<And>a. a \<notin> conn_arrays p \<Longrightarrow> arrays q a = arrays p a"
    "\<And>t. infos (clib p) t = None \<Longrightarrow> infos (clib q) t = None"
    "\<And>t x. infos (clib p) t = Some x
      \<Longrightarrow> \<exists>r f. f \<in> {0, 1} \<and> infos (clib q) t = Some (x\<lparr>ti_ret := r, returned := f\<rparr>)"
  using assms info_workD [of "infos (clib p)" "infos (clib q)"] unfolding client_work_def by blast+

lemma client_work_cx:
  assumes "client_work p q"
  shows "cx_cfg (cx q) = cx_cfg (cx p)" "client_threads (cx q) = client_threads (cx p)"
    "start_barrier (cx q) = start_barrier (cx p)" "deadline (cx q) = deadline (cx p)"
    "conn_arrays q = conn_arrays p"
  using client_workD(1) [OF assms] by (auto simp: conn_arrays_def)

lemma client_work_trans:
  assumes "client_work p q" and "client_work q r"
  shows "client_work p r"
proof -
  note a = client_workD [OF assms(1)] client_work_cx(5) [OF assms(1)] and b = client_workD [OF assms(2)]
  have "\<exists>c. cx r = (cx p)\<lparr>cx_stopping := c\<rparr>" using a(1) b(1) by auto
  moreover have "info_work (infos (clib p)) (infos (clib r))"
    using assms info_work_trans unfolding client_work_def by blast
  ultimately show ?thesis
    unfolding client_work_def using a(2-5,8) b(2-5) by simp
qed

text \<open>Setting the stop flag is allowed too.\<close>

lemma client_work_stop:
  "client_work p q \<Longrightarrow> client_work p (q\<lparr>cx := (cx q)\<lparr>cx_stopping := b\<rparr>\<rparr>)"
  unfolding client_work_def by (elim conjE exE) (simp, blast)

subsection \<open>A running client\<close>

text \<open>The \<open>n\<close> threads \<open>ts\<close> are running, or have ended, on the arrays \<open>as\<close>.\<close>

definition running :: "nat list \<Rightarrow> nat list \<Rightarrow> client_proc \<Rightarrow> bool" where
  "running as ts p \<longleftrightarrow>
     length ts = unat (nr_threads (cx_cfg (cx p))) \<and> length as = length ts
     \<and> length ts \<le> length (client_threads (cx p)) \<and> length ts \<le> MAX_CLIENT_THREADS
     \<and> (\<forall>i < length ts. cs_ti (client_threads (cx p) ! i) = Some (ts ! i)
          \<and> cs_conns (client_threads (cx p) ! i) = Some (as ! i)
          \<and> map_option length (arrays p (as ! i)) = Some (conns_of (cx_cfg (cx p)))
          \<and> (\<exists>x. infos (clib p) (ts ! i) = Some x \<and> returned x \<in> {0, 1}))"

lemma runningD:
  assumes "running as ts p"
  shows "length ts = unat (nr_threads (cx_cfg (cx p)))" "length as = length ts"
    "length ts \<le> length (client_threads (cx p))" "length ts \<le> MAX_CLIENT_THREADS"
    "\<And>i. i < length ts \<Longrightarrow> cs_ti (client_threads (cx p) ! i) = Some (ts ! i)"
    "\<And>i. i < length ts \<Longrightarrow> cs_conns (client_threads (cx p) ! i) = Some (as ! i)"
    "\<And>i. i < length ts \<Longrightarrow> \<exists>xs. arrays p (as ! i) = Some xs \<and> length xs = conns_of (cx_cfg (cx p))"
    "\<And>i. i < length ts \<Longrightarrow> \<exists>x. infos (clib p) (ts ! i) = Some x \<and> returned x \<in> {0, 1}"
  using assms unfolding running_def by (blast | auto)+

lemma running_work:
  assumes R: "running as ts p" and W: "client_work p q"
  shows "running as ts q"
proof -
  note d = runningD [OF R] and w = client_workD [OF W] and c = client_work_cx [OF W]
  have "\<exists>x. infos (clib q) (ts ! i) = Some x \<and> returned x \<in> {0, 1}" if "i < length ts" for i
    using d(8) [OF that] w(7) by fastforce
  moreover have "map_option length (arrays q (as ! i)) = Some (conns_of (cx_cfg (cx q)))" if "i < length ts" for i
    using d(7) [OF that] w(4) c(1) by auto
  ultimately show ?thesis unfolding running_def using d(1-6) c(1,2) by simp
qed

lemma running_there: "running as ts p \<Longrightarrow> all_there p"
  unfolding all_there_def
proof (intro allI impI)
  fix i assume R: "running as ts p" and "i < unat (nr_threads (cx_cfg (cx p)))"
  then have i: "i < length ts" using runningD(1) [OF R] by simp
  from runningD(7) [OF R i] obtain xs where "arrays p (as ! i) = Some xs" "length xs = conns_of (cx_cfg (cx p))"
    by blast
  with runningD(3,6) [OF R] i
  show "case get_conns i p of Inl _ \<Rightarrow> False | Inr (_, xs) \<Rightarrow> length xs = conns_of (cx_cfg (cx p))"
    by (simp add: get_conns_def get_slot_def index_res_ok)
qed

definition thread_flag :: "client_proc \<Rightarrow> nat \<Rightarrow> int" where
  "thread_flag p t = (case infos (clib p) t of None \<Rightarrow> 0 | Some x \<Rightarrow> returned x)"

lemma running_flag: "running as ts p \<Longrightarrow> i < length ts \<Longrightarrow> thread_flag p (ts ! i) \<in> {0, 1}"
  using runningD(8) by (fastforce simp: thread_flag_def)

lemma fold_add_sum: "fold (\<lambda>x n. n + x) xs a = a + sum_list xs" for a :: int
  by (induction xs arbitrary: a) simp_all

text \<open>The number of threads done is the number of flags set, and all are done when all are.\<close>

lemma nr_done_running:
  assumes R: "running as ts p"
  shows "client_nr_threads_done p = Inr (sum_list (map (thread_flag p) ts))"
proof -
  note d = runningD [OF R]
  have "client_nr_threads_done p
      = Inr (fold (\<lambda>i n. n + thread_flag p (ts ! i)) [0..<0 + length ts] 0)"
    unfolding client_nr_threads_done_def d(1) [symmetric]
  proof (subst for_res_fold)
    fix j a assume "j < 0 + length ts"
    then have j: "j < length ts" by simp
    from d(8) [OF j] obtain x where "infos (clib p) (ts ! j) = Some x" by blast
    with j d(3,5) show "bind_res (get_slot j p) (\<lambda>x. bind_res (deref (cs_ti x)) (\<lambda>t.
        bind_res (deref (infos (clib p) t)) (\<lambda>ti. Inr (0, a + returned ti))))
      = Inr (0, a + thread_flag p (ts ! j))"
      by (simp add: get_slot_def index_res_ok thread_flag_def)
  qed simp
  also have "fold (\<lambda>i n. n + thread_flag p (ts ! i)) [0..<0 + length ts] 0
      = fold (\<lambda>x n. n + x) (map (thread_flag p) ts) 0"
    using fold_nth [of "\<lambda>x n. n + x" "thread_flag p" ts 0] by simp
  also have "\<dots> = sum_list (map (thread_flag p) ts)"
    by (rule fold_add_sum [THEN trans]) simp
  finally show ?thesis .
qed

lemma sum_flags:
  "(\<And>x. x \<in> set xs \<Longrightarrow> f x \<in> {0, 1}) \<Longrightarrow> 0 \<le> sum_list (map f xs) \<and> sum_list (map f xs) \<le> int (length xs)
    \<and> (sum_list (map f xs) = int (length xs) \<longleftrightarrow> (\<forall>x \<in> set xs. f x = (1 :: int)))"
  by (induction xs) (fastforce, fastforce)

lemma threads_done_running:
  assumes R: "running as ts p"
  shows "client_threads_done p = Inr (\<forall>t \<in> set ts. thread_flag p t = 1)"
proof -
  let ?s = "sum_list (map (thread_flag p) ts)"
  note d = runningD [OF R]
  have f: "thread_flag p t \<in> {0, 1}" if "t \<in> set ts" for t
    using that running_flag [OF R] by (auto simp: in_set_conv_nth)
  note s = sum_flags [of ts "thread_flag p", OF f]
  have l: "int (length ts) = uint (nr_threads (cx_cfg (cx p)))" using d(1) by simp
  have le: "int (length ts) < 2 ^ 32" using unsigned_less [of "nr_threads (cx_cfg (cx p))"] l by simp
  have "uint (of_int ?s :: u32) = ?s mod 2 ^ 32" by (simp add: uint_word_of_int)
  also have "\<dots> = ?s" using s le by (intro mod_pos_pos_trivial) auto
  finally have "of_int ?s = nr_threads (cx_cfg (cx p)) \<longleftrightarrow> ?s = int (length ts)"
    unfolding l by (metis word_uint_eqI)
  with s show ?thesis by (simp add: client_threads_done_def nr_done_running [OF R])
qed

subsection \<open>The main loop ends\<close>

lemma report_progress_running: "running as ts p \<Longrightarrow> \<exists>prog. report_progress now p = Inr prog"
  by (simp add: report_progress_def for_conns_statuses running_there nr_done_running Let_def)

lemma run_wait_returns:
  assumes R: "running as ts p0" and W: "client_work p0 p" and work: "\<And>i q. client_work p0 q \<Longrightarrow> client_work q (work i q)"
    and ends: "\<And>q t. client_work p0 q \<Longrightarrow> t \<in> set ts \<Longrightarrow> thread_flag (work N q) t = 1"
    and n: "i \<le> N" "N - i < n"
  shows "\<exists>prog q. run_wait (Suc n) now work i prog0 p = Inr (prog, q) \<and> client_work p0 q
    \<and> (\<forall>t \<in> set ts. thread_flag q t = 1)"
  using W n
proof (induction n arbitrary: i prog0 p)
  case (Suc n)
  have Rp: "running as ts p" by (rule running_work [OF R Suc.prems(1)])
  show ?case
  proof (cases "\<forall>t \<in> set ts. thread_flag p t = 1")
    case True
    with Suc.prems(1) show ?thesis by (simp add: threads_done_running [OF Rp])
  next
    case False
    from report_progress_running [OF Rp, of "fst (now i)"] obtain prog where
      prog: "report_progress (fst (now i)) p = Inr prog" by blast
    let ?p = "if cur_nanoseconds (snd (now i)) \<ge> deadline (cx p) then p\<lparr>cx := (cx p)\<lparr>cx_stopping := 1\<rparr>\<rparr> else p"
    have W': "client_work p0 ?p" using Suc.prems(1) client_work_stop [OF Suc.prems(1), of 1] by simp
    have Wi: "client_work p0 (work i ?p)" by (rule client_work_trans [OF W' work [OF W']])
    have step: "run_wait (Suc (Suc n)) now work i prog0 p = run_wait (Suc n) now work (Suc i) prog (work i ?p)"
      using False prog by (subst run_wait.simps) (auto simp: threads_done_running [OF Rp] simp del: run_wait.simps)
    show ?thesis
    proof (cases "i = N")
      case True
      have fin: "\<forall>t \<in> set ts. thread_flag (work i ?p) t = 1" using ends [OF W'] True by blast
      have "run_wait (Suc n) now work (Suc i) prog (work i ?p) = Inr (prog, work i ?p)"
        by (simp add: threads_done_running [OF running_work [OF R Wi]] fin)
      with step fin Wi show ?thesis by metis
    next
      case F: False
      then have "Suc i \<le> N" "N - Suc i < n" using Suc.prems(2,3) by auto
      from Suc.IH [OF Wi this] step show ?thesis by simp
    qed
  qed
qed simp

subsection \<open>Joining and cleaning up\<close>

lemma join_loop:
  assumes "joinable (clib q) (drop i ts)" and "i \<le> length ts" and "length ts \<le> length (client_threads (cx q))"
    and "\<And>j. j < length ts \<Longrightarrow> cs_ti (client_threads (cx q) ! j) = Some (ts ! j)"
  shows "\<exists>l err'. for_res (length ts - i) i (join_client_thread stale) (err, q) = Inr (0, err', q\<lparr>clib := l\<rparr>)
    \<and> mem_ok (th_mem l) \<and> allocated (th_mem l) = allocated (th_mem (clib q)) - set (drop i ts)
    \<and> infos l = infos (clib q) |` (- set (drop i ts)) \<and> started l = started (clib q)
    \<and> err' = (if \<exists>t \<in> set (drop i ts). stale (the (infos (clib q) t)) \<noteq> 0 then 1 else err)"
  using assms
proof (induction "length ts - i" arbitrary: i err q)
  case 0
  then have "drop i ts = []" by simp
  with 0 show ?case
    by (intro exI [of _ "clib q"] exI [of _ err]) (simp add: joinable_def)
next
  case (Suc k)
  then have i: "i < length ts" "length ts - i = Suc k" "length ts - Suc i = k" by auto
  have d: "drop i ts = ts ! i # drop (Suc i) ts" using i(1) by (simp add: Cons_nth_drop_Suc)
  with Suc.prems(1) have J: "joinable (clib q) (ts ! i # drop (Suc i) ts)" by simp
  then obtain x where x: "infos (clib q) (ts ! i) = Some x" by (auto simp: joinable_def)
  obtain l where l: "thread_join stale (ts ! i) (clib q) = Inr (stale x, l)" "joinable l (drop (Suc i) ts)"
    "infos l = (infos (clib q))(ts ! i := None)"
    "allocated (th_mem l) = allocated (th_mem (clib q)) - {ts ! i}" "started l = started (clib q)"
    using thread_join_step [OF J x] by metis
  let ?err = "if stale x \<noteq> 0 then 1 else err" and ?q = "q\<lparr>clib := l\<rparr>"
  have b: "join_client_thread stale i (err, q) = Inr (0, ?err, ?q)"
    using i(1) Suc.prems(3,4) l(1) by (simp add: join_client_thread_def get_slot_def index_res_ok)
  have "joinable (clib ?q) (drop (Suc i) ts)" using l(2) by simp
  from Suc.hyps(1) [OF i(3) [symmetric] this, of ?err] i Suc.prems(3,4) obtain m err' where
    m: "for_res k (Suc i) (join_client_thread stale) (?err, ?q) = Inr (0, err', q\<lparr>clib := m\<rparr>)"
    "mem_ok (th_mem m)" "allocated (th_mem m) = allocated (th_mem l) - set (drop (Suc i) ts)"
    "infos m = infos l |` (- set (drop (Suc i) ts))" "started m = started l"
    "err' = (if \<exists>t \<in> set (drop (Suc i) ts). stale (the (infos l t)) \<noteq> 0 then 1 else ?err)" by auto
  have nin: "ts ! i \<notin> set (drop (Suc i) ts)" using J by (simp add: joinable_def)
  have "(\<exists>t \<in> set (drop (Suc i) ts). stale (the (infos l t)) \<noteq> 0)
      \<longleftrightarrow> (\<exists>t \<in> set (drop (Suc i) ts). stale (the (infos (clib q) t)) \<noteq> 0)"
    using nin unfolding l(3) by (intro bex_cong refl) auto
  then have e: "err' = (if \<exists>t \<in> set (drop i ts). stale (the (infos (clib q) t)) \<noteq> 0 then 1 else err)"
    unfolding m(6) d using x by auto
  have inf: "infos m = infos (clib q) |` (- set (drop i ts))"
    unfolding m(4) l(3) d by (auto simp: restrict_map_def fun_eq_iff)
  have al: "allocated (th_mem m) = allocated (th_mem (clib q)) - set (drop i ts)"
    unfolding m(3) l(4) d by auto
  have "for_res (Suc k) i (join_client_thread stale) (err, q) = Inr (0, err', q\<lparr>clib := m\<rparr>)"
    using b m(1) by simp
  with m(2,5) e inf al l(5) show ?case unfolding i(2) by auto
qed

lemma join_client_ok:
  assumes R: "running as ts q" and M: "mem_ok (th_mem (clib q))" "distinct ts"
    "set ts \<subseteq> allocated (th_mem (clib q))" and E: "\<forall>t \<in> set ts. thread_flag q t = 1"
  shows "\<exists>l err. join_client stale q = Inr (err, q\<lparr>clib := l\<rparr>)
    \<and> mem_ok (th_mem l) \<and> allocated (th_mem l) = allocated (th_mem (clib q)) - set ts
    \<and> infos l = infos (clib q) |` (- set ts) \<and> started l = started (clib q)
    \<and> (err = 0 \<longleftrightarrow> (\<forall>t \<in> set ts. stale (the (infos (clib q) t)) = 0))"
proof -
  note d = runningD [OF R]
  have "\<exists>x. infos (clib q) t = Some x \<and> returned x \<noteq> 0" if "t \<in> set ts" for t
    using that E by (force simp: thread_flag_def split: option.splits)
  with M have "joinable (clib q) (drop 0 ts)" by (simp add: joinable_def)
  from join_loop [OF this _ d(3,5), of stale 0] obtain l err where
    l: "for_res (length ts) 0 (join_client_thread stale) (0, q) = Inr (0, err, q\<lparr>clib := l\<rparr>)"
    "mem_ok (th_mem l)" "allocated (th_mem l) = allocated (th_mem (clib q)) - set ts"
    "infos l = infos (clib q) |` (- set ts)" "started l = started (clib q)"
    "err = (if \<exists>t \<in> set ts. stale (the (infos (clib q) t)) \<noteq> 0 then 1 else 0)" by auto
  then show ?thesis
    by (intro exI [of _ l] exI [of _ err]) (auto simp: join_client_def join_client_threads_def d(1) [symmetric])
qed

text \<open>From what the start built to what the threads leave of it.\<close>

lemma owns_work:
  assumes O: "owns A B X as 0 p" and W: "client_work p q" and arr: "conn_arrays p = set as"
  shows "owns A B (\<lambda>t. the (arrays q (as ! t))) as 0 q"
proof -
  note d = ownsD [OF O] and w = client_workD [OF W] and c = client_work_cx [OF W]
  have "arrays q (as ! t) = Some (the (arrays q (as ! t)))
      \<and> length (the (arrays q (as ! t))) = unat (nr_connections (cx_cfg (cx q)))" if "t < length as" for t
    using w(4) [of "as ! t"] d(5,6) [of t] that c(1) by auto
  moreover have "arrays q a = B a" if "a \<notin> set (drop 0 as)" for a
    using that w(5) [of a] arr d(11) by simp
  ultimately show ?thesis
    unfolding owns_def c(1,2) w(2) using d(1-4,7-10,12) by auto
qed

lemma launched_running:
  assumes O: "owns A B X as 0 p" and L: "launched e p ts q"
    and n: "length as = unat (nr_threads (cx_cfg (cx p)))" "length ts = length as"
  shows "running as ts q"
proof -
  note d = ownsD [OF O] and l = launchedD [OF L]
  have i: "i < length (client_threads (cx p))" if "i < length ts" for i using that d(1,2) n(2) by simp
  have "map_option length (arrays q (as ! i)) = Some (conns_of (cx_cfg (cx q)))
      \<and> cs_conns (client_threads (cx q) ! i) = Some (as ! i)" if "i < length ts" for i
    using that d(4-6) [of i] l(7,10) l(12) [OF i [OF that]] n(2) by (simp add: conns_of_def)
  moreover have "\<exists>x. infos (clib q) (ts ! i) = Some x \<and> returned x \<in> {0, 1}" if "i < length ts" for i
    using l(14) [OF that] by auto
  ultimately show ?thesis
    unfolding running_def using d(1,2) n l(7,9,13) by simp
qed

subsection \<open>Properties\<close>

text \<open>A client whose start has succeeded.\<close>

lemma started_client:
  assumes p: "proc_ok p" "threads_ok (clib p)" and c: "unat (nr_threads c) \<le> MAX_CLIENT_THREADS"
    and s: "\<And>i j. ce_socket e i j \<noteq> 0"
    and prep: "prepare_client e c p = Inr (Some addr, p1)" and start: "start_client e p1 = Inr (0, p2)"
  obtains as ts X where "addr \<notin> allocated (th_mem (clib p))" and "cx_cfg (cx p2) = c"
    and "length as = unat (nr_threads c)" and "set ts \<inter> insert addr (allocated (th_mem (clib p))) = {}"
    and "owns (insert addr (allocated (th_mem (clib p))) \<union> set ts) (arrays p) X as 0 p2"
    and "running as ts p2" and "conn_arrays p2 = set as" and "distinct ts"
    and "\<And>t. t \<notin> set ts \<Longrightarrow> infos (clib p2) t = infos (clib p) t"
    and "start_barrier (cx p2) = \<lparr>bar_init = 1, bar_count = sint (nr_threads c + 1)\<rparr>"
proof -
  let ?A = "allocated (th_mem (clib p))"
  from init_client_ok [OF p(1) c s] prep obtain as where
    i: "all_open e c p p1" "addr \<notin> ?A" "length as = unat (nr_threads c)"
    and O: "owns (insert addr ?A) (arrays p) (all_fresh e c) as 0 p1"
    and inf: "infos (clib p1) = infos (clib p)" by (auto simp: prepare_client_def)
  have cfg: "cx_cfg (cx p1) = c" using i(1) by (simp add: all_open_def)
  note d = ownsD [OF O]
  have ok: "threads_ok (clib p1)" using p(2) d(9,10) inf by (auto simp: threads_ok_def)
  have le: "unat (nr_threads (cx_cfg (cx p1))) \<le> length (client_threads (cx p1))" using c cfg d(1) by simp
  obtain ts where L: "launched e p1 ts p2" "length ts = unat (nr_threads c)"
    by (rule start_client_cases [OF ok le, of e]) (use start cfg in auto)
  note l = launchedD [OF L(1)]
  have R: "running as ts p2" by (rule launched_running [OF O L(1)]) (use i(3) L(2) cfg in simp_all)
  have arr: "conn_arrays p2 = set as"
    using runningD(6) [OF R] i(3) L(2) l(7) cfg by (auto simp: conn_arrays_def set_conv_nth)
  show thesis
  proof (rule that [OF i(2) _ i(3) _ launched_owns [OF O L(1)] R arr l(2)])
    show "set ts \<inter> insert addr ?A = {}" using l(3) d(10) by auto
    show "start_barrier (cx p2) = \<lparr>bar_init = 1, bar_count = sint (nr_threads c + 1)\<rparr>"
      using l(8) i(1) by (simp add: all_open_def)
  qed (use l(7,15) cfg inf in simp_all)
qed

text \<open>C39 (termination): the main loop of the client ends. If every thread has returned by the
  \<open>N\<close>th sleep, whatever else the threads do within their connections, the loop of
  \<open>run_client\<close> is left after at most \<open>N\<close> + 1 rounds, with all threads done; no report in
  it fails.\<close>

theorem client_main_loop_ends:
  assumes "proc_ok p" and "threads_ok (clib p)" and "unat (nr_threads c) \<le> MAX_CLIENT_THREADS"
    and "\<And>i j. ce_socket e i j \<noteq> 0"
    and "prepare_client e c p = Inr (Some addr, p1)" and "start_client e p1 = Inr (0, p2)"
    and "\<And>i q. client_work p2 q \<Longrightarrow> client_work q (work i q)"
    and "\<And>q t x. client_work p2 q \<Longrightarrow> infos (clib (work N q)) t = Some x \<Longrightarrow> infos (clib p) t = None
      \<Longrightarrow> returned x = 1"
    and "client_work p2 p2" and "N + 1 < n"
  shows "\<exists>prog q. run_wait n now work 0 no_progress p2 = Inr (prog, q) \<and> client_work p2 q
    \<and> client_threads_done q = Inr True"
proof -
  obtain as ts X where
    s: "running as ts p2" "set ts \<inter> insert addr (allocated (th_mem (clib p))) = {}"
    by (rule started_client [OF assms(1-6)]) (rule that)
  have new: "infos (clib p) t = None" if "t \<in> set ts" for t
    using that s(2) assms(2) by (auto simp: threads_ok_def domIff subset_iff)
  have ends: "thread_flag (work N q) t = 1" if W: "client_work p2 q" and t: "t \<in> set ts" for q t
  proof -
    have "running as ts (work N q)" by (rule running_work [OF s(1) client_work_trans [OF W assms(7) [OF W]]])
    then obtain x where x: "infos (clib (work N q)) t = Some x"
      using t runningD(8) by (metis in_set_conv_nth)
    with assms(8) [OF W x new [OF t]] show ?thesis by (simp add: thread_flag_def)
  qed
  have "\<exists>prog q. run_wait (Suc (n - 1)) now work 0 no_progress p2 = Inr (prog, q) \<and> client_work p2 q
      \<and> (\<forall>t \<in> set ts. thread_flag q t = 1)"
    by (rule run_wait_returns [where work = work and N = N, OF s(1) assms(9) assms(7) ends]) (use assms(10) in auto)
  then obtain prog q where q: "run_wait n now work 0 no_progress p2 = Inr (prog, q)" "client_work p2 q"
    "\<forall>t \<in> set ts. thread_flag q t = 1" using assms(10) by auto
  with threads_done_running [OF running_work [OF s(1) q(2)]] show ?thesis by auto
qed

text \<open>The threads of a client are the ones that were not there before it started.\<close>

lemma client_threads_new:
  assumes "client_work p2 q" and "running as ts q"
    and "\<And>t. t \<notin> set ts \<Longrightarrow> infos (clib p2) t = infos (clib p) t"
    and "\<And>t. t \<in> set ts \<Longrightarrow> infos (clib p) t = None"
  shows "set ts = {t. infos (clib q) t \<noteq> None \<and> infos (clib p) t = None}"
    and "dom (infos (clib q) |` (- set ts)) = dom (infos (clib p))"
proof -
  note w = client_workD [OF assms(1)]
  have old: "infos (clib q) t = None \<longleftrightarrow> infos (clib p) t = None" if "t \<notin> set ts" for t
    using assms(3) [OF that] w(6,7) [of t] by (cases "infos (clib p) t") auto
  have "\<exists>x. infos (clib q) t = Some x" if "t \<in> set ts" for t
    using that runningD(8) [OF assms(2)] by (metis in_set_conv_nth)
  then have "t \<in> set ts \<longleftrightarrow> infos (clib q) t \<noteq> None \<and> infos (clib p) t = None" for t
    using assms(4) [of t] old [of t] by (cases "t \<in> set ts") auto
  then show "set ts = {t. infos (clib q) t \<noteq> None \<and> infos (clib p) t = None}" by auto
  show "dom (infos (clib q) |` (- set ts)) = dom (infos (clib p))"
  proof (rule set_eqI)
    show "t \<in> dom (infos (clib q) |` (- set ts)) \<longleftrightarrow> t \<in> dom (infos (clib p))" for t
      using old [of t] assms(4) [of t] by (cases "t \<in> set ts") (simp_all add: domIff)
  qed
qed

text \<open>Joining takes the threads off what a client owns.\<close>

lemma owns_joined:
  assumes O: "owns (M \<union> set ts) F Y as 0 q" and "set ts \<inter> M = {}" and "dom F \<subseteq> M"
    and "mem_ok (th_mem l)" and "allocated (th_mem l) = allocated (th_mem (clib q)) - set ts"
  shows "owns M F Y as 0 (q\<lparr>clib := l\<rparr>)"
proof -
  note d = ownsD [OF O]
  have "allocated (th_mem (clib (q\<lparr>clib := l\<rparr>))) = M \<union> set (drop 0 as)"
    using assms(2,5) d(8,10) by auto
  moreover have "set as \<inter> M = {}" using d(8) by auto
  ultimately show ?thesis using O assms(3,4) unfolding owns_def by simp
qed

text \<open>C40 (roundtrip): the end of a client gives back everything its start took. Once all
  threads have returned, \<open>join_client\<close> and \<open>cleanup_client\<close> return, whatever the threads
  did to their connections; then exactly what was allocated before is allocated, the
  threads are gone, and the barrier is destroyed once. The verdict is 0 exactly when the
  memory of every thread information, freed before it is read, still reads 0.\<close>

theorem client_end_gives_back:
  assumes "proc_ok p" and "threads_ok (clib p)" and "unat (nr_threads c) \<le> MAX_CLIENT_THREADS"
    and "\<And>i j. ce_socket e i j \<noteq> 0"
    and "prepare_client e c p = Inr (Some addr, p1)" and "start_client e p1 = Inr (0, p2)"
    and "client_work p2 q" and "client_threads_done q = Inr True"
  shows "\<exists>err q' p'. join_client stale q = Inr (err, q') \<and> cleanup_client addr q' = Inr p'
    \<and> allocated (th_mem (clib p')) = allocated (th_mem (clib p)) \<and> arrays p' = arrays p
    \<and> dom (infos (clib p')) = dom (infos (clib p)) \<and> bar_destroyed p' = bar_destroyed q + 1
    \<and> (err = 0 \<longleftrightarrow> (\<forall>t x. infos (clib q) t = Some x \<longrightarrow> infos (clib p) t = None \<longrightarrow> stale x = 0))"
proof -
  let ?A = "allocated (th_mem (clib p))"
  obtain as ts X where
    s: "addr \<notin> ?A" "cx_cfg (cx p2) = c" "length as = unat (nr_threads c)" "set ts \<inter> insert addr ?A = {}"
    "owns (insert addr ?A \<union> set ts) (arrays p) X as 0 p2" "running as ts p2" "conn_arrays p2 = set as"
    "distinct ts" "\<And>t. t \<notin> set ts \<Longrightarrow> infos (clib p2) t = infos (clib p) t"
    "start_barrier (cx p2) = \<lparr>bar_init = 1, bar_count = sint (nr_threads c + 1)\<rparr>"
    by (rule started_client [OF assms(1-6)]) (rule that)
  note cx = client_work_cx [OF assms(7)]
  have R: "running as ts q" by (rule running_work [OF s(6) assms(7)])
  have O: "owns (insert addr ?A \<union> set ts) (arrays p) (\<lambda>t. the (arrays q (as ! t))) as 0 q"
    by (rule owns_work [OF s(5) assms(7) s(7)])
  note d = ownsD [OF O]
  have new: "infos (clib p) t = None" if "t \<in> set ts" for t
    using that s(4) assms(2) by (auto simp: threads_ok_def domIff subset_iff)
  note N = client_threads_new [OF assms(7) R s(9) new]
  have E: "\<forall>t \<in> set ts. thread_flag q t = 1"
    using assms(8) threads_done_running [OF R] by simp
  have al: "set ts \<subseteq> allocated (th_mem (clib q))" using d(10) by auto
  from join_client_ok [OF R d(9) s(8) al E, of stale] obtain l err where
    j: "join_client stale q = Inr (err, q\<lparr>clib := l\<rparr>)" "mem_ok (th_mem l)"
    "allocated (th_mem l) = allocated (th_mem (clib q)) - set ts" "infos l = infos (clib q) |` (- set ts)"
    "err = 0 \<longleftrightarrow> (\<forall>t \<in> set ts. stale (the (infos (clib q) t)) = 0)" by blast
  let ?q = "q\<lparr>clib := l\<rparr>"
  have "dom (arrays p) \<subseteq> insert addr ?A" using assms(1) by (auto simp: proc_ok_def)
  then have "owns (insert addr ?A) (arrays p) (\<lambda>t. the (arrays q (as ! t))) as 0 ?q"
    by (rule owns_joined [OF O s(4) _ j(2,3)])
  moreover have "arrays p addr = None" using assms(1) s(1) by (auto simp: proc_ok_def domIff)
  ultimately obtain p' where
    f: "cleanup_client addr ?q = Inr p'" "allocated (th_mem (clib p')) = insert addr ?A - {addr}"
    "arrays p' = arrays p" "infos (clib p') = infos l" "bar_destroyed p' = bar_destroyed q + 1"
    using cleanup_client_ok [of "insert addr ?A" "arrays p" "\<lambda>t. the (arrays q (as ! t))" as ?q addr]
      assms(3) s(2,3,10) cx(1,3) by auto
  have "dom (infos (clib p')) = dom (infos (clib p))" unfolding f(4) j(4) by (rule N(2))
  moreover have "err = 0 \<longleftrightarrow> (\<forall>t x. infos (clib q) t = Some x \<longrightarrow> infos (clib p) t = None \<longrightarrow> stale x = 0)"
    unfolding j(5) by (subst N(1)) auto
  ultimately show ?thesis using j(1) f s(1) by (intro exI [of _ err] exI [of _ ?q] exI [of _ p']) simp
qed

text \<open>Threads that do nothing but end.\<close>

definition just_end :: "client_proc \<Rightarrow> client_proc" where
  "just_end q = q\<lparr>clib := (clib q)\<lparr>infos := \<lambda>t. map_option (returned_update (\<lambda>_. 1)) (infos (clib q) t)\<rparr>\<rparr>"

lemma just_end_work: "client_work q (just_end q)"
proof -
  have "info_work (infos (clib q)) (infos (clib (just_end q)))"
  proof (rule info_workI)
    show "\<exists>r b. b \<in> {0, 1} \<and> infos (clib (just_end q)) t = Some (x\<lparr>ti_ret := r, returned := b\<rparr>)"
      if "infos (clib q) t = Some x" for t x
      by (intro exI [of _ "ti_ret x"] exI [of _ 1]) (simp add: just_end_def that)
  qed (simp add: just_end_def)
  moreover have "\<exists>b. cx q = (cx q)\<lparr>cx_stopping := b\<rparr>" by (rule exI [of _ "cx_stopping (cx q)"]) simp
  ultimately show ?thesis by (simp add: client_work_def just_end_def)
qed

lemma demo_start_ok:
  "\<exists>p1 p2. prepare_client (demo_cenv (\<lambda>_ _. 0) (\<lambda>_. 0)) demo_ccfg demo_cproc = Inr (Some 0, p1)
    \<and> start_client (demo_cenv (\<lambda>_ _. 0) (\<lambda>_. 0)) p1 = Inr (0, p2)
    \<and> client_work p2 p2 \<and> client_threads_done (just_end p2) = Inr True"
proof -
  have "\<exists>p1 p2. prepare_client (demo_cenv (\<lambda>_ _. 0) (\<lambda>_. 0)) demo_ccfg demo_cproc = Inr (Some 0, p1)
    \<and> start_client (demo_cenv (\<lambda>_ _. 0) (\<lambda>_. 0)) p1 = Inr (0, p2)
    \<and> (\<forall>t x. infos (clib p2) t = Some x \<longrightarrow> returned x = 0)
    \<and> client_threads_done (just_end p2) = Inr True"
    by (simp add: client_eval client_threads_done_def client_nr_threads_done_def just_end_def
        cong: bind_res_weak_cong)
  then obtain p1 p2 where
    p: "prepare_client (demo_cenv (\<lambda>_ _. 0) (\<lambda>_. 0)) demo_ccfg demo_cproc = Inr (Some 0, p1)"
    "start_client (demo_cenv (\<lambda>_ _. 0) (\<lambda>_. 0)) p1 = Inr (0, p2)"
    "\<forall>t x. infos (clib p2) t = Some x \<longrightarrow> returned x = 0" "client_threads_done (just_end p2) = Inr True" by blast
  have "info_work (infos (clib p2)) (infos (clib p2))"
  proof (rule info_workI)
    show "\<exists>r b. b \<in> {0, 1} \<and> infos (clib p2) t = Some (x\<lparr>ti_ret := r, returned := b\<rparr>)"
      if "infos (clib p2) t = Some x" for t x
      by (intro exI [of _ "ti_ret x"] exI [of _ 0]) (use that p(3) in simp)
  qed
  moreover have "\<exists>b. cx p2 = (cx p2)\<lparr>cx_stopping := b\<rparr>" by (rule exI [of _ "cx_stopping (cx p2)"]) simp
  ultimately have "client_work p2 p2" by (simp add: client_work_def)
  with p show ?thesis by blast
qed

lemma demo_cproc_threads: "threads_ok (clib demo_cproc)"
  by (simp add: threads_ok_def mem_ok_def demo_cproc_def)

theorem client_main_loop_ends_witness:
  "\<exists>p2 prog q. run_wait 2 (\<lambda>_. (Timespec 8 0, Timespec 8 0)) (\<lambda>_. just_end) 0 no_progress p2 = Inr (prog, q)
    \<and> client_threads_done q = Inr True \<and> (\<exists>t. infos (clib p2) t \<noteq> None)"
proof -
  let ?e = "demo_cenv (\<lambda>_ _. 0) (\<lambda>_. 0)"
  from demo_start_ok obtain p1 p2 where p: "prepare_client ?e demo_ccfg demo_cproc = Inr (Some 0, p1)"
    "start_client ?e p1 = Inr (0, p2)" "client_work p2 p2" "client_threads_done (just_end p2) = Inr True" by blast
  have one: "returned x = 1" if "infos (clib (just_end q)) t = Some x" for q t x
    using that by (auto simp: just_end_def)
  have "\<exists>prog q. run_wait 2 (\<lambda>_. (Timespec 8 0, Timespec 8 0)) (\<lambda>_. just_end) 0 no_progress p2 = Inr (prog, q)
      \<and> client_work p2 q \<and> client_threads_done q = Inr True"
    by (rule client_main_loop_ends [where N = 0, OF demo_cproc_ok(1) demo_cproc_threads demo_cproc_ok(2,3) p(1,2)
        just_end_work one p(3)]) simp_all
  then obtain prog q where q: "run_wait 2 (\<lambda>_. (Timespec 8 0, Timespec 8 0)) (\<lambda>_. just_end) 0 no_progress p2
      = Inr (prog, q)" "client_threads_done q = Inr True" by blast
  moreover obtain ts as where R: "running as ts p2" "length as = 2"
    by (rule started_client [OF demo_cproc_ok(1) demo_cproc_threads demo_cproc_ok(2,3) p(1,2)])
      (simp add: demo_ccfg_def)
  moreover have "0 < length ts" using R(2) runningD(2) [OF R(1)] by simp
  ultimately show ?thesis using runningD(8) [OF R(1)] by blast
qed

theorem client_end_gives_back_witness:
  "\<exists>q q' p'. join_client (\<lambda>_. 0) q = Inr (0, q') \<and> cleanup_client 0 q' = Inr p'
    \<and> allocated (th_mem (clib p')) = {} \<and> bar_destroyed p' = bar_destroyed q + 1"
proof -
  let ?e = "demo_cenv (\<lambda>_ _. 0) (\<lambda>_. 0)"
  from demo_start_ok obtain p1 p2 where p: "prepare_client ?e demo_ccfg demo_cproc = Inr (Some 0, p1)"
    "start_client ?e p1 = Inr (0, p2)" "client_threads_done (just_end p2) = Inr True" by blast
  from client_end_gives_back [OF demo_cproc_ok(1) demo_cproc_threads demo_cproc_ok(2,3) p(1,2)
      just_end_work p(3), of "\<lambda>_. 0"]
  show ?thesis by (force simp: demo_cproc_def allocated_def)
qed

end
